(* ===== verification/Prelude.thy ===== *)
theory Prelude
  imports "HOL-Library.Word" "HOL-Library.Char_ord"
begin

text \<open>
  Shared vocabulary of the development: the machine types of the Rust sources, three-way
  comparison with the laws every comparator of the program is used under, index scans over byte
  slices, and the checked arithmetic of \<^verbatim>\<open>core\<close>.

  A Rust byte is a HOL \<^typ>\<open>char\<close> (both are eight bits), so a byte string literal
  \<^verbatim>\<open>b"1.2"\<close> is written \<open>''1.2''\<close>. A \<^verbatim>\<open>usize\<close> index or length is a
  \<^typ>\<open>nat\<close>; every other integer keeps its width as a word,
  which \<open>uint\<close> and \<open>unat\<close> read as an unsigned and \<open>sint\<close> as a signed number.
\<close>

section \<open>Machine types\<close>

type_synonym byte = char
type_synonym bytes = "char list"
type_synonym u32 = "32 word"
type_synonym u64 = "64 word"
type_synonym i64 = "64 word"

named_theorems order_simps \<open>evaluation and inversion of three-way comparisons\<close>
named_theorems scan_simps \<open>bounds of index scans\<close>

section \<open>Three-way comparison\<close>

text \<open>\<^verbatim>\<open>core::cmp::Ordering\<close> and its \<^verbatim>\<open>reverse\<close>.\<close>

datatype ordering = Less | Equal | Greater

fun reverse_ordering :: "ordering \<Rightarrow> ordering" where
  "reverse_ordering Less = Greater"
| "reverse_ordering Equal = Equal"
| "reverse_ordering Greater = Less"

text \<open>\<^verbatim>\<open>Ord::cmp\<close> of a primitive type.\<close>

definition cmp :: "'a::linorder \<Rightarrow> 'a \<Rightarrow> ordering" where
  "cmp a b = (if a < b then Less else if a = b then Equal else Greater)"

text \<open>\<^verbatim>\<open>Ord::cmp\<close> of a slice: lexicographic, a proper prefix is smaller.\<close>

fun lex_cmp :: "('a \<Rightarrow> 'a \<Rightarrow> ordering) \<Rightarrow> 'a list \<Rightarrow> 'a list \<Rightarrow> ordering" where
  "lex_cmp c [] [] = Equal"
| "lex_cmp c [] (y # ys) = Less"
| "lex_cmp c (x # xs) [] = Greater"
| "lex_cmp c (x # xs) (y # ys) =
     (case c x y of Equal \<Rightarrow> lex_cmp c xs ys | r \<Rightarrow> r)"

text \<open>\<^verbatim>\<open>strings::order\<close>.\<close>

definition order_bytes :: "bytes \<Rightarrow> bytes \<Rightarrow> ordering" where
  "order_bytes = lex_cmp cmp"

text \<open>Two comparisons in sequence, the second deciding where the first is equal.\<close>

definition then_cmp :: "('a \<Rightarrow> 'a \<Rightarrow> ordering) \<Rightarrow> ('a \<Rightarrow> 'a \<Rightarrow> ordering) \<Rightarrow> 'a \<Rightarrow> 'a \<Rightarrow> ordering" where
  "then_cmp c d a b = (case c a b of Equal \<Rightarrow> d a b | r \<Rightarrow> r)"

section \<open>Checked arithmetic and ASCII classes\<close>

definition checked_add_u64 :: "u64 \<Rightarrow> u64 \<Rightarrow> u64 option" where
  "checked_add_u64 a b = (if unat a + unat b < 2 ^ 64 then Some (a + b) else None)"

definition u64_max :: u64 where
  "u64_max = 0xFFFFFFFFFFFFFFFF"

definition is_ascii_digit :: "byte \<Rightarrow> bool" where
  "is_ascii_digit c \<longleftrightarrow> CHR ''0'' \<le> c \<and> c \<le> CHR ''9''"

definition is_ascii_lower :: "byte \<Rightarrow> bool" where
  "is_ascii_lower c \<longleftrightarrow> CHR ''a'' \<le> c \<and> c \<le> CHR ''z''"

definition is_ascii_upper :: "byte \<Rightarrow> bool" where
  "is_ascii_upper c \<longleftrightarrow> CHR ''A'' \<le> c \<and> c \<le> CHR ''Z''"

definition is_ascii_alphabetic :: "byte \<Rightarrow> bool" where
  "is_ascii_alphabetic c \<longleftrightarrow> is_ascii_lower c \<or> is_ascii_upper c"

definition is_ascii_alphanumeric :: "byte \<Rightarrow> bool" where
  "is_ascii_alphanumeric c \<longleftrightarrow> is_ascii_alphabetic c \<or> is_ascii_digit c"

text \<open>\<^verbatim>\<open>u8::is_ascii_whitespace\<close>: space, tab, line feed, form feed, carriage return.\<close>

definition is_ascii_whitespace :: "byte \<Rightarrow> bool" where
  "is_ascii_whitespace c \<longleftrightarrow> c \<in> {CHR '' '', CHR 0x09, CHR 0x0A, CHR 0x0C, CHR 0x0D}"

section \<open>Index scans\<close>

text \<open>\<^verbatim>\<open>slice.get(i)\<close>.\<close>

definition get :: "'a list \<Rightarrow> nat \<Rightarrow> 'a option" where
  "get xs i = (if i < length xs then Some (xs ! i) else None)"

text \<open>The range \<^verbatim>\<open>&xs[a..b]\<close> of a slice, for \<open>a \<le> b \<le> length xs\<close>.\<close>

definition range_of :: "'a list \<Rightarrow> nat \<Rightarrow> nat \<Rightarrow> 'a list" where
  "range_of xs a b = take (b - a) (drop a xs)"

text \<open>\<^verbatim>\<open>while i < xs.len() && p(xs[i]) { i += 1; }\<close>: the value of \<^verbatim>\<open>i\<close> after the loop.\<close>

definition skip_while :: "('a \<Rightarrow> bool) \<Rightarrow> 'a list \<Rightarrow> nat \<Rightarrow> nat" where
  "skip_while p xs i = i + length (takeWhile p (drop i xs))"

section \<open>The laws of a comparator\<close>

lemma reverse_ordering_eq [simp]:
  "reverse_ordering r = Less \<longleftrightarrow> r = Greater"
  "reverse_ordering r = Equal \<longleftrightarrow> r = Equal"
  "reverse_ordering r = Greater \<longleftrightarrow> r = Less"
  by (cases r; simp)+

lemma reverse_ordering_inj [simp]: "reverse_ordering r = reverse_ordering s \<longleftrightarrow> r = s"
  by (cases r; cases s) simp_all

locale comparison =
  fixes c :: "'a \<Rightarrow> 'a \<Rightarrow> ordering"
  assumes c_refl: "c a a = Equal"
    and c_flip: "c b a = reverse_ordering (c a b)"
    and c_trans: "c a b \<noteq> Greater \<Longrightarrow> c b d \<noteq> Greater \<Longrightarrow> c a d \<noteq> Greater"
begin

lemma eq_sym: "c a b = Equal \<Longrightarrow> c b a = Equal"
  using c_flip [of a b] by simp

lemma less_iff_greater: "c a b = Less \<longleftrightarrow> c b a = Greater"
  using c_flip [of b a] by simp

lemma eq_left:
  assumes "c a b = Equal"
  shows "c a d = c b d"
proof -
  have le: "c a b \<noteq> Greater" "c b a \<noteq> Greater"
    using assms eq_sym by auto
  have "c a d \<noteq> Greater \<longleftrightarrow> c b d \<noteq> Greater"
    using le c_trans by blast
  moreover have "c d a \<noteq> Greater \<longleftrightarrow> c d b \<noteq> Greater"
    using le c_trans by blast
  ultimately show ?thesis
    using less_iff_greater [of a d] less_iff_greater [of b d]
    by (cases "c a d"; cases "c b d") auto
qed

lemma eq_right: "c a b = Equal \<Longrightarrow> c d a = c d b"
  using eq_left [of a b d] c_flip [of d a] c_flip [of d b] by simp

lemma eq_trans: "c a b = Equal \<Longrightarrow> c b d = Equal \<Longrightarrow> c a d = Equal"
  using eq_left [of a b d] by simp

lemma less_le_trans:
  assumes "c a b = Less" "c b d \<noteq> Greater"
  shows "c a d = Less"
proof (rule ccontr)
  assume "c a d \<noteq> Less"
  then have "c d a \<noteq> Greater" using less_iff_greater by simp
  then have "c b a \<noteq> Greater" using assms(2) c_trans by blast
  then show False using assms(1) less_iff_greater by simp
qed

lemma le_less_trans:
  assumes "c a b \<noteq> Greater" "c b d = Less"
  shows "c a d = Less"
proof (rule ccontr)
  assume "c a d \<noteq> Less"
  then have "c d a \<noteq> Greater" using less_iff_greater by simp
  then have "c d b \<noteq> Greater" using assms(1) c_trans by blast
  then show False using assms(2) less_iff_greater by simp
qed

lemma less_trans: "c a b = Less \<Longrightarrow> c b d = Less \<Longrightarrow> c a d = Less"
  using less_le_trans by simp

text \<open>Laws carried over to slices and to keys.\<close>

lemma lex_refl: "lex_cmp c xs xs = Equal"
  by (induction xs) (simp_all add: c_refl)

lemma lex_flip: "lex_cmp c ys xs = reverse_ordering (lex_cmp c xs ys)"
proof (induction xs ys rule: list_induct2')
  case (4 x xs y ys)
  then show ?case using c_flip [of y x] by (cases "c x y") simp_all
qed simp_all

lemma lex_trans:
  "lex_cmp c xs ys \<noteq> Greater \<Longrightarrow> lex_cmp c ys zs \<noteq> Greater \<Longrightarrow> lex_cmp c xs zs \<noteq> Greater"
proof (induction xs arbitrary: ys zs)
  case Nil
  then show ?case by (cases zs) auto
next
  case (Cons x xs)
  from Cons.prems(1) obtain y ys' where ys: "ys = y # ys'" by (cases ys) auto
  with Cons.prems(2) obtain z zs' where zs: "zs = z # zs'" by (cases zs) auto
  have xy: "c x y \<noteq> Greater" and yz: "c y z \<noteq> Greater"
    using Cons.prems by (auto simp: ys zs split: ordering.splits)
  show ?case
  proof (cases "c x z")
    case Equal
    then have "c y x \<noteq> Greater" "c z y \<noteq> Greater"
      using yz xy c_trans [of y z x] c_trans [of z x y] eq_sym by auto
    then have "c x y = Equal" "c y z = Equal"
      using xy yz less_iff_greater [of x y] less_iff_greater [of y z]
      by (cases "c x y"; cases "c y z"; simp)+
    then show ?thesis using Cons.IH [of ys' zs'] Cons.prems Equal by (simp add: ys zs)
  qed (use xy yz c_trans in \<open>auto simp: zs\<close>)
qed

lemma lex_comparison: "comparison (lex_cmp c)"
proof
  show "lex_cmp c xs xs = Equal" for xs by (rule lex_refl)
  show "lex_cmp c ys xs = reverse_ordering (lex_cmp c xs ys)" for xs ys by (rule lex_flip)
  show "lex_cmp c xs ys \<noteq> Greater \<Longrightarrow> lex_cmp c ys zs \<noteq> Greater \<Longrightarrow> lex_cmp c xs zs \<noteq> Greater"
    for xs ys zs by (rule lex_trans)
qed

lemma key_comparison: "comparison (\<lambda>a b. c (f a) (f b))"
proof
  show "c (f a) (f a) = Equal" for a by (rule c_refl)
  show "c (f b) (f a) = reverse_ordering (c (f a) (f b))" for a b by (rule c_flip)
  show "c (f a) (f b) \<noteq> Greater \<Longrightarrow> c (f b) (f d) \<noteq> Greater \<Longrightarrow> c (f a) (f d) \<noteq> Greater" for a b d
    by (rule c_trans)
qed

end

interpretation cmp: comparison "cmp :: 'a::linorder \<Rightarrow> 'a \<Rightarrow> ordering"
  by unfold_locales (auto simp: cmp_def split: if_splits)

interpretation order_bytes: comparison order_bytes
  unfolding order_bytes_def by (rule cmp.lex_comparison)

lemma then_comparison:
  assumes "comparison c" and "comparison d"
  shows "comparison (then_cmp c d)"
proof -
  note C = comparison.c_refl [OF assms(1)] comparison.c_flip [OF assms(1)]
  note D = comparison.c_refl [OF assms(2)] comparison.c_flip [OF assms(2)]
  show ?thesis
  proof
    show "then_cmp c d a a = Equal" for a by (simp add: then_cmp_def C D)
    show "then_cmp c d b a = reverse_ordering (then_cmp c d a b)" for a b
      by (simp add: then_cmp_def C(2) [of b a] D(2) [of b a] split: ordering.splits)
    fix x y z
    assume xy: "then_cmp c d x y \<noteq> Greater" and yz: "then_cmp c d y z \<noteq> Greater"
    have cxy: "c x y \<noteq> Greater" and cyz: "c y z \<noteq> Greater"
      using xy yz by (auto simp: then_cmp_def split: ordering.splits)
    consider "c x y = Less \<or> c y z = Less" | "c x y = Equal" "c y z = Equal"
      using cxy cyz by (cases "c x y"; cases "c y z") auto
    then show "then_cmp c d x z \<noteq> Greater"
    proof cases
      case 1
      then have "c x z = Less"
        using cxy cyz comparison.less_le_trans [OF assms(1)] comparison.le_less_trans [OF assms(1)]
        by blast
      then show ?thesis by (simp add: then_cmp_def)
    next
      case 2
      then show ?thesis
        using xy yz comparison.eq_trans [OF assms(1) 2] comparison.c_trans [OF assms(2)]
        by (simp add: then_cmp_def)
    qed
  qed
qed

section \<open>Lemmas on comparison and scans\<close>

lemma cmp_Less [simp, order_simps]: "cmp a b = Less \<longleftrightarrow> a < b"
  and cmp_Equal [simp, order_simps]: "cmp a b = Equal \<longleftrightarrow> a = b"
  and cmp_Greater [simp, order_simps]: "cmp a b = Greater \<longleftrightarrow> b < a"
  by (auto simp: cmp_def)

lemma lex_cmp_Equal:
  assumes "\<And>x y. c x y = Equal \<longleftrightarrow> x = y"
  shows "lex_cmp c xs ys = Equal \<longleftrightarrow> xs = ys"
proof (induction xs ys rule: list_induct2')
  case (4 x xs y ys)
  then show ?case using assms [of x y] by (cases "c x y") auto
qed simp_all

lemma order_bytes_Equal [simp, order_simps]: "order_bytes a b = Equal \<longleftrightarrow> a = b"
  by (simp add: order_bytes_def lex_cmp_Equal)

lemma skip_while_ge [simp, scan_simps]: "i \<le> skip_while p xs i"
  by (simp add: skip_while_def)

lemma skip_while_le [scan_simps]: "i \<le> length xs \<Longrightarrow> skip_while p xs i \<le> length xs"
  using length_takeWhile_le [of p "drop i xs"] by (simp add: skip_while_def)

lemma skip_while_step: "skip_while p xs i =
    (if i < length xs \<and> p (xs ! i) then skip_while p xs (Suc i) else i)"
  by (cases "i < length xs") (simp_all add: skip_while_def Cons_nth_drop_Suc [symmetric])

lemma skip_while_inside: "i \<le> j \<Longrightarrow> j < skip_while p xs i \<Longrightarrow> p (xs ! j)"
proof -
  assume a: "i \<le> j" "j < skip_while p xs i"
  then have k: "j - i < length (takeWhile p (drop i xs))" by (simp add: skip_while_def)
  then have "takeWhile p (drop i xs) ! (j - i) = xs ! j"
    using a(1) length_takeWhile_le [of p "drop i xs"] by (simp add: takeWhile_nth)
  with k show ?thesis by (metis nth_mem set_takeWhileD)
qed

lemma skip_while_stop: "skip_while p xs i < length xs \<Longrightarrow> \<not> p (xs ! skip_while p xs i)"
proof -
  assume a: "skip_while p xs i < length xs"
  let ?n = "length (takeWhile p (drop i xs))"
  have "?n < length (drop i xs)" using a by (auto simp: skip_while_def)
  then have "\<not> p (drop i xs ! ?n)" by (rule nth_length_takeWhile)
  with a show ?thesis by (simp add: skip_while_def)
qed

lemma checked_add_u64_code [code]:
  "checked_add_u64 a b = (if uint a + uint b < 2 ^ 64 then Some (a + b) else None)"
proof -
  have "int (unat a + unat b) < int (2 ^ 64) \<longleftrightarrow> unat a + unat b < 2 ^ 64" by (simp only: of_nat_less_iff)
  then show ?thesis by (simp add: checked_add_u64_def)
qed

lemma checked_add_u64_Some: "checked_add_u64 a b = Some s \<longleftrightarrow> unat a + unat b < 2 ^ 64 \<and> s = a + b"
  by (auto simp: checked_add_u64_def)

lemma checked_add_u64_1: "checked_add_u64 a 1 = (if a = u64_max then None else Some (a + 1))"
proof -
  have "unat a + 1 < 2 ^ 64 \<longleftrightarrow> a \<noteq> u64_max"
  proof
    assume "unat a + 1 < 2 ^ 64"
    then show "a \<noteq> u64_max" by (auto simp: u64_max_def)
  next
    assume "a \<noteq> u64_max"
    then have "unat a \<noteq> unat u64_max" by (simp add: word_unat_eq_iff)
    then have "unat a \<noteq> 2 ^ 64 - 1" by (simp add: u64_max_def)
    then show "unat a + 1 < 2 ^ 64" using unsigned_less [of a, where ?'a = nat] by simp
  qed
  then show ?thesis by (simp add: checked_add_u64_def)
qed

end
