(* ===== verification/Bun_Core.thy ===== *)
theory Bun_Core
  imports Prelude
begin

text \<open>
  The helpers of \<^verbatim>\<open>src/bun_core\<close> and \<^verbatim>\<open>src/bun_alloc\<close> that the other components call: the
  integer parser of \<^verbatim>\<open>fmt.rs\<close> (\<^verbatim>\<open>parse_with_sign\<close>, \<^verbatim>\<open>auto_radix\<close>, \<^verbatim>\<open>parse_unsigned\<close>), the
  substring splitter and the trimming functions of \<^verbatim>\<open>strings\<close>, and the decimal printing of
  \<^verbatim>\<open>core::fmt\<close>. The lemmas show that parsing inverts printing, that a successful parse is
  within the range of its type, and that splitting loses nothing.
\<close>

section \<open>Integer parsing\<close>

datatype parse_int_error = InvalidCharacter | Overflow

text \<open>The value of one digit character; \<^verbatim>\<open>None\<close> outside \<^verbatim>\<open>[0-9a-zA-Z]\<close>.\<close>

definition digit_value :: "byte \<Rightarrow> nat option" where
  "digit_value c =
     (if is_ascii_digit c then Some (of_char c - of_char (CHR ''0''))
      else if is_ascii_lower c then Some (of_char c - of_char (CHR ''a'') + 10)
      else if is_ascii_upper c then Some (of_char c - of_char (CHR ''A'') + 10)
      else None)"

text \<open>The digit loop. The accumulator is a \<^verbatim>\<open>u128\<close>; both checked operations overflow alike.\<close>

fun parse_digits :: "nat \<Rightarrow> nat \<Rightarrow> bytes \<Rightarrow> parse_int_error + nat" where
  "parse_digits radix acc [] = Inr acc"
| "parse_digits radix acc (c # cs) =
     (if c = CHR ''_'' then parse_digits radix acc cs
      else case digit_value c of
        None \<Rightarrow> Inl InvalidCharacter
      | Some d \<Rightarrow>
          if radix \<le> d then Inl InvalidCharacter
          else if 2 ^ 128 \<le> acc * radix then Inl Overflow
          else if 2 ^ 128 \<le> acc * radix + d then Inl Overflow
          else parse_digits radix (acc * radix + d) cs)"

definition parse_with_sign :: "bytes \<Rightarrow> nat \<Rightarrow> parse_int_error + nat" where
  "parse_with_sign digits radix =
     (if digits = [] \<or> hd digits = CHR ''_'' \<or> last digits = CHR ''_'' then Inl InvalidCharacter
      else parse_digits radix 0 digits)"

definition auto_radix :: "bytes \<Rightarrow> nat \<Rightarrow> bytes \<times> nat" where
  "auto_radix digits radix =
     (if radix \<noteq> 0 then (digits, radix)
      else if 2 \<le> length digits \<and> digits ! 0 = CHR ''0'' then
        (if digits ! 1 = CHR ''x'' \<or> digits ! 1 = CHR ''X'' then (drop 2 digits, 16)
         else if digits ! 1 = CHR ''o'' \<or> digits ! 1 = CHR ''O'' then (drop 2 digits, 8)
         else if digits ! 1 = CHR ''b'' \<or> digits ! 1 = CHR ''B'' then (drop 2 digits, 2)
         else (digits, 10))
      else (digits, 10))"

text \<open>\<^verbatim>\<open>parse_unsigned::<u64>\<close>: the conversion from \<^verbatim>\<open>u128\<close> fails above \<^verbatim>\<open>u64::MAX\<close>.\<close>

definition parse_unsigned :: "bytes \<Rightarrow> nat \<Rightarrow> parse_int_error + u64" where
  "parse_unsigned buf radix =
     (case auto_radix buf radix of (digits, radix') \<Rightarrow>
        (case parse_with_sign digits radix' of
           Inl e \<Rightarrow> Inl e
         | Inr acc \<Rightarrow> if acc < 2 ^ 64 then Inr (of_nat acc) else Inl Overflow))"

text \<open>\<^verbatim>\<open>Display\<close> of an unsigned integer.\<close>

fun show_nat :: "nat \<Rightarrow> bytes" where
  "show_nat n =
     (if n < 10 then [char_of (48 + n)] else show_nat (n div 10) @ [char_of (48 + n mod 10)])"

declare show_nat.simps [simp del]

definition show_u64 :: "u64 \<Rightarrow> bytes" where
  "show_u64 n = show_nat (unat n)"

text \<open>Code equations that compare with the limits as integers, for evaluation by the simplifier.\<close>

lemma int_numeral_power_le: "(numeral k ^ n \<le> m) = (numeral k ^ n \<le> int m)"
  by (metis of_nat_le_iff of_nat_numeral of_nat_power)

lemma int_less_numeral_power: "(m < numeral k ^ n) = (int m < numeral k ^ n)"
  by (metis of_nat_less_iff of_nat_numeral of_nat_power)

lemma parse_digits_code [code]:
  "parse_digits radix acc [] = Inr acc"
  "parse_digits radix acc (c # cs) =
     (if c = CHR ''_'' then parse_digits radix acc cs
      else case digit_value c of
        None \<Rightarrow> Inl InvalidCharacter
      | Some d \<Rightarrow>
          if radix \<le> d then Inl InvalidCharacter
          else if 2 ^ 128 \<le> int (acc * radix) then Inl Overflow
          else if 2 ^ 128 \<le> int (acc * radix + d) then Inl Overflow
          else parse_digits radix (acc * radix + d) cs)"
  by (simp, simp only: parse_digits.simps int_numeral_power_le)

lemma parse_unsigned_code [code]:
  "parse_unsigned buf radix =
     (case auto_radix buf radix of (digits, radix') \<Rightarrow>
        (case parse_with_sign digits radix' of
           Inl e \<Rightarrow> Inl e
         | Inr acc \<Rightarrow> if int acc < 2 ^ 64 then Inr (of_nat acc) else Inl Overflow))"
  by (simp only: parse_unsigned_def int_less_numeral_power)

section \<open>Splitting and trimming\<close>

text \<open>\<^verbatim>\<open>index_of\<close>: the first occurrence of a non-empty needle.\<close>

definition index_of :: "bytes \<Rightarrow> bytes \<Rightarrow> nat option" where
  "index_of self str =
     (if self = [] \<or> str = [] \<or> length self < length str then None
      else List.find (\<lambda>i. take (length str) (drop i self) = str)
             [0..<Suc (length self - length str)])"

lemma index_of_Some_bound:
  "index_of s d = Some i \<Longrightarrow> d \<noteq> [] \<and> i + length d \<le> length s"
  by (auto simp: index_of_def find_Some_iff less_Suc_eq_le simp del: upt_Suc split: if_splits)

text \<open>
  The fields a \<^verbatim>\<open>SplitIterator\<close> whose \<^verbatim>\<open>index\<close> is \<^verbatim>\<open>Some(start)\<close> still yields, in order:
  \<^verbatim>\<open>next\<close> returns the text up to the delimiter and moves past it, and the last field ends the
  iteration.
\<close>

function split_from :: "bytes \<Rightarrow> bytes \<Rightarrow> nat \<Rightarrow> bytes list" where
  "split_from buffer delimiter start =
     (case index_of (drop start buffer) delimiter of
        None \<Rightarrow> [drop start buffer]
      | Some delim_start \<Rightarrow>
          range_of buffer start (start + delim_start)
            # split_from buffer delimiter (start + delim_start + length delimiter))"
  by pat_completeness auto
termination
  by (relation "measure (\<lambda>(b, d, s). length b - s)")
    (auto dest!: index_of_Some_bound simp flip: length_greater_0_conv)

declare split_from.simps [simp del]

definition split :: "bytes \<Rightarrow> bytes \<Rightarrow> bytes list" where
  "split self delimiter = split_from self delimiter 0"

definition whitespace_chars :: "byte list" where
  "whitespace_chars = [CHR '' '', CHR 0x09, CHR 0x0A, CHR 0x0D, CHR 0x0B, CHR 0x0C]"

definition trim_left :: "bytes \<Rightarrow> byte list \<Rightarrow> bytes" where
  "trim_left s chars = drop (skip_while (\<lambda>c. c \<in> set chars) s 0) s"

text \<open>\<^verbatim>\<open>while end > 0 && chars.contains(&s[end - 1]) { end -= 1; }\<close>\<close>

fun trim_end :: "bytes \<Rightarrow> byte list \<Rightarrow> nat \<Rightarrow> nat" where
  "trim_end s chars 0 = 0"
| "trim_end s chars (Suc e) = (if s ! e \<in> set chars then trim_end s chars e else Suc e)"

definition trim_right :: "bytes \<Rightarrow> byte list \<Rightarrow> bytes" where
  "trim_right s chars = take (trim_end s chars (length s)) s"

definition trim :: "bytes \<Rightarrow> byte list \<Rightarrow> bytes" where
  "trim s chars = trim_right (trim_left s chars) chars"

definition is_all_whitespace :: "bytes \<Rightarrow> bool" where
  "is_all_whitespace s \<longleftrightarrow>
     skip_while (\<lambda>c. c \<in> set whitespace_chars) s 0 = length s"

definition length_of_leading_whitespace_ascii :: "bytes \<Rightarrow> nat" where
  "length_of_leading_whitespace_ascii s =
     skip_while (\<lambda>c. c \<in> set whitespace_chars) s 0"

section \<open>Parsing inverts printing\<close>

abbreviation digit_char :: "nat \<Rightarrow> byte" where
  "digit_char d \<equiv> char_of (48 + d)"

lemma of_digit_char: "d < 10 \<Longrightarrow> of_char (digit_char d) = (48 + d :: nat)"
  by (simp add: take_bit_eq_mod)

lemma is_ascii_digit_iff: "is_ascii_digit c \<longleftrightarrow> (\<exists>d<10. c = digit_char d)"
proof
  assume "is_ascii_digit c"
  then have "48 \<le> (of_char c :: nat)" "(of_char c :: nat) \<le> 57"
    by (simp_all add: is_ascii_digit_def less_eq_char_def)
  then have "of_char c - 48 < (10::nat)" "c = digit_char (of_char c - 48)"
    by simp_all
  then show "\<exists>d<10. c = digit_char d" by blast
next
  assume "\<exists>d<10. c = digit_char d"
  then show "is_ascii_digit c"
    by (auto simp: is_ascii_digit_def less_eq_char_def of_digit_char)
qed

lemma digit_value_digit_char [simp]: "d < 10 \<Longrightarrow> digit_value (digit_char d) = Some d"
  using is_ascii_digit_iff [of "digit_char d"] by (auto simp: digit_value_def of_digit_char)

lemma digit_char_neq: "d < 10 \<Longrightarrow> \<not> is_ascii_digit c \<Longrightarrow> digit_char d \<noteq> c"
  using is_ascii_digit_iff by blast

lemma show_nat_digits: "c \<in> set (show_nat n) \<Longrightarrow> is_ascii_digit c"
proof (induction n rule: show_nat.induct)
  case (1 n)
  have d: "is_ascii_digit (digit_char d)" if "d < 10" for d
    using that is_ascii_digit_iff by blast
  show ?case
  proof (cases "n < 10")
    case True
    then show ?thesis using "1.prems" d by (subst (asm) show_nat.simps) simp
  next
    case False
    then show ?thesis using "1.prems" "1.IH" d [of "n mod 10"]
      by (subst (asm) show_nat.simps) auto
  qed
qed

lemma show_nat_nonempty [simp]: "show_nat n \<noteq> []"
  by (subst show_nat.simps) simp

lemma parse_digits_append:
  "parse_digits r acc (xs @ ys) =
     (case parse_digits r acc xs of Inl e \<Rightarrow> Inl e | Inr a \<Rightarrow> parse_digits r a ys)"
  by (induction r acc xs rule: parse_digits.induct) (auto split: option.splits)

lemma parse_digits_show_nat: "n < 2 ^ 128 \<Longrightarrow> parse_digits 10 0 (show_nat n) = Inr n"
proof (induction n rule: show_nat.induct)
  case (1 n)
  have ne: "digit_char d \<noteq> CHR ''_''" if "d < 10" for d
    using that by (rule digit_char_neq) (simp add: is_ascii_digit_def)
  show ?case
  proof (cases "n < 10")
    case True
    then show ?thesis using ne [of n] by (subst show_nat.simps) simp
  next
    case False
    with 1 have "parse_digits 10 0 (show_nat (n div 10)) = Inr (n div 10)" by simp
    moreover have "n div 10 * 10 + n mod 10 = n" by simp
    moreover have "n div 10 * 10 \<le> n" by simp
    ultimately show ?thesis
      using False ne [of "n mod 10"] "1.prems" digit_value_digit_char [of "n mod 10"]
      by (subst show_nat.simps) (simp add: parse_digits_append del: digit_value_digit_char, arith)
  qed
qed

lemma show_nat_ends: "hd (show_nat n) \<noteq> CHR ''_''" "last (show_nat n) \<noteq> CHR ''_''"
  using show_nat_digits [of "hd (show_nat n)" n] show_nat_digits [of "last (show_nat n)" n]
  by (auto simp: is_ascii_digit_def)

lemma parse_unsigned_show_u64: "parse_unsigned (show_u64 n) 10 = Inr n"
  using unsigned_less [of n, where ?'a = nat]
  by (simp add: parse_unsigned_def auto_radix_def parse_with_sign_def show_u64_def show_nat_ends
      parse_digits_show_nat)

lemma parse_digits_show_nat_overflow: "2 ^ 128 \<le> n \<Longrightarrow> parse_digits 10 0 (show_nat n) = Inl Overflow"
proof (induction n rule: show_nat.induct)
  case (1 n)
  have ne: "digit_char d \<noteq> CHR ''_''" if "d < 10" for d
    using that by (rule digit_char_neq) (simp add: is_ascii_digit_def)
  have big: "\<not> n < 10" using "1.prems" by simp
  have last: "parse_digits 10 (n div 10) [digit_char (n mod 10)] = Inl Overflow" if "n div 10 < 2 ^ 128"
    using that ne [of "n mod 10"] "1.prems" digit_value_digit_char [of "n mod 10"]
    by (simp del: digit_value_digit_char)
  show ?case
  proof (cases "n div 10 < 2 ^ 128")
    case True
    then show ?thesis using big last parse_digits_show_nat [of "n div 10"]
      by (subst show_nat.simps) (simp add: parse_digits_append)
  next
    case False
    then show ?thesis using big 1 by (subst show_nat.simps) (simp add: parse_digits_append)
  qed
qed

lemma parse_unsigned_show_nat_overflow:
  assumes "2 ^ 64 \<le> n"
  shows "parse_unsigned (show_nat n) 10 = Inl Overflow"
  using assms parse_digits_show_nat [of n] parse_digits_show_nat_overflow [of n]
  by (cases "n < 2 ^ 128") (simp_all add: parse_unsigned_def auto_radix_def parse_with_sign_def show_nat_ends)

text \<open>Splitting on a delimiter and joining with it is the identity.\<close>

lemma index_of_Some_split:
  "index_of s d = Some i \<Longrightarrow> s = take i s @ d @ drop (i + length d) s"
  by (auto simp: index_of_def find_Some_iff split: if_splits)
    (metis add.commute append_take_drop_id drop_drop)

fun join :: "bytes \<Rightarrow> bytes list \<Rightarrow> bytes" where
  "join d [] = []"
| "join d [f] = f"
| "join d (f # g # fs) = f @ d @ join d (g # fs)"

lemma split_from_nonempty [simp]: "split_from b d s \<noteq> []"
  by (subst split_from.simps) (simp split: option.splits)

lemma join_Cons: "fs \<noteq> [] \<Longrightarrow> join d (f # fs) = f @ d @ join d fs"
  by (cases fs) simp_all

lemma join_split_from: "start \<le> length b \<Longrightarrow> join d (split_from b d start) = drop start b"
proof (induction b d start rule: split_from.induct)
  case (1 b d start)
  show ?case
  proof (cases "index_of (drop start b) d")
    case None
    then show ?thesis by (subst split_from.simps) simp
  next
    case (Some i)
    note bound = index_of_Some_bound [OF Some]
    have "join d (split_from b d (start + i + length d)) = drop (start + i + length d) b"
      using 1 Some bound by auto
    moreover have "drop start b = take i (drop start b) @ d @ drop (i + length d) (drop start b)"
      by (rule index_of_Some_split [OF Some])
    ultimately show ?thesis using Some
      by (subst split_from.simps) (simp add: join_Cons range_of_def add_ac)
  qed
qed

lemma join_split: "join d (split s d) = s"
  by (simp add: split_def join_split_from)

subsection \<open>Splitting what was joined\<close>

lemma take_one_drop: "take (Suc 0) (drop i s) = [c] \<longleftrightarrow> i < length s \<and> s ! i = c"
  by (cases "i < length s") (simp_all add: Cons_nth_drop_Suc [symmetric])

lemma index_of_char_None: "c \<notin> set s \<Longrightarrow> index_of s [c] = None"
  by (auto simp: index_of_def find_None_iff take_one_drop simp del: upt_Suc)

lemma index_of_char: "c \<notin> set p \<Longrightarrow> index_of (p @ c # r) [c] = Some (length p)"
proof -
  assume c: "c \<notin> set p"
  let ?P = "\<lambda>i. take (length [c]) (drop i (p @ c # r)) = [c]"
  have n: "\<not> ?P i" if "i < length p" for i
  proof -
    have "p ! i \<noteq> c" using that c nth_mem by blast
    then show ?thesis using that by (simp add: take_one_drop nth_append)
  qed
  have u: "[0..<Suc (length (p @ c # r) - length [c])] = [0..<length p] @ length p # [Suc (length p)..<Suc (length p + length r)]"
  proof -
    have "[0..<length p + Suc (length r)] = [0..<length p] @ [length p..<length p + Suc (length r)]"
      by (rule upt_add_eq_append) simp
    moreover have "[length p..<length p + Suc (length r)] = length p # [Suc (length p)..<Suc (length p + length r)]"
      by (subst upt_conv_Cons) simp_all
    ultimately show ?thesis by simp
  qed
  have "List.find ?P [0..<length p] = None" using n by (auto simp: find_None_iff)
  moreover have "List.find ?P (xs @ ys) = (case List.find ?P xs of None \<Rightarrow> List.find ?P ys | Some x \<Rightarrow> Some x)" for xs ys
    by (induction xs) simp_all
  ultimately have "List.find ?P [0..<Suc (length (p @ c # r) - length [c])] = Some (length p)"
    unfolding u by simp
  then show ?thesis by (simp add: index_of_def del: upt_Suc)
qed

lemma split_from_drop: "start \<le> length b \<Longrightarrow> split_from b d start = split_from (drop start b) d 0"
proof (induction "length b - start" arbitrary: b start rule: less_induct)
  case less
  show ?case
  proof (cases "index_of (drop start b) d")
    case None
    then show ?thesis by (simp add: split_from.simps [of b d start] split_from.simps [of "drop start b" d 0])
  next
    case (Some i)
    note bound = index_of_Some_bound [OF Some]
    let ?n = "start + i + length d"
    have n: "?n \<le> length b" and lt: "length b - ?n < length b - start" using bound less.prems
      by (auto simp flip: length_greater_0_conv)
    have "split_from b d ?n = split_from (drop ?n b) d 0" by (rule less.hyps [OF lt n])
    moreover have "split_from (drop start b) d (i + length d) = split_from (drop ?n b) d 0"
    proof -
      have "split_from (drop start b) d (i + length d) = split_from (drop (i + length d) (drop start b)) d 0"
        by (rule less.hyps) (use lt n in simp_all)
      then show ?thesis by (simp add: ac_simps)
    qed
    ultimately show ?thesis using Some
      by (simp add: split_from.simps [of b d start] split_from.simps [of "drop start b" d 0] range_of_def)
  qed
qed


lemma split_char_none: "c \<notin> set p \<Longrightarrow> split p [c] = [p]"
  by (simp add: split_def split_from.simps [of p "[c]" 0] index_of_char_None)

lemma split_char_cons: "c \<notin> set p \<Longrightarrow> split (p @ c # r) [c] = p # split r [c]"
  using split_from_drop [of "Suc (length p)" "p @ c # r" "[c]"]
  by (simp add: split_def split_from.simps [of "p @ c # r" "[c]" 0] index_of_char range_of_def)

lemma split_join_char:
  "ps \<noteq> [] \<Longrightarrow> \<forall>p\<in>set ps. c \<notin> set p \<Longrightarrow> split (join [c] ps) [c] = ps"
proof (induction "[c]" ps rule: join.induct)
  case (3 f g fs)
  then show ?case using split_char_cons [of c f "join [c] (g # fs)"] by simp
qed (simp_all add: split_char_none)

lemma split_char_parts: "p \<in> set (split s [c]) \<Longrightarrow> c \<notin> set p \<and> set p \<subseteq> set s"
proof (induction "length s" arbitrary: s rule: less_induct)
  case less
  show ?case
  proof (cases "c \<in> set s")
    case True
    then obtain q r where s: "s = q @ c # r" "c \<notin> set q" by (metis split_list_first)
    then show ?thesis using less.prems less.hyps [of r] by (auto simp: split_char_cons)
  next
    case False
    then show ?thesis using less.prems by (simp add: split_char_none)
  qed
qed

end
