(* ===== verification/Wyhash.thy ===== *)
theory Wyhash
  imports Bun_Core
begin

unbundle bit_operations_syntax

text \<open>
  \<^verbatim>\<open>src/wyhash/lib.rs\<close>, lines 1 to 390: \<^verbatim>\<open>Wyhash11\<close>, the hash of every package name and version
  tag in the lockfile. \<^verbatim>\<open>WyhashStateless\<close> hashes a whole_blocks message in rounds of 32 bytes and a tail;
  \<^verbatim>\<open>Wyhash11\<close> buffers a message that arrives in pieces. The contract between the two is the
  locale \<open>streaming_hash\<close>: its lemma that the pieces do not matter is proved once, and the
  interpretation discharges its laws for the buffering code.
\<close>

section \<open>Mixing\<close>

definition primes :: "u64 list" where
  "primes = [0xa0761d6478bd642f, 0xe7037ed1a0b428db, 0x8ebc6af09c88c6e3, 0x589965cc75374cc3,
             0x1d8e4e27c47d124f]"

text \<open>\<^verbatim>\<open>from_le_bytes\<close>, widened to 64 bits.\<close>

fun le_bytes :: "bytes \<Rightarrow> u64" where
  "le_bytes [] = 0"
| "le_bytes (b # bs) = of_char b OR push_bit 8 (le_bytes bs)"

text \<open>\<^verbatim>\<open>read_bytes::<BYTES>\<close>, called with 1, 2, 4 and 8 on at least as many bytes.\<close>

definition read_bytes :: "nat \<Rightarrow> bytes \<Rightarrow> u64" where
  "read_bytes n data = le_bytes (take n data)"

definition read_8bytes_swapped :: "bytes \<Rightarrow> u64" where
  "read_8bytes_swapped data = push_bit 32 (read_bytes 4 data) OR read_bytes 4 (drop 4 data)"

text \<open>The product is taken in 128 bits and its halves are xored.\<close>

definition mum :: "u64 \<Rightarrow> u64 \<Rightarrow> u64" where
  "mum a b = (let r = (ucast a :: 128 word) * ucast b in ucast (drop_bit 64 r XOR r))"

definition mix0 :: "u64 \<Rightarrow> u64 \<Rightarrow> u64 \<Rightarrow> u64" where
  "mix0 a b seed = mum (a XOR seed XOR primes ! 0) (b XOR seed XOR primes ! 1)"

definition mix1 :: "u64 \<Rightarrow> u64 \<Rightarrow> u64 \<Rightarrow> u64" where
  "mix1 a b seed = mum (a XOR seed XOR primes ! 2) (b XOR seed XOR primes ! 3)"

text \<open>The last 17 to 31 bytes of a message.\<close>

definition final_long :: "u64 \<Rightarrow> bytes \<Rightarrow> u64" where
  "final_long seed key =
     (let head = mix0 (read_8bytes_swapped key) (read_8bytes_swapped (drop 8 key)) seed;
          r = (\<lambda>n off. read_bytes n (drop off key));
          p4 = primes ! 4;
          s16 = read_8bytes_swapped (drop 16 key);
          n = length key;
          tail =
            (if n = 17 then mix1 (r 1 16) p4 seed
             else if n = 18 then mix1 (r 2 16) p4 seed
             else if n = 19 then mix1 (push_bit 8 (r 2 16) OR r 1 18) p4 seed
             else if n = 20 then mix1 (r 4 16) p4 seed
             else if n = 21 then mix1 (push_bit 8 (r 4 16) OR r 1 20) p4 seed
             else if n = 22 then mix1 (push_bit 16 (r 4 16) OR r 2 20) p4 seed
             else if n = 23 then
               mix1 (push_bit 24 (r 4 16) OR push_bit 8 (r 2 20) OR r 1 22) p4 seed
             else if n = 24 then mix1 s16 p4 seed
             else if n = 25 then mix1 s16 (r 1 24) seed
             else if n = 26 then mix1 s16 (r 2 24) seed
             else if n = 27 then mix1 s16 (push_bit 8 (r 2 24) OR r 1 26) seed
             else if n = 28 then mix1 s16 (r 4 24) seed
             else if n = 29 then mix1 s16 (push_bit 8 (r 4 24) OR r 1 28) seed
             else if n = 30 then mix1 s16 (push_bit 16 (r 4 24) OR r 2 28) seed
             else mix1 s16 (push_bit 24 (r 4 24) OR push_bit 8 (r 2 28) OR r 1 30) seed)
      in head XOR tail)"

section \<open>Hashing a whole_blocks message\<close>

record wyhash_stateless =
  wy_seed :: u64
  msg_len :: nat

definition stateless_init :: "u64 \<Rightarrow> wyhash_stateless" where
  "stateless_init s = \<lparr>wy_seed = s, msg_len = 0\<rparr>"

text \<open>\<^verbatim>\<open>round\<close> on one block of 32 bytes.\<close>

definition round_block :: "wyhash_stateless \<Rightarrow> bytes \<Rightarrow> wyhash_stateless" where
  "round_block self b =
     self\<lparr>wy_seed :=
       mix0 (read_bytes 8 (drop 0 b)) (read_bytes 8 (drop 8 b)) (wy_seed self) XOR
       mix1 (read_bytes 8 (drop 16 b)) (read_bytes 8 (drop 24 b)) (wy_seed self)\<rparr>"

text \<open>The loop of \<^verbatim>\<open>update\<close>: one round per block; the length is a multiple of 32.\<close>

function rounds :: "wyhash_stateless \<Rightarrow> bytes \<Rightarrow> wyhash_stateless" where
  "rounds self b = (if b = [] then self else rounds (round_block self (take 32 b)) (drop 32 b))"
  by pat_completeness auto
termination by (relation "measure (\<lambda>(s, b). length b)") auto

declare rounds.simps [simp del]

definition stateless_update :: "wyhash_stateless \<Rightarrow> bytes \<Rightarrow> wyhash_stateless" where
  "stateless_update self b = (let s = rounds self b in s\<lparr>msg_len := msg_len s + length b\<rparr>)"

definition final_seed :: "u64 \<Rightarrow> bytes \<Rightarrow> u64" where
  "final_seed sd key =
     (let r = (\<lambda>n off. read_bytes n (drop off key));
          p4 = primes ! 4;
          s0 = read_8bytes_swapped key;
          n = length key
      in if n = 0 then sd
         else if n = 1 then mix0 (r 1 0) p4 sd
         else if n = 2 then mix0 (r 2 0) p4 sd
         else if n = 3 then mix0 (push_bit 8 (r 2 0) OR r 1 2) p4 sd
         else if n = 4 then mix0 (r 4 0) p4 sd
         else if n = 5 then mix0 (push_bit 8 (r 4 0) OR r 1 4) p4 sd
         else if n = 6 then mix0 (push_bit 16 (r 4 0) OR r 2 4) p4 sd
         else if n = 7 then mix0 (push_bit 24 (r 4 0) OR push_bit 8 (r 2 4) OR r 1 6) p4 sd
         else if n = 8 then mix0 s0 p4 sd
         else if n = 9 then mix0 s0 (r 1 8) sd
         else if n = 10 then mix0 s0 (r 2 8) sd
         else if n = 11 then mix0 s0 (push_bit 8 (r 2 8) OR r 1 10) sd
         else if n = 12 then mix0 s0 (r 4 8) sd
         else if n = 13 then mix0 s0 (push_bit 8 (r 4 8) OR r 1 12) sd
         else if n = 14 then mix0 s0 (push_bit 16 (r 4 8) OR r 2 12) sd
         else if n = 15 then mix0 s0 (push_bit 24 (r 4 8) OR push_bit 8 (r 2 12) OR r 1 14) sd
         else if n = 16 then mix0 s0 (read_8bytes_swapped (drop 8 key)) sd
         else final_long sd key)"

text \<open>
  \<^verbatim>\<open>final_\<close> on the last, incomplete block: the hash, and the state it leaves behind (it
  overwrites \<^verbatim>\<open>seed\<close> and \<^verbatim>\<open>msg_len\<close>).
\<close>

definition stateless_final :: "wyhash_stateless \<Rightarrow> bytes \<Rightarrow> u64 \<times> wyhash_stateless" where
  "stateless_final self b =
     (let s = self\<lparr>wy_seed := final_seed (wy_seed self) b, msg_len := msg_len self + length b\<rparr>
      in (mum (wy_seed s XOR of_nat (msg_len s)) (primes ! 4), s))"

definition stateless_hash :: "u64 \<Rightarrow> bytes \<Rightarrow> u64" where
  "stateless_hash sd input =
     (let aligned_len = length input - length input mod 32;
          c = stateless_update (stateless_init sd) (take aligned_len input)
      in fst (stateless_final c (drop aligned_len input)))"

section \<open>Hashing a message in pieces\<close>

record wyhash11 =
  wy_state :: wyhash_stateless
  wy_buf :: bytes
  wy_buf_len :: nat

definition wyhash11_init :: "u64 \<Rightarrow> wyhash11" where
  "wyhash11_init s = \<lparr>wy_state = stateless_init s, wy_buf = replicate 32 (CHR 0x00), wy_buf_len = 0\<rparr>"

text \<open>\<^verbatim>\<open>buf[pos..pos + src.len()].copy_from_slice(src)\<close>\<close>

definition copy_at :: "bytes \<Rightarrow> nat \<Rightarrow> bytes \<Rightarrow> bytes" where
  "copy_at dst pos src = take pos dst @ src @ drop (pos + length src) dst"

definition wyhash11_fill :: "wyhash11 \<Rightarrow> bytes \<Rightarrow> wyhash11 \<times> nat" where
  "wyhash11_fill self b =
     (if wy_buf_len self \<noteq> 0 \<and> 32 \<le> wy_buf_len self + length b then
        (let off = 32 - wy_buf_len self;
             bf = copy_at (wy_buf self) (wy_buf_len self) (take off b)
         in (self\<lparr>wy_buf := bf, wy_state := stateless_update (wy_state self) bf, wy_buf_len := 0\<rparr>, off))
      else (self, 0))"

definition wyhash11_update :: "wyhash11 \<Rightarrow> bytes \<Rightarrow> wyhash11" where
  "wyhash11_update self b =
     (case wyhash11_fill self b of (self, off) \<Rightarrow>
        (let remain_len = length b - off;
             aligned_len = remain_len - remain_len mod 32;
             self = self\<lparr>wy_state := stateless_update (wy_state self)
                                  (range_of b off (off + aligned_len))\<rparr>;
             tail = drop (off + aligned_len) b
         in self\<lparr>wy_buf := copy_at (wy_buf self) (wy_buf_len self) tail,
                 wy_buf_len := wy_buf_len self + length tail\<rparr>))"

text \<open>\<^verbatim>\<open>final_\<close> also overwrites the inner state.\<close>

definition wyhash11_final :: "wyhash11 \<Rightarrow> u64 \<times> wyhash11" where
  "wyhash11_final self =
     (case stateless_final (wy_state self) (take (wy_buf_len self) (wy_buf self)) of
        (h, s) \<Rightarrow> (h, self\<lparr>wy_state := s\<rparr>))"

text \<open>\<^verbatim>\<open>Hasher::finish\<close> works on a copy of the inner state.\<close>

definition hasher_finish :: "wyhash11 \<Rightarrow> u64" where
  "hasher_finish self = fst (stateless_final (wy_state self) (take (wy_buf_len self) (wy_buf self)))"

definition wyhash11_hash :: "u64 \<Rightarrow> bytes \<Rightarrow> u64" where
  "wyhash11_hash sd input = stateless_hash sd input"

section \<open>The contract of an incremental hash\<close>

text \<open>
  \<open>rep s m\<close> says that the state stands for the message \<open>m\<close> received so far. The client
  is the \<^verbatim>\<open>Hasher\<close> interface: any number of writes, then one read of the hash.
\<close>

locale streaming_hash =
  fixes init :: 's
    and update :: "'s \<Rightarrow> bytes \<Rightarrow> 's"
    and finish :: "'s \<Rightarrow> u64"
    and hash :: "bytes \<Rightarrow> u64"
    and rep :: "'s \<Rightarrow> bytes \<Rightarrow> bool"
  assumes rep_init: "rep init []"
    and rep_update: "rep s m \<Longrightarrow> rep (update s b) (m @ b)"
    and rep_finish: "rep s m \<Longrightarrow> finish s = hash m"
begin

lemma rep_foldl: "rep s m \<Longrightarrow> rep (foldl update s pieces) (m @ concat pieces)"
proof (induction pieces arbitrary: s m)
  case (Cons p ps)
  then show ?case using Cons.IH [OF rep_update [OF Cons.prems, of p]] by simp
qed simp

lemma finish_pieces: "finish (foldl update init pieces) = hash (concat pieces)"
  using rep_finish [OF rep_foldl [OF rep_init]] by simp

end

section \<open>The buffering hash keeps the contract\<close>

definition represents :: "u64 \<Rightarrow> wyhash11 \<Rightarrow> bytes \<Rightarrow> bool" where
  "represents sd s m \<longleftrightarrow>
     length (wy_buf s) = 32 \<and> wy_buf_len s = length m mod 32 \<and>
     take (wy_buf_len s) (wy_buf s) = drop (length m - length m mod 32) m \<and>
     wy_state s = stateless_update (stateless_init sd) (take (length m - length m mod 32) m)"

lemma rounds_Nil [simp]: "rounds s [] = s"
  by (simp add: rounds.simps)

lemma rounds_msg_len [simp]: "msg_len (rounds s b) = msg_len s"
proof (induction s b rule: rounds.induct)
  case (1 s b)
  then show ?case by (cases "b = []") (simp_all add: rounds.simps [of s b] round_block_def)
qed

lemma rounds_append: "32 dvd length x \<Longrightarrow> rounds (rounds s x) y = rounds s (x @ y)"
proof (induction s x rule: rounds.induct)
  case (1 s x)
  show ?case
  proof (cases "x = []")
    case True
    then show ?thesis by simp
  next
    case False
    then have "32 \<le> length x" using "1.prems" by (auto intro: dvd_imp_le)
    moreover from this have "32 dvd length (drop 32 x)" using "1.prems" by (simp add: dvd_diff_nat)
    ultimately show ?thesis
      using False "1.IH" by (simp add: rounds.simps [of s x] rounds.simps [of s "x @ y"])
  qed
qed

lemma round_block_msg_len: "round_block (s\<lparr>msg_len := n\<rparr>) b = (round_block s b)\<lparr>msg_len := n\<rparr>"
  by (simp add: round_block_def)

lemma rounds_set_len: "rounds (s\<lparr>msg_len := n\<rparr>) b = (rounds s b)\<lparr>msg_len := n\<rparr>"
proof (induction s b rule: rounds.induct)
  case (1 s b)
  then show ?case
    by (cases "b = []")
      (simp_all add: rounds.simps [of s b] rounds.simps [of "s\<lparr>msg_len := n\<rparr>" b] round_block_msg_len)
qed

lemma stateless_update_append:
  "32 dvd length x \<Longrightarrow>
   stateless_update (stateless_update s x) y = stateless_update s (x @ y)"
  by (simp add: stateless_update_def Let_def rounds_set_len rounds_append)

lemma length_copy_at: "pos + length src \<le> length dst \<Longrightarrow> length (copy_at dst pos src) = length dst"
  by (simp add: copy_at_def)

lemma take_copy_at:
  "pos + length src \<le> length dst \<Longrightarrow>
   take (pos + length src) (copy_at dst pos src) = take pos dst @ src"
  by (simp add: copy_at_def)

text \<open>The part of a message below the last multiple of 32, and the rest.\<close>

definition whole_blocks :: "bytes \<Rightarrow> bytes" where
  "whole_blocks m = take (length m - length m mod 32) m"

definition tail_block :: "bytes \<Rightarrow> bytes" where
  "tail_block m = drop (length m - length m mod 32) m"

lemma whole_rest [simp]: "whole_blocks m @ tail_block m = m"
  by (simp add: whole_blocks_def tail_block_def)

lemma whole_rest_append [simp]: "whole_blocks m @ tail_block m @ x = m @ x"
  by (metis append_assoc whole_rest)

lemma length_whole: "length (whole_blocks m) = length m - length m mod 32"
  and length_rest: "length (tail_block m) = length m mod 32"
  by (simp_all add: whole_blocks_def tail_block_def)

lemma whole_dvd [simp]: "32 dvd length (whole_blocks m)"
  by (simp add: length_whole minus_mod_eq_mult_div)

lemma whole_append_dvd: "32 dvd length x \<Longrightarrow> whole_blocks (x @ y) = x @ whole_blocks y"
  and rest_append_dvd: "32 dvd length x \<Longrightarrow> tail_block (x @ y) = tail_block y"
  by (auto simp: whole_blocks_def tail_block_def elim!: dvdE)

lemma whole_short: "length m < 32 \<Longrightarrow> whole_blocks m = []"
  and rest_short: "length m < 32 \<Longrightarrow> tail_block m = m"
  by (simp_all add: whole_blocks_def tail_block_def)

lemma represents_alt:
  "represents sd s m \<longleftrightarrow>
     length (wy_buf s) = 32 \<and> wy_buf_len s = length (tail_block m) \<and>
     take (length (tail_block m)) (wy_buf s) = tail_block m \<and>
     wy_state s = stateless_update (stateless_init sd) (whole_blocks m)"
  by (auto simp: represents_def whole_blocks_def tail_block_def)

text \<open>Writing to a state whose buffer is empty.\<close>

lemma update_unbuffered:
  assumes "represents sd s m" and "wy_buf_len s = 0"
  shows "represents sd
    (s\<lparr>wy_state := stateless_update (wy_state s) (whole_blocks b),
       wy_buf := copy_at (wy_buf s) (wy_buf_len s) (tail_block b),
       wy_buf_len := wy_buf_len s + length (tail_block b)\<rparr>) (m @ b)"
proof -
  from assms have r: "tail_block m = []" and st: "wy_state s = stateless_update (stateless_init sd) (whole_blocks m)"
    and len: "length (wy_buf s) = 32" by (auto simp: represents_alt)
  from r have m: "m = whole_blocks m" using whole_rest [of m] by simp
  have d: "32 dvd length m" by (subst m) simp
  have "length (tail_block b) < 32" by (simp add: length_rest)
  then show ?thesis using assms(2) len st d m
    by (simp add: represents_alt whole_append_dvd rest_append_dvd length_copy_at
        take_copy_at [where pos = 0, simplified] stateless_update_append)
qed

text \<open>Completing the buffered block.\<close>

lemma fill_represents:
  assumes "represents sd s m" and "wyhash11_fill s b = (t, off)"
  shows "represents sd t (m @ take off b) \<and> off \<le> length b \<and>
    (off = 0 \<and> wy_buf_len t + length b < 32 \<or> wy_buf_len t = 0)"
proof (cases "wy_buf_len s \<noteq> 0 \<and> 32 \<le> wy_buf_len s + length b")
  case False
  then have "t = s" "off = 0" using assms(2) by (auto simp: wyhash11_fill_def Let_def split: if_splits)
  with False assms(1) show ?thesis by auto
next
  case True
  let ?bf = "copy_at (wy_buf s) (wy_buf_len s) (take off b)"
  have off: "off = 32 - wy_buf_len s"
    and t: "t = s\<lparr>wy_buf := ?bf, wy_state := stateless_update (wy_state s) ?bf, wy_buf_len := 0\<rparr>"
    using assms(2) True by (auto simp: wyhash11_fill_def Let_def)
  note r = assms(1) [unfolded represents_alt]
  have lt: "wy_buf_len s < 32" using r by (simp add: length_rest)
  have len: "length (take off b) = off" using True off by auto
  then have bf: "?bf = tail_block m @ take off b"
    using take_copy_at [of "wy_buf_len s" "take off b" "wy_buf s"] r lt off
      length_copy_at [of "wy_buf_len s" "take off b" "wy_buf s"] by simp
  have l32: "length ?bf = 32" using r bf len off lt by simp
  have m: "m @ take off b = whole_blocks m @ ?bf" using whole_rest [of m] bf by simp
  have w: "whole_blocks (m @ take off b) = m @ take off b" "tail_block (m @ take off b) = []"
    using l32 whole_append_dvd [of "whole_blocks m" ?bf] rest_append_dvd [of "whole_blocks m" ?bf]
    by (simp_all add: m whole_blocks_def tail_block_def)
  have "represents sd t (m @ take off b)"
    using r l32 w m by (simp add: represents_alt t stateless_update_append)
  then show ?thesis using len by (simp add: t)
qed

lemma update_represents:
  assumes "represents sd s m"
  shows "represents sd (wyhash11_update s b) (m @ b)"
proof -
  obtain t off where f: "wyhash11_fill s b = (t, off)" by fastforce
  let ?b = "drop off b"
  note t = fill_represents [OF assms f]
  have al: "range_of b off (off + (length b - off - (length b - off) mod 32)) = whole_blocks ?b"
    "drop (off + (length b - off - (length b - off) mod 32)) b = tail_block ?b"
    by (simp_all add: range_of_def whole_blocks_def tail_block_def add.commute)
  have u: "wyhash11_update s b =
      t\<lparr>wy_state := stateless_update (wy_state t) (whole_blocks ?b),
        wy_buf := copy_at (wy_buf t) (wy_buf_len t) (tail_block ?b), wy_buf_len := wy_buf_len t + length (tail_block ?b)\<rparr>"
    unfolding wyhash11_update_def f Let_def prod.case al by simp
  show ?thesis
  proof (cases "wy_buf_len t = 0")
    case True
    then show ?thesis using update_unbuffered [of sd t "m @ take off b" ?b] t u by simp
  next
    case False
    with t have short: "off = 0" "wy_buf_len t + length b < 32" by auto
    from t have r: "represents sd t m" using short by simp
    then have rm: "wy_buf_len t = length (tail_block m)" "take (length (tail_block m)) (wy_buf t) = tail_block m"
      "length (wy_buf t) = 32" "wy_state t = stateless_update (stateless_init sd) (whole_blocks m)"
      by (simp_all add: represents_alt)
    have "m @ b = whole_blocks m @ (tail_block m @ b)" by simp
    then have w: "whole_blocks (m @ b) = whole_blocks m" "tail_block (m @ b) = tail_block m @ b"
      using whole_append_dvd [of "whole_blocks m" "tail_block m @ b"] rest_append_dvd [of "whole_blocks m" "tail_block m @ b"]
        short rm(1) by (simp_all add: whole_short rest_short)
    have "stateless_update (wy_state t) [] = wy_state t"
      by (simp add: stateless_update_def rounds.simps)
    with short rm w show ?thesis
      by (simp add: u represents_alt whole_short rest_short length_copy_at take_copy_at)
  qed
qed

interpretation wyhash11: streaming_hash "wyhash11_init sd" wyhash11_update hasher_finish
  "wyhash11_hash sd" "represents sd" for sd
proof unfold_locales
  show "represents sd (wyhash11_init sd) []"
    by (simp add: represents_alt whole_blocks_def tail_block_def wyhash11_init_def stateless_update_def rounds.simps
        stateless_init_def)
  show "represents sd (wyhash11_update s b) (m @ b)" if "represents sd s m" for s m b
    using that by (rule update_represents)
  show "hasher_finish s = wyhash11_hash sd m" if "represents sd s m" for s m
    using that
    by (simp add: represents_alt hasher_finish_def wyhash11_hash_def stateless_hash_def Let_def
        flip: whole_blocks_def tail_block_def)
qed

section \<open>Properties\<close>

text \<open>C36: a message written to a \<^verbatim>\<open>Wyhash11\<close> in any sequence of pieces has the hash of the whole
  message: the buffering of partial blocks neither loses nor reorders bytes, wherever the pieces
  are cut.\<close>

theorem wyhash11_pieces:
  "hasher_finish (foldl wyhash11_update (wyhash11_init sd) pieces) = wyhash11_hash sd (concat pieces)"
  by (rule wyhash11.finish_pieces)

end
