(* ===== verification/Semver_String.thy ===== *)
theory Semver_String
  imports Wyhash
begin

unbundle bit_operations_syntax

text \<open>
  \<^verbatim>\<open>src/semver/lib.rs\<close>: the eight-byte string handle of the lockfile. Up to eight bytes are
  stored inline; a longer string, or one of eight bytes whose last byte is not ASCII, is an offset
  and a length into an external buffer, marked by the top bit. The modules \<^verbatim>\<open>sliced_string\<close>,
  \<^verbatim>\<open>external_string\<close> and \<^verbatim>\<open>semver_string\<close> (\<^verbatim>\<open>String\<close>, \<^verbatim>\<open>Pointer\<close>, \<^verbatim>\<open>Buf\<close>, \<^verbatim>\<open>StringPool\<close>,
  \<^verbatim>\<open>Builder\<close>) are modelled. Native byte order is little-endian, that of every supported target.

  The lemmas show that reading a handle gives back what was stored, that the branch-free length of
  an inline string is the position of its first NUL, that a string appended to a pooled buffer
  reads back while every earlier handle keeps its meaning, and that a builder whose strings were
  all counted never runs past its allocation.
\<close>

section \<open>Handles\<close>

text \<open>A slice of a buffer: the buffer, and where the slice starts and ends in it.\<close>

record sliced_string =
  ss_buf :: bytes
  ss_off :: nat
  ss_len :: nat

definition ss_slice :: "sliced_string \<Rightarrow> bytes" where
  "ss_slice s = take (ss_len s) (drop (ss_off s) (ss_buf s))"

definition sliced_init :: "bytes \<Rightarrow> sliced_string" where
  "sliced_init b = \<lparr>ss_buf = b, ss_off = 0, ss_len = length b\<rparr>"

text \<open>\<^verbatim>\<open>self.sub(&slice[a..b])\<close>\<close>

definition sub_range :: "sliced_string \<Rightarrow> nat \<Rightarrow> nat \<Rightarrow> sliced_string" where
  "sub_range s a b = s\<lparr>ss_off := ss_off s + a, ss_len := b - a\<rparr>"

record semver_string =
  raw :: bytes

record external_string =
  ext_value :: semver_string
  ext_hash :: u64

record pointer =
  ptr_off :: u32
  ptr_len :: u32

definition max_inline_len :: nat where
  "max_inline_len = 8"

definition empty_string :: semver_string where
  "empty_string = \<lparr>raw = replicate 8 (CHR 0x00)\<rparr>"

text \<open>\<^verbatim>\<open>to_ne_bytes\<close> and \<^verbatim>\<open>from_ne_bytes\<close>, little-endian.\<close>

definition u64_to_bytes :: "u64 \<Rightarrow> bytes" where
  "u64_to_bytes w = map (\<lambda>i. char_of (unat (drop_bit (8 * i) w))) [0..<8]"

definition u32_to_bytes :: "u32 \<Rightarrow> bytes" where
  "u32_to_bytes w = map (\<lambda>i. char_of (unat (drop_bit (8 * i) w))) [0..<4]"

definition u32_from_bytes :: "bytes \<Rightarrow> u32" where
  "u32_from_bytes bs = ucast (le_bytes bs)"

definition pointer_init :: "nat \<Rightarrow> bytes \<Rightarrow> pointer" where
  "pointer_init off inp = \<lparr>ptr_off = of_nat off, ptr_len = of_nat (length inp)\<rparr>"

definition to_bits :: "pointer \<Rightarrow> u64" where
  "to_bits p = le_bytes (u32_to_bytes (ptr_off p) @ u32_to_bytes (ptr_len p))"

definition from_bits :: "u64 \<Rightarrow> pointer" where
  "from_bits bits =
     (let b = u64_to_bytes bits
      in \<lparr>ptr_off = u32_from_bytes (take 4 b), ptr_len = u32_from_bytes (drop 4 b)\<rparr>)"

definition max_addressable_space_mask :: u64 where
  "max_addressable_space_mask = push_bit 63 1 - 1"

definition pack_pointer :: "pointer \<Rightarrow> semver_string" where
  "pack_pointer p =
     \<lparr>raw = u64_to_bytes ((to_bits p AND max_addressable_space_mask) OR push_bit 63 1)\<rparr>"

definition can_inline :: "bytes \<Rightarrow> bool" where
  "can_inline b \<longleftrightarrow>
     (if length b < max_inline_len then True
      else if length b = max_inline_len then
        (of_char (b ! (max_inline_len - 1)) :: 8 word) AND 0x80 = 0
      else False)"

definition is_inline :: "semver_string \<Rightarrow> bool" where
  "is_inline s \<longleftrightarrow> (of_char (raw s ! (max_inline_len - 1)) :: 8 word) AND 0x80 = 0"

definition pad8 :: "bytes \<Rightarrow> bytes" where
  "pad8 inp = inp @ replicate (8 - length inp) (CHR 0x00)"

text \<open>\<^verbatim>\<open>String::init(buf, inp)\<close> where \<^verbatim>\<open>in_\<close> starts at \<open>off\<close> in \<^verbatim>\<open>buf\<close>.\<close>

definition string_init :: "nat \<Rightarrow> bytes \<Rightarrow> semver_string" where
  "string_init off inp =
     (if length inp = 0 then empty_string
      else if length inp < 8 then \<lparr>raw = pad8 inp\<rparr>
      else if length inp = max_inline_len then
        (if 128 \<le> (of_char (inp ! (max_inline_len - 1)) :: nat)
         then pack_pointer (pointer_init off inp)
         else \<lparr>raw = inp\<rparr>)
      else pack_pointer (pointer_init off inp))"

definition init_inline :: "bytes \<Rightarrow> semver_string" where
  "init_inline inp = (if length inp = 0 then empty_string else \<lparr>raw = pad8 inp\<rparr>)"

definition init_append :: "bytes \<Rightarrow> bytes \<Rightarrow> semver_string \<times> bytes" where
  "init_append buf inp =
     (let items = buf @ inp
      in (pack_pointer (pointer_init (length items - length inp) inp), items))"

definition init_append_if_needed :: "bytes \<Rightarrow> bytes \<Rightarrow> semver_string \<times> bytes" where
  "init_append_if_needed buf inp =
     (if length inp = 0 then (empty_string, buf)
      else if length inp < 8 then (\<lparr>raw = pad8 inp\<rparr>, buf)
      else if length inp = max_inline_len then
        (if 128 \<le> (of_char (inp ! (max_inline_len - 1)) :: nat) then init_append buf inp
         else (\<lparr>raw = inp\<rparr>, buf))
      else init_append buf inp)"

definition string_ptr :: "semver_string \<Rightarrow> pointer" where
  "string_ptr s = from_bits (le_bytes (raw s) AND max_addressable_space_mask)"

definition string_is_empty :: "semver_string \<Rightarrow> bool" where
  "string_is_empty s \<longleftrightarrow> le_bytes (raw s) = 0"

definition trailing_zeros :: "u64 \<Rightarrow> nat" where
  "trailing_zeros w = length (takeWhile (\<lambda>n. \<not> bit w n) [0..<64])"

definition inline_len :: "semver_string \<Rightarrow> nat" where
  "inline_len s =
     (let bits = le_bytes (raw s);
          zero_bytes = (bits - 0x0101010101010101) AND NOT bits AND 0x8080808080808080
      in trailing_zeros zero_bytes div 8)"

definition string_len :: "semver_string \<Rightarrow> nat" where
  "string_len s = (if is_inline s then inline_len s else unat (ptr_len (string_ptr s)))"

text \<open>\<^verbatim>\<open>buf.get(off..off + len)\<close>\<close>

definition get_range :: "bytes \<Rightarrow> nat \<Rightarrow> nat \<Rightarrow> bytes option" where
  "get_range b off len = (if off + len \<le> length b then Some (take len (drop off b)) else None)"

definition string_slice :: "semver_string \<Rightarrow> bytes \<Rightarrow> bytes" where
  "string_slice s b =
     (if is_inline s then take (inline_len s) (raw s)
      else (let p = string_ptr s
            in case get_range b (unat (ptr_off p)) (unat (ptr_len p)) of
                 Some r \<Rightarrow> r | None \<Rightarrow> []))"

definition is_within :: "semver_string \<Rightarrow> bytes \<Rightarrow> bool" where
  "is_within s b \<longleftrightarrow>
     (let p = string_ptr s
      in is_inline s \<or> unat (ptr_off p) + unat (ptr_len p) \<le> length b)"

definition string_eql :: "semver_string \<Rightarrow> semver_string \<Rightarrow> bytes \<Rightarrow> bytes \<Rightarrow> bool" where
  "string_eql self that this_buf that_buf =
     (if is_inline self \<and> is_inline that then le_bytes (raw self) = le_bytes (raw that)
      else if is_inline self \<noteq> is_inline that then False
      else (let a = string_ptr self; b = string_ptr that
            in case (get_range this_buf (unat (ptr_off a)) (unat (ptr_len a)),
                     get_range that_buf (unat (ptr_off b)) (unat (ptr_len b))) of
                 (Some x, Some y) \<Rightarrow> x = y
               | _ \<Rightarrow> False))"

definition string_order :: "semver_string \<Rightarrow> semver_string \<Rightarrow> bytes \<Rightarrow> bytes \<Rightarrow> ordering" where
  "string_order self rhs lhs_buf rhs_buf =
     order_bytes (string_slice self lhs_buf) (string_slice rhs rhs_buf)"

text \<open>\<^verbatim>\<open>ExternalString::init\<close> as \<^verbatim>\<open>SlicedString::external\<close> calls it.\<close>

definition external_init :: "nat \<Rightarrow> bytes \<Rightarrow> u64 \<Rightarrow> external_string" where
  "external_init off inp hash = \<lparr>ext_value = string_init off inp, ext_hash = hash\<rparr>"

definition external :: "sliced_string \<Rightarrow> external_string" where
  "external s = external_init (ss_off s) (ss_slice s) (wyhash11_hash 0 (ss_slice s))"

definition sliced_value :: "sliced_string \<Rightarrow> semver_string" where
  "sliced_value s = string_init (ss_off s) (ss_slice s)"

definition default_external :: external_string where
  "default_external = \<lparr>ext_value = empty_string, ext_hash = 0\<rparr>"

section \<open>Pooled buffers\<close>

text \<open>\<^verbatim>\<open>StringPool\<close> is a hash map from 64-bit hashes to handles.\<close>

type_synonym string_pool = "u64 \<rightharpoonup> semver_string"

record string_buf =
  sb_bytes :: bytes
  sb_pool :: string_pool

definition string_hash :: "bytes \<Rightarrow> u64" where
  "string_hash b = wyhash11_hash 0 b"

definition append_with_hash :: "string_buf \<Rightarrow> bytes \<Rightarrow> u64 \<Rightarrow> semver_string \<times> string_buf" where
  "append_with_hash self str hash =
     (if can_inline str then (init_inline str, self)
      else case sb_pool self hash of
        Some v \<Rightarrow>
          (if string_slice v (sb_bytes self) = str then (v, self)
           else (case init_append (sb_bytes self) str of
                   (new, b) \<Rightarrow> (new, self\<lparr>sb_bytes := b\<rparr>)))
      | None \<Rightarrow>
          (case init_append (sb_bytes self) str of
             (new, b) \<Rightarrow> (new, self\<lparr>sb_bytes := b, sb_pool := (sb_pool self)(hash \<mapsto> new)\<rparr>)))"

definition buf_append :: "string_buf \<Rightarrow> bytes \<Rightarrow> semver_string \<times> string_buf" where
  "buf_append self str =
     (if can_inline str then (init_inline str, self)
      else append_with_hash self str (string_hash str))"

definition append_external_with_hash ::
  "string_buf \<Rightarrow> bytes \<Rightarrow> u64 \<Rightarrow> external_string \<times> string_buf" where
  "append_external_with_hash self str hash =
     (case append_with_hash self str hash of
        (v, b) \<Rightarrow> (\<lparr>ext_value = v, ext_hash = hash\<rparr>, b))"

definition append_external :: "string_buf \<Rightarrow> bytes \<Rightarrow> external_string \<times> string_buf" where
  "append_external self str = append_external_with_hash self str (string_hash str)"

section \<open>Two-pass builder\<close>

record builder =
  b_len :: nat
  b_cap :: nat
  b_ptr :: "bytes option"
  b_pool :: string_pool

definition builder_default :: builder where
  "builder_default = \<lparr>b_len = 0, b_cap = 0, b_ptr = None, b_pool = Map.empty\<rparr>"

definition count_with_hash :: "builder \<Rightarrow> bytes \<Rightarrow> u64 \<Rightarrow> builder" where
  "count_with_hash self s hash =
     (if can_inline s then self
      else if b_pool self hash = None then self\<lparr>b_cap := b_cap self + length s\<rparr>
      else self)"

definition builder_count :: "builder \<Rightarrow> bytes \<Rightarrow> builder" where
  "builder_count self s =
     count_with_hash self s (if can_inline s then u64_max else string_hash s)"

definition allocate :: "builder \<Rightarrow> builder" where
  "allocate self = self\<lparr>b_ptr := Some (replicate (b_cap self) (CHR 0x00))\<rparr>"

text \<open>\<^verbatim>\<open>None\<close> is a panic: \<^verbatim>\<open>expect("allocate() not called")\<close>, or a range past the end.\<close>

definition allocated_slice :: "builder \<Rightarrow> bytes option" where
  "allocated_slice self =
     (if 0 < b_cap self then
        (case b_ptr self of None \<Rightarrow> None | Some p \<Rightarrow> get_range p 0 (b_cap self))
      else Some [])"

text \<open>\<^verbatim>\<open>T::from_init(self.allocated_slice(), slice, hash)\<close> of an inline string.\<close>

definition append_inline :: "builder \<Rightarrow> bytes \<Rightarrow> (semver_string \<times> builder) option" where
  "append_inline self s = map_option (\<lambda>_. (string_init 0 s, self)) (allocated_slice self)"

text \<open>
  Copying a string to the end of what is filled. \<^verbatim>\<open>None\<close> is a panic: no allocation, a start past
  the capacity, or a string longer than what is left of it.
\<close>

definition append_without_pool :: "builder \<Rightarrow> bytes \<Rightarrow> (semver_string \<times> builder) option" where
  "append_without_pool self s =
     (if can_inline s then append_inline self s
      else case b_ptr self of
        None \<Rightarrow> None
      | Some p \<Rightarrow>
          if b_cap self \<le> length p \<and> b_len self + length s \<le> b_cap self then
            Some (string_init (b_len self) s,
                  self\<lparr>b_ptr := Some (copy_at p (b_len self) s), b_len := b_len self + length s\<rparr>)
          else None)"

definition builder_append_with_hash ::
  "builder \<Rightarrow> bytes \<Rightarrow> u64 \<Rightarrow> (semver_string \<times> builder) option" where
  "builder_append_with_hash self s hash =
     (if can_inline s then append_inline self s
      else case b_pool self hash of
        Some v \<Rightarrow>
          (case b_ptr self of
             None \<Rightarrow> None
           | Some p \<Rightarrow>
               if \<not> b_cap self \<le> length p then None
               else if string_slice v (take (b_cap self) p) \<noteq> s then append_without_pool self s
               else Some (v, self))
      | None \<Rightarrow>
          (case append_without_pool self s of
             None \<Rightarrow> None
           | Some (v, b) \<Rightarrow> Some (v, b\<lparr>b_pool := (b_pool b)(hash \<mapsto> v)\<rparr>)))"

definition builder_append :: "builder \<Rightarrow> bytes \<Rightarrow> (semver_string \<times> builder) option" where
  "builder_append self s = builder_append_with_hash self s (string_hash s)"

section \<open>Bits of a byte string\<close>

lemma bit_of_char_nat: "bit (of_char c :: nat) n \<Longrightarrow> n < 8"
proof -
  assume "bit (of_char c :: nat) n"
  then have "bit (take_bit 8 (of_char c :: nat)) n" by (simp add: take_bit_eq_mod)
  then show ?thesis by (simp add: bit_take_bit_iff)
qed

lemma bit_of_char_word: "bit (of_char c :: u64) n \<longleftrightarrow> n < 8 \<and> bit (of_char c :: nat) n"
  using bit_of_char_nat [of c n] by (auto simp: bit_of_nat_iff simp flip: of_nat_of_char [where 'a = u64])

lemma bit_le_bytes: "n < 64 \<Longrightarrow>
  bit (le_bytes bs) n \<longleftrightarrow> n div 8 < length bs \<and> bit (of_char (bs ! (n div 8)) :: nat) (n mod 8)"
proof (induction bs arbitrary: n)
  case (Cons b bs)
  show ?case
  proof (cases "n < 8")
    case True
    then show ?thesis by (simp add: bit_or_iff bit_push_bit_iff bit_of_char_word)
  next
    case False
    then have "n div 8 = Suc ((n - 8) div 8)" "n mod 8 = (n - 8) mod 8"
      by (simp_all add: le_div_geq le_mod_geq)
    then show ?thesis using False Cons.IH [of "n - 8"] Cons.prems
      by (auto simp: bit_or_iff bit_push_bit_iff bit_of_char_word)
  qed
qed simp

lemma length_u64_to_bytes [simp]: "length (u64_to_bytes w) = 8"
  and length_u32_to_bytes [simp]: "length (u32_to_bytes v) = 4"
  by (simp_all add: u64_to_bytes_def u32_to_bytes_def)

lemma of_char_char_of_bit: "bit (of_char (char_of n) :: nat) k \<longleftrightarrow> k < 8 \<and> bit (n :: nat) k"
proof -
  have "of_char (char_of n) = take_bit 8 n" by (simp add: take_bit_eq_mod)
  then show ?thesis by (simp only: bit_take_bit_iff)
qed

lemma bit_u64_to_bytes: "i < 8 \<Longrightarrow> bit (of_char (u64_to_bytes w ! i) :: nat) k \<longleftrightarrow> k < 8 \<and> bit w (8 * i + k)"
  by (auto simp: u64_to_bytes_def of_char_char_of_bit bit_unsigned_iff bit_drop_bit_eq
      simp del: of_char_of dest: bit_imp_le_length)

lemma bit_u32_to_bytes: "i < 4 \<Longrightarrow> bit (of_char (u32_to_bytes w ! i) :: nat) k \<longleftrightarrow> k < 8 \<and> bit w (8 * i + k)"
  by (auto simp: u32_to_bytes_def of_char_char_of_bit bit_unsigned_iff bit_drop_bit_eq
      simp del: of_char_of dest: bit_imp_le_length)

lemma le_bytes_u64_to_bytes [simp]: "le_bytes (u64_to_bytes w) = w"
  by (rule bit_word_eqI) (auto simp: bit_le_bytes bit_u64_to_bytes)

lemma u64_to_bytes_le_bytes:
  assumes "length bs = 8"
  shows "u64_to_bytes (le_bytes bs) = bs"
proof (rule nth_equalityI)
  fix i assume "i < length (u64_to_bytes (le_bytes bs))"
  then have i: "i < 8" by simp
  have "(of_char (u64_to_bytes (le_bytes bs) ! i) :: nat) = of_char (bs ! i)"
  proof (rule bit_eqI)
    fix k
    have "k < 8 \<Longrightarrow> (8 * i + k) div 8 = i \<and> (8 * i + k) mod 8 = k \<and> 8 * i + k < 64" using i by auto
    then show "bit (of_char (u64_to_bytes (le_bytes bs) ! i) :: nat) k = bit (of_char (bs ! i) :: nat) k"
      using assms i bit_of_char_nat [of "bs ! i" k]
      by (auto simp: bit_u64_to_bytes bit_le_bytes)
  qed
  then show "u64_to_bytes (le_bytes bs) ! i = bs ! i" by simp
qed (use assms in simp)

lemma bit_to_bits:
  assumes "n < 64"
  shows "bit (to_bits p) n \<longleftrightarrow> (if n < 32 then bit (ptr_off p) n else bit (ptr_len p) (n - 32))"
proof -
  have d: "n div 8 < 8" "n mod 8 < 8" "8 * (n div 8) + n mod 8 = n" using assms by auto
  show ?thesis
  proof (cases "n < 32")
    case True
    then have "n div 8 < 4" by (simp add: div_less_iff_less_mult)
    then show ?thesis using True assms bit_u32_to_bytes [of "n div 8" "ptr_off p" "n mod 8"]
      by (auto simp: to_bits_def bit_le_bytes nth_append)
  next
    case False
    then have "\<not> n div 8 < 4" "n div 8 - 4 < 4" "8 * (n div 8 - 4) + n mod 8 = n - 32" using assms d by linarith+
    then show ?thesis
      using False assms d bit_u32_to_bytes [of "n div 8 - 4" "ptr_len p" "n mod 8"]
      by (auto simp: to_bits_def bit_le_bytes nth_append)
  qed
qed

lemma nth_take_u64: "i < 4 \<Longrightarrow> take 4 (u64_to_bytes w) ! i = u64_to_bytes w ! i"
  and nth_drop_u64: "i < 4 \<Longrightarrow> drop 4 (u64_to_bytes w) ! i = u64_to_bytes w ! (i + 4)"
  by (simp_all add: add.commute)

lemma bit_from_bits:
  "bit (ptr_off (from_bits w)) n \<longleftrightarrow> n < 32 \<and> bit w n"
  "bit (ptr_len (from_bits w)) n \<longleftrightarrow> n < 32 \<and> bit w (n + 32)"
proof -
  have d: "n div 8 < 4" "8 * (n div 8) + n mod 8 = n" if "n < 32"
    using that by (simp_all add: div_less_iff_less_mult)
  have e: "8 * (n div 8 + 4) + n mod 8 = n + 32" by simp
  have o: "bit (u32_from_bytes bs) n \<longleftrightarrow> n < 32 \<and> bit (le_bytes bs) n" for bs
    by (auto simp: u32_from_bytes_def bit_unsigned_iff dest: bit_imp_le_length)
  show "bit (ptr_off (from_bits w)) n \<longleftrightarrow> n < 32 \<and> bit w n"
  proof (cases "n < 32")
    case True
    then show ?thesis using d by (simp add: from_bits_def Let_def o bit_le_bytes nth_take_u64 bit_u64_to_bytes)
  qed (simp add: from_bits_def Let_def o)
  show "bit (ptr_len (from_bits w)) n \<longleftrightarrow> n < 32 \<and> bit w (n + 32)"
  proof (cases "n < 32")
    case True
    then show ?thesis using d e bit_u64_to_bytes [of "n div 8 + 4" w "n mod 8"]
      by (simp add: from_bits_def Let_def o bit_le_bytes nth_drop_u64 del: nth_drop)
  qed (simp add: from_bits_def Let_def o)
qed

lemma bit_mask63: "bit max_addressable_space_mask n \<longleftrightarrow> n < 63"
proof -
  have m: "max_addressable_space_mask = mask 63"
    by (simp add: max_addressable_space_mask_def mask_eq_exp_minus_1)
  show ?thesis unfolding m by (auto simp: bit_simps)
qed
subsection \<open>The handle of a pointer\<close>

lemma top_byte_bit:
  assumes "length (raw s) = 8"
  shows "is_inline s \<longleftrightarrow> \<not> bit (le_bytes (raw s)) 63"
proof -
  have "(of_char c :: 8 word) AND 0x80 = 0 \<longleftrightarrow> \<not> bit (of_char c :: nat) 7" for c
  proof -
    have "(of_char c :: 8 word) AND 0x80 = of_char c AND push_bit 7 1" by simp
    also have "\<dots> = 0 \<longleftrightarrow> \<not> bit (of_char c :: 8 word) 7"
      by (simp only: and_exp_eq_0_iff_not_bit push_bit_of_1)
    finally show ?thesis by (simp add: bit_of_nat_iff flip: of_nat_of_char [where 'a = "8 word"])
  qed
  then show ?thesis using assms by (simp add: is_inline_def max_inline_len_def bit_le_bytes)
qed

lemma bit_top_flag: "bit (push_bit 63 (1 :: u64)) n \<longleftrightarrow> n = 63"
  by (simp only: bit_push_bit_iff bit_1_iff) (auto simp: bit_simps)

lemma pack_pointer_ptr:
  assumes "unat (ptr_len p) < 2 ^ 31"
  shows "\<not> is_inline (pack_pointer p)" and "string_ptr (pack_pointer p) = p"
proof -
  show "\<not> is_inline (pack_pointer p)"
    by (simp add: top_byte_bit pack_pointer_def bit_or_iff bit_top_flag del: push_bit_of_1)
  have b31: "\<not> bit (ptr_len p) 31"
  proof
    assume "bit (ptr_len p) 31"
    then have "bit (unat (ptr_len p)) 31" by (simp add: bit_unsigned_iff)
    with assms show False by (simp add: bit_iff_odd)
  qed
  have m: "bit (le_bytes (raw (pack_pointer p)) AND max_addressable_space_mask) n \<longleftrightarrow>
      n < 63 \<and> bit (to_bits p) n" for n
    by (auto simp only: pack_pointer_def semver_string.simps le_bytes_u64_to_bytes bit_or_iff
        bit_and_iff bit_mask63 bit_top_flag)
  have "ptr_off (string_ptr (pack_pointer p)) = ptr_off p"
    by (rule bit_word_eqI) (simp add: string_ptr_def bit_from_bits m bit_to_bits)
  moreover have "ptr_len (string_ptr (pack_pointer p)) = ptr_len p"
    by (rule bit_word_eqI, case_tac "n = 31")
      (simp_all add: string_ptr_def bit_from_bits m bit_to_bits b31)
  ultimately show "string_ptr (pack_pointer p) = p" by simp
qed

lemma slice_pack_pointer:
  assumes "off + length inp \<le> length b" "length inp < 2 ^ 31" "off < 2 ^ 32"
    and "take (length inp) (drop off b) = inp"
  shows "string_slice (pack_pointer (pointer_init off inp)) b = inp"
proof -
  have "unat (of_nat (length inp) :: u32) = length inp" "unat (of_nat off :: u32) = off"
    using assms(2,3) by (simp_all add: unat_of_nat)
  with assms show ?thesis
    by (simp add: string_slice_def pack_pointer_ptr pointer_init_def Let_def get_range_def)
qed

section \<open>The length of an inline string\<close>

fun le_int :: "bytes \<Rightarrow> int" where
  "le_int [] = 0"
| "le_int (b # bs) = of_char b + 256 * le_int bs"

fun ones :: "nat \<Rightarrow> int" where
  "ones 0 = 0"
| "ones (Suc k) = 1 + 256 * ones k"

definition zero_marks :: "bytes \<Rightarrow> int" where
  "zero_marks bs = (le_int bs - ones (length bs)) AND NOT (le_int bs) AND (128 * ones (length bs))"

lemma byte_bit_less: "0 \<le> (a::int) \<Longrightarrow> a < 256 \<Longrightarrow> bit a n \<Longrightarrow> n < 8"
proof -
  assume a: "0 \<le> a" "a < 256" "bit a n"
  then have "take_bit 8 a = a" by (simp add: take_bit_int_eq_self)
  with a(3) show ?thesis by (metis bit_take_bit_iff)
qed

lemma bit_low_high:
  assumes "0 \<le> (a::int)" "a < 256"
  shows "bit (a + 256 * A) n \<longleftrightarrow> (if n < 8 then bit a n else bit A (n - 8))"
proof -
  have "a AND push_bit 8 A = 0"
    by (rule bit_eqI) (auto simp: bit_simps dest: byte_bit_less [OF assms])
  then have "a + 256 * A = a OR push_bit 8 A"
    by (simp add: push_bit_eq_mult disjunctive_add_eq_or mult.commute)
  then show ?thesis using byte_bit_less [OF assms, of n] by (auto simp: bit_simps)
qed

lemma byte_of_char: "0 \<le> (of_char c :: int)" "of_char c < (256::int)"
proof -
  have "(of_char c :: int) = int (of_char c)" by (simp add: of_nat_of_char)
  then show "0 \<le> (of_char c :: int)" "of_char c < (256::int)"
    using nat_of_char_less_256 [of c] by linarith+
qed

lemma bit_128: "bit (128::int) n \<longleftrightarrow> n = 7"
proof -
  have "bit (2 ^ 7 :: int) n \<longleftrightarrow> n = 7" by (simp only: bit_exp_iff) simp
  then show ?thesis by simp
qed

lemma bit_7: "0 \<le> a \<Longrightarrow> a < 256 \<Longrightarrow> bit (a::int) 7 \<longleftrightarrow> 128 \<le> a"
  by (auto simp: bit_iff_odd) presburger+

lemma bit_7_nat: "a < 256 \<Longrightarrow> bit (a::nat) 7 \<longleftrightarrow> 128 \<le> a"
  using bit_7 [of "int a"] by (simp add: bit_of_nat_iff)

lemma zero_marks_Cons_nonzero:
  assumes "b \<noteq> CHR 0x00"
  shows "bit (zero_marks (b # bs)) n \<longleftrightarrow> 8 \<le> n \<and> bit (zero_marks bs) (n - 8)"
proof -
  let ?b = "of_char b :: int" and ?k = "length bs"
  have "?b \<noteq> of_char (CHR 0x00)" using assms by (simp only: of_char_eq_iff not_False_eq_True)
  then have b: "1 \<le> ?b" "?b < 256" using byte_of_char [of b] by auto
  have 1: "le_int (b # bs) - ones (Suc ?k) = (?b - 1) + 256 * (le_int bs - ones ?k)"
    by (simp add: algebra_simps)
  have 2: "128 * ones (Suc ?k) = 128 + 256 * (128 * ones ?k)" by simp
  have 3: "\<not> (bit (?b - 1) 7 \<and> \<not> bit ?b 7)" using b by (simp add: bit_7)
  have "bit (zero_marks (b # bs)) n \<longleftrightarrow>
      bit ((?b - 1) + 256 * (le_int bs - ones ?k)) n \<and> \<not> bit (?b + 256 * le_int bs) n \<and>
      bit (128 + 256 * (128 * ones ?k)) n"
    unfolding zero_marks_def bit_and_iff bit_not_iff length_Cons 1 2 by simp
  also have "\<dots> \<longleftrightarrow> 8 \<le> n \<and> bit (zero_marks bs) (n - 8)"
    using 3 b by (subst (1 2 3) bit_low_high) (auto simp: zero_marks_def bit_and_iff bit_not_iff bit_128)
  finally show ?thesis .
qed

lemma zero_marks_Cons_zero:
  assumes "n < 8"
  shows "bit (zero_marks (CHR 0x00 # bs)) n \<longleftrightarrow> n = 7"
proof -
  let ?k = "length bs"
  have 1: "le_int (CHR 0x00 # bs) - ones (Suc ?k) = 255 + 256 * (le_int bs - ones ?k - 1)"
    by (simp add: algebra_simps)
  have 2: "128 * ones (Suc ?k) = 128 + 256 * (128 * ones ?k)" by simp
  have 3: "le_int (CHR 0x00 # bs) = 0 + 256 * le_int bs" by simp
  have "bit (255::int) 7" by (simp add: bit_7)
  then have "bit (255 + 256 * (le_int bs - ones ?k - 1)) n \<and> \<not> bit (0 + 256 * le_int bs) n \<and>
      bit (128 + 256 * (128 * ones ?k)) n \<longleftrightarrow> n = 7"
    using assms by (subst (1 2 3) bit_low_high) (auto simp: bit_128)
  then show ?thesis
    unfolding zero_marks_def bit_and_iff bit_not_iff length_Cons 1 2 by (simp only: 3 possible_bit_int simp_thms)
qed

lemma zero_marks_first:
  fixes bs :: bytes
  defines "p \<equiv> length (takeWhile (\<lambda>b. b \<noteq> CHR 0x00) bs)"
  shows "(\<forall>n < 8 * p + 7. \<not> bit (zero_marks bs) n) \<and> (p < length bs \<longrightarrow> bit (zero_marks bs) (8 * p + 7))"
  unfolding p_def
proof (induction bs)
  case Nil
  then show ?case by (simp add: zero_marks_def)
next
  case (Cons b bs)
  show ?case
  proof (cases "b = CHR 0x00")
    case True
    then show ?thesis by (simp add: zero_marks_Cons_zero)
  next
    case False
    then show ?thesis using Cons.IH by (auto simp: zero_marks_Cons_nonzero add.commute)
  qed
qed

lemma le_bytes_int: "le_bytes bs = of_int (le_int bs)"
proof (induction bs)
  case (Cons b bs)
  have "(of_char b :: u64) AND push_bit 8 (le_bytes bs) = 0"
    by (rule bit_word_eqI) (auto simp: bit_simps bit_of_char_word)
  then have "le_bytes (b # bs) = of_char b + push_bit 8 (le_bytes bs)"
    by (simp add: disjunctive_add_eq_or)
  then show ?case using Cons.IH by (simp add: push_bit_eq_mult mult.commute of_int_of_char)
qed simp

lemma zero_bytes_marks:
  assumes "length bs = 8"
  shows "(le_bytes bs - 0x0101010101010101) AND NOT (le_bytes bs) AND 0x8080808080808080 =
    (of_int (zero_marks bs) :: u64)"
proof -
  have o: "ones 8 = 0x0101010101010101" by (simp add: eval_nat_numeral)
  have "of_int (128 * ones 8) = (0x8080808080808080 :: u64)" by (simp add: o)
  then show ?thesis
    by (simp add: zero_marks_def assms le_bytes_int o of_int_and_eq of_int_not_eq)
qed

lemma trailing_zeros_first:
  assumes "m < 64" "bit w m" "\<forall>n<m. \<not> bit w n"
  shows "trailing_zeros w = m"
proof -
  have "takeWhile (\<lambda>n. \<not> bit w n) [0..<64] = takeWhile (\<lambda>n. \<not> bit w n) ([0..<m] @ [m..<64])"
    using assms(1) upt_add_eq_append [of 0 m "64 - m"] by simp
  also have "\<dots> = [0..<m] @ takeWhile (\<lambda>n. \<not> bit w n) [m..<64]"
    using assms(3) by (intro takeWhile_append2) auto
  also have "takeWhile (\<lambda>n. \<not> bit w n) [m..<64] = []" using assms(1,2) by (simp add: upt_conv_Cons)
  finally show ?thesis by (simp add: trailing_zeros_def)
qed

lemma trailing_zeros_none: "\<forall>n<64. \<not> bit w n \<Longrightarrow> trailing_zeros w = 64"
  by (simp add: trailing_zeros_def takeWhile_eq_all_conv [THEN iffD2])

lemma inline_len_nul:
  assumes "length (raw s) = 8"
  shows "inline_len s = length (takeWhile (\<lambda>b. b \<noteq> CHR 0x00) (raw s))"
proof -
  let ?p = "length (takeWhile (\<lambda>b. b \<noteq> CHR 0x00) (raw s))"
  let ?w = "of_int (zero_marks (raw s)) :: u64"
  note z = zero_marks_first [of "raw s"]
  have le: "?p \<le> 8" using length_takeWhile_le [of "\<lambda>b. b \<noteq> CHR 0x00" "raw s"] assms by simp
  have bit: "bit ?w n \<longleftrightarrow> bit (zero_marks (raw s)) n" if "n < 64" for n
    using that by (simp add: bit_of_int_iff)
  have "trailing_zeros ?w div 8 = ?p"
  proof (cases "?p < 8")
    case True
    then have "trailing_zeros ?w = 8 * ?p + 7"
      using z assms by (intro trailing_zeros_first) (auto simp: bit)
    then show ?thesis by simp
  next
    case False
    then have "trailing_zeros ?w = 64"
      using z le by (intro trailing_zeros_none) (auto simp: bit)
    then show ?thesis using False le by simp
  qed
  then show ?thesis using assms by (simp add: inline_len_def Let_def zero_bytes_marks)
qed
section \<open>Reading a handle gives back what was stored\<close>

lemma takeWhile_pad: "takeWhile (\<lambda>b. b \<noteq> CHR 0x00) (inp @ replicate k (CHR 0x00)) =
    takeWhile (\<lambda>b. b \<noteq> CHR 0x00) inp"
  by (induction inp) (cases k; simp)+

lemma bit7_char: "(of_char c :: 8 word) AND 0x80 = 0 \<longleftrightarrow> (of_char c :: nat) < 128"
proof -
  have "(of_char c :: 8 word) AND 0x80 = of_char c AND push_bit 7 1" by simp
  also have "\<dots> = 0 \<longleftrightarrow> \<not> bit (of_char c :: 8 word) 7"
    by (simp only: and_exp_eq_0_iff_not_bit push_bit_of_1)
  also have "\<dots> \<longleftrightarrow> \<not> bit (of_char c :: nat) 7"
    by (simp add: bit_of_nat_iff flip: of_nat_of_char [where 'a = "8 word"])
  also have "\<dots> \<longleftrightarrow> (of_char c :: nat) < 128"
    using bit_7_nat [of "of_char c"] by auto
  finally show ?thesis .
qed

lemma inline_raw_slice:
  assumes "length inp \<le> 8" "can_inline inp"
  shows "is_inline \<lparr>raw = pad8 inp\<rparr>"
    and "string_slice \<lparr>raw = pad8 inp\<rparr> b = takeWhile (\<lambda>b. b \<noteq> CHR 0x00) inp"
proof -
  have len: "length (pad8 inp) = 8" using assms(1) by (simp add: pad8_def)
  show i: "is_inline \<lparr>raw = pad8 inp\<rparr>"
    using assms by (cases "length inp = 8")
      (simp_all add: is_inline_def can_inline_def max_inline_len_def pad8_def nth_append)
  have "take (length (takeWhile (\<lambda>b. b \<noteq> CHR 0x00) inp)) (pad8 inp) = takeWhile (\<lambda>b. b \<noteq> CHR 0x00) inp"
    using takeWhile_eq_take [of "\<lambda>b. b \<noteq> CHR 0x00" inp] length_takeWhile_le [of "\<lambda>b. b \<noteq> CHR 0x00" inp]
    by (simp add: pad8_def)
  then show "string_slice \<lparr>raw = pad8 inp\<rparr> b = takeWhile (\<lambda>b. b \<noteq> CHR 0x00) inp"
    using i len by (simp add: string_slice_def inline_len_nul) (simp add: pad8_def takeWhile_pad)
qed

lemma string_init_cases:
  "string_init off inp =
     (if can_inline inp then \<lparr>raw = pad8 inp\<rparr> else pack_pointer (pointer_init off inp))"
  by (auto simp: string_init_def can_inline_def max_inline_len_def bit7_char empty_string_def pad8_def)

lemma can_inline_length: "can_inline inp \<Longrightarrow> length inp \<le> 8"
  by (auto simp: can_inline_def max_inline_len_def split: if_splits)

lemma init_inline_eq: "can_inline inp \<Longrightarrow> init_inline inp = string_init off inp"
  by (auto simp: init_inline_def string_init_cases empty_string_def pad8_def)

text \<open>What a handle made of \<open>inp\<close> reads as: an inline string ends at its first NUL.\<close>

definition stored :: "bytes \<Rightarrow> bytes" where
  "stored inp = (if can_inline inp then takeWhile (\<lambda>b. b \<noteq> CHR 0x00) inp else inp)"

lemma slice_string_init:
  assumes "\<not> can_inline inp \<Longrightarrow> off + length inp \<le> length b \<and> take (length inp) (drop off b) = inp"
    and "length b < 2 ^ 31"
  shows "string_slice (string_init off inp) b = stored inp"
proof (cases "can_inline inp")
  case True
  then show ?thesis using inline_raw_slice [OF can_inline_length] by (simp add: string_init_cases stored_def)
next
  case False
  with assms have "string_slice (pack_pointer (pointer_init off inp)) b = inp"
    by (intro slice_pack_pointer) auto
  with False show ?thesis by (simp add: string_init_cases stored_def)
qed

lemma stored_no_nul: "CHR 0x00 \<notin> set inp \<Longrightarrow> stored inp = inp"
  by (auto simp: stored_def intro: takeWhile_eq_all_conv [THEN iffD2])
section \<open>Appending to a pooled buffer\<close>

text \<open>
  The contract of a string store: a new handle reads back what was appended, and what an older
  handle reads does not change. Any sequence of appends can then be read back at the end.
\<close>

fun append_all :: "('s \<Rightarrow> bytes \<Rightarrow> 'h \<times> 's) \<Rightarrow> 's \<Rightarrow> bytes list \<Rightarrow> 'h list \<times> 's" where
  "append_all app s [] = ([], s)"
| "append_all app s (str # strs) =
     (case app s str of (h, t) \<Rightarrow> (case append_all app t strs of (hs, u) \<Rightarrow> (h # hs, u)))"

locale string_store =
  fixes append :: "'s \<Rightarrow> bytes \<Rightarrow> 'h \<times> 's"
    and read :: "'s \<Rightarrow> 'h \<Rightarrow> bytes"
    and live :: "'s \<Rightarrow> 'h \<Rightarrow> bool"
    and ok :: "'s \<Rightarrow> bool"
    and fits :: "'s \<Rightarrow> bytes list \<Rightarrow> bool"
    and norm :: "bytes \<Rightarrow> bytes"
  assumes append_read: "ok s \<Longrightarrow> fits s (str # strs) \<Longrightarrow> append s str = (h, t) \<Longrightarrow>
      ok t \<and> fits t strs \<and> live t h \<and> read t h = norm str"
    and append_frame: "ok s \<Longrightarrow> fits s (str # strs) \<Longrightarrow> append s str = (h, t) \<Longrightarrow> live s g \<Longrightarrow>
      live t g \<and> read t g = read s g"
begin

lemma append_all_frame:
  "ok s \<Longrightarrow> fits s strs \<Longrightarrow> append_all append s strs = (hs, t) \<Longrightarrow> live s g \<Longrightarrow>
   live t g \<and> read t g = read s g"
proof (induction strs arbitrary: s hs t)
  case (Cons str strs)
  from Cons.prems(3) obtain h u hs' where
    u: "append s str = (h, u)" "append_all append u strs = (hs', t)"
    by (auto split: prod.splits)
  note r = append_read [OF Cons.prems(1,2) u(1)] append_frame [OF Cons.prems(1,2) u(1) Cons.prems(4)]
  show ?case using Cons.IH [OF _ _ u(2)] r by auto
qed simp

lemma append_all_read:
  "ok s \<Longrightarrow> fits s strs \<Longrightarrow> append_all append s strs = (hs, t) \<Longrightarrow>
   map (read t) hs = map norm strs \<and> ok t"
proof (induction strs arbitrary: s hs t)
  case (Cons str strs)
  from Cons.prems(3) obtain h u hs' where
    u: "append s str = (h, u)" "append_all append u strs = (hs', t)" "hs = h # hs'"
    by (auto split: prod.splits)
  note r = append_read [OF Cons.prems(1,2) u(1)]
  then have "map (read t) hs' = map norm strs \<and> ok t"
    using Cons.IH [OF _ _ u(2)] by blast
  moreover have "read t h = norm str"
    using append_all_frame [OF _ _ u(2), of h] r by auto
  ultimately show ?case by (simp add: u(3))
qed simp

end

text \<open>Every pooled handle points inside the bytes.\<close>

definition buf_ok :: "string_buf \<Rightarrow> bool" where
  "buf_ok s \<longleftrightarrow> (\<forall>h v. sb_pool s h = Some v \<longrightarrow> is_within v (sb_bytes s))"

definition buf_fits :: "string_buf \<Rightarrow> bytes list \<Rightarrow> bool" where
  "buf_fits s strs \<longleftrightarrow> length (sb_bytes s) + length (concat strs) < 2 ^ 31"

lemma slice_append_frame:
  assumes "is_within v b"
  shows "is_within v (b @ c)" and "string_slice v (b @ c) = string_slice v b"
  using assms by (auto simp: is_within_def string_slice_def get_range_def Let_def)

lemma init_append_spec:
  assumes "init_append b str = (h, c)" "length b + length str < 2 ^ 31"
  shows "c = b @ str" "is_within h c" "string_slice h c = str"
proof -
  from assms(1) have c: "c = b @ str" and h: "h = pack_pointer (pointer_init (length b) str)"
    by (auto simp: init_append_def Let_def)
  have p: "unat (of_nat (length str) :: u32) = length str" "unat (of_nat (length b) :: u32) = length b"
    using assms(2) by (simp_all add: unat_of_nat)
  show "c = b @ str" by (rule c)
  show "is_within h c"
    using assms(2) by (simp add: is_within_def h c pack_pointer_ptr pointer_init_def p Let_def)
  show "string_slice h c = str"
    unfolding h using assms(2) by (intro slice_pack_pointer) (simp_all add: c)
qed

lemma append_with_hash_spec:
  assumes "append_with_hash s str hash = (h, t)" "buf_ok s" "buf_fits s (str # strs)"
  shows "buf_ok t \<and> buf_fits t strs \<and> is_within h (sb_bytes t) \<and>
    string_slice h (sb_bytes t) = stored str \<and> (\<exists>c. sb_bytes t = sb_bytes s @ c)"
proof (cases "can_inline str")
  case True
  then have t: "t = s" "h = \<lparr>raw = pad8 str\<rparr>" using assms(1)
    by (auto simp: append_with_hash_def init_inline_eq [where off = 0] string_init_cases)
  then show ?thesis using True assms(2,3) inline_raw_slice [OF can_inline_length [OF True] True]
    by (auto simp: stored_def buf_fits_def is_within_def Let_def)
next
  case False
  obtain v c where i: "init_append (sb_bytes s) str = (v, c)" by fastforce
  have "length (sb_bytes s) + length str < 2 ^ 31" using assms(3) by (simp add: buf_fits_def)
  note v = init_append_spec [OF i this]
  show ?thesis using False assms v
    by (auto simp: append_with_hash_def i buf_ok_def buf_fits_def stored_def slice_append_frame
        split: option.splits if_splits)
qed

lemma buf_append_eq: "buf_append s str = append_with_hash s str (string_hash str)"
  by (simp add: buf_append_def append_with_hash_def)

interpretation pooled: string_store buf_append "\<lambda>s h. string_slice h (sb_bytes s)"
  "\<lambda>s h. is_within h (sb_bytes s)" buf_ok buf_fits stored
proof unfold_locales
  fix s t :: string_buf and str h g strs
  assume ok: "buf_ok s" "buf_fits s (str # strs)" and a: "buf_append s str = (h, t)"
  note sp = append_with_hash_spec [OF a [unfolded buf_append_eq] ok]
  show "buf_ok t \<and> buf_fits t strs \<and> is_within h (sb_bytes t) \<and> string_slice h (sb_bytes t) = stored str"
    using sp by blast
  assume "is_within g (sb_bytes s)"
  then show "is_within g (sb_bytes t) \<and> string_slice g (sb_bytes t) = string_slice g (sb_bytes s)"
    using sp slice_append_frame by metis
qed

section \<open>A counted builder does not run over\<close>

fun builder_append_all :: "builder \<Rightarrow> bytes list \<Rightarrow> (semver_string list \<times> builder) option" where
  "builder_append_all b [] = Some ([], b)"
| "builder_append_all b (s # ss) =
     (case builder_append b s of
        None \<Rightarrow> None
      | Some (h, c) \<Rightarrow> map_option (\<lambda>(hs, d). (h # hs, d)) (builder_append_all c ss))"

definition needed :: "bytes list \<Rightarrow> nat" where
  "needed strs = sum_list (map (\<lambda>s. if can_inline s then 0 else length s) strs)"

lemma needed_simps [simp]:
  "needed [] = 0" "needed (s # ss) = (if can_inline s then 0 else length s) + needed ss"
  by (simp_all add: needed_def)

definition builder_live :: "builder \<Rightarrow> semver_string \<Rightarrow> bool" where
  "builder_live b v \<longleftrightarrow>
     is_inline v \<or> unat (ptr_off (string_ptr v)) + unat (ptr_len (string_ptr v)) \<le> b_len b"

definition builder_ok :: "builder \<Rightarrow> bool" where
  "builder_ok b \<longleftrightarrow> (\<forall>h v. b_pool b h = Some v \<longrightarrow> builder_live b v)"

definition builder_fits :: "builder \<Rightarrow> bytes list \<Rightarrow> bool" where
  "builder_fits b strs \<longleftrightarrow>
     (\<exists>p. b_ptr b = Some p \<and> length p = b_cap b) \<and> b_len b + needed strs \<le> b_cap b \<and> b_cap b < 2 ^ 31"

lemma slice_copy_frame:
  assumes "is_inline v \<or> unat (ptr_off (string_ptr v)) + unat (ptr_len (string_ptr v)) \<le> n"
    and "n + length s \<le> length p"
  shows "string_slice v (copy_at p n s) = string_slice v p"
proof -
  have l: "length (copy_at p n s) = length p" using assms(2) by (rule length_copy_at)
  have t: "take len (drop off (copy_at p n s)) = take len (drop off p)" if "off + len \<le> n" for off len
  proof -
    have "take (len + off) (copy_at p n s) = take (len + off) p"
      using that assms(2) by (simp add: copy_at_def)
    then show ?thesis by (simp add: take_drop)
  qed
  show ?thesis using assms(1) by (auto simp: string_slice_def get_range_def Let_def l t)
qed

lemma append_without_pool_spec:
  assumes "\<not> can_inline s" "builder_fits b (s # ss)"
  shows "\<exists>h t. append_without_pool b s = Some (h, t) \<and> builder_live t h \<and>
    string_slice h (the (b_ptr t)) = s \<and> builder_fits t ss \<and> b_pool t = b_pool b \<and> b_len b \<le> b_len t \<and>
    (\<forall>g. builder_live b g \<longrightarrow> string_slice g (the (b_ptr t)) = string_slice g (the (b_ptr b)))"
proof -
  from assms obtain p where p: "b_ptr b = Some p" "length p = b_cap b"
    "b_len b + length s + needed ss \<le> b_cap b" "b_cap b < 2 ^ 31"
    by (auto simp: builder_fits_def)
  let ?q = "copy_at p (b_len b) s" and ?h = "pack_pointer (pointer_init (b_len b) s)"
  have q: "length ?q = b_cap b" using p by (simp add: length_copy_at)
  have "take (length s) (drop (b_len b) ?q) = s" using p by (simp add: copy_at_def)
  then have sl: "string_slice ?h ?q = s" using p q by (intro slice_pack_pointer) auto
  have u: "unat (of_nat (length s) :: u32) = length s" "unat (of_nat (b_len b) :: u32) = b_len b"
    using p by (simp_all add: unat_of_nat)
  have ptr: "string_ptr ?h = pointer_init (b_len b) s"
    using p u by (intro pack_pointer_ptr(2)) (simp add: pointer_init_def)
  have "append_without_pool b s =
      Some (?h, b\<lparr>b_ptr := Some ?q, b_len := b_len b + length s\<rparr>)"
    using assms p by (simp add: append_without_pool_def string_init_cases)
  then show ?thesis using p q sl ptr u slice_copy_frame [of _ "b_len b" s p]
    by (auto simp: builder_live_def builder_fits_def pointer_init_def)
qed

lemma builder_append_spec:
  assumes "builder_ok b" "builder_fits b (s # ss)"
  shows "\<exists>h t. builder_append b s = Some (h, t) \<and> builder_ok t \<and> builder_fits t ss \<and> builder_live t h \<and>
    string_slice h (the (b_ptr t)) = stored s \<and>
    (\<forall>g. builder_live b g \<longrightarrow>
       builder_live t g \<and> string_slice g (the (b_ptr t)) = string_slice g (the (b_ptr b)))"
proof (cases "can_inline s")
  case True
  from assms(2) obtain p where p: "b_ptr b = Some p" "length p = b_cap b" by (auto simp: builder_fits_def)
  then have "builder_append b s = Some (string_init 0 s, b)"
    using True by (auto simp: builder_append_def builder_append_with_hash_def append_inline_def
        allocated_slice_def get_range_def)
  then show ?thesis
    using True assms inline_raw_slice [OF can_inline_length [OF True] True]
    by (auto simp: string_init_cases stored_def builder_live_def builder_fits_def)
next
  case False
  note a = append_without_pool_spec [OF False assms(2)]
  have cap: "b_cap b \<le> length (the (b_ptr b))" "b_ptr b \<noteq> None" "b_cap b = length (the (b_ptr b))"
    using assms(2) by (auto simp: builder_fits_def)
  have fits: "builder_fits b ss" using assms(2) by (auto simp: builder_fits_def)
  show ?thesis
  proof (cases "b_pool b (string_hash s)")
    case None
    with False a show ?thesis using assms(1)
      by (fastforce simp: builder_append_def builder_append_with_hash_def builder_ok_def builder_live_def
          builder_fits_def stored_def)
  next
    case (Some v)
    then have lv: "builder_live b v" using assms(1) by (auto simp: builder_ok_def)
    show ?thesis
    proof (cases "string_slice v (the (b_ptr b)) = s")
      case True
      then show ?thesis using False Some lv cap fits assms(1)
        by (auto simp: builder_append_def builder_append_with_hash_def stored_def)
    next
      case ne: False
      with False Some a cap show ?thesis using assms(1)
        by (fastforce simp: builder_append_def builder_append_with_hash_def builder_ok_def builder_live_def
            stored_def)
    qed
  qed
qed

interpretation built: string_store "\<lambda>b s. the (builder_append b s)"
  "\<lambda>b h. string_slice h (the (b_ptr b))" builder_live builder_ok builder_fits stored
proof unfold_locales
  fix b t :: builder and s ss h g
  assume ok: "builder_ok b" "builder_fits b (s # ss)" and a: "the (builder_append b s) = (h, t)"
  note sp = builder_append_spec [OF ok]
  show "builder_ok t \<and> builder_fits t ss \<and> builder_live t h \<and> string_slice h (the (b_ptr t)) = stored s"
    using sp a by auto
  assume "builder_live b g"
  then show "builder_live t g \<and> string_slice g (the (b_ptr t)) = string_slice g (the (b_ptr b))"
    using sp a by auto
qed

lemma builder_append_all_some:
  "builder_ok b \<Longrightarrow> builder_fits b strs \<Longrightarrow>
   builder_append_all b strs = Some (append_all (\<lambda>b s. the (builder_append b s)) b strs)"
proof (induction strs arbitrary: b)
  case (Cons s ss)
  from builder_append_spec [OF Cons.prems] obtain h t where
    t: "builder_append b s = Some (h, t)" "builder_ok t" "builder_fits t ss" by blast
  then show ?case using Cons.IH [OF t(2,3)] by (simp split: prod.splits)
qed simp

lemma count_all:
  "b_pool b = Map.empty \<Longrightarrow>
   foldl builder_count b strs = b\<lparr>b_cap := b_cap b + needed strs\<rparr>"
  by (induction strs arbitrary: b) (simp_all add: builder_count_def count_with_hash_def)

section \<open>Properties\<close>

text \<open>The branch-free length of an inline string (subtract one from every byte, keep the borrowed
  top bits, count trailing zeros) is the index of the first NUL byte, or 8 when there is none.\<close>

theorem inline_len_first_nul:
  "length (raw s) = 8 \<Longrightarrow> inline_len s = length (takeWhile (\<lambda>b. b \<noteq> CHR 0x00) (raw s))"
  by (rule inline_len_nul)

theorem inline_len_first_nul_witness:
  "inline_len \<lparr>raw = ''beta'' @ [CHR 0x00, CHR 0x80, CHR 0x01, CHR 0x00]\<rparr> = 4"
  using inline_len_first_nul [of "\<lparr>raw = ''beta'' @ [CHR 0x00, CHR 0x80, CHR 0x01, CHR 0x00]\<rparr>"]
  by simp

text \<open>A handle made from a slice of a buffer shorter than two gigabytes reads back as that slice,
  inline or not, provided the slice holds no NUL byte. The length keeps 31 bits and the offset 32:
  the top bit of the packed pointer is the marker.\<close>

theorem string_roundtrip:
  assumes "ss_off s + ss_len s \<le> length (ss_buf s)" "length (ss_buf s) < 2 ^ 31"
    and "CHR 0x00 \<notin> set (ss_slice s)"
  shows "string_slice (sliced_value s) (ss_buf s) = ss_slice s"
  using slice_string_init [of "ss_slice s" "ss_off s" "ss_buf s"] assms
  by (simp add: sliced_value_def stored_no_nul ss_slice_def min_def)

theorem string_roundtrip_witness:
  "string_slice (sliced_value \<lparr>ss_buf = ''1.0.0-canary.20240101'', ss_off = 6, ss_len = 15\<rparr>)
     ''1.0.0-canary.20240101'' = ''canary.20240101''"
  using string_roundtrip [of "\<lparr>ss_buf = ''1.0.0-canary.20240101'', ss_off = 6, ss_len = 15\<rparr>"]
  by (simp add: ss_slice_def)

text \<open>C35: strings appended one after another to a pooled lockfile buffer all read back at the end, and
  every handle that was valid before still reads the same bytes: pooling by hash never confuses two
  strings, even when their hashes collide.\<close>

theorem buf_append_all_reads:
  assumes "buf_ok s" "length (sb_bytes s) + length (concat strs) < 2 ^ 31"
    and "append_all buf_append s strs = (hs, t)"
  shows "map (\<lambda>h. string_slice h (sb_bytes t)) hs = map stored strs \<and>
    (\<forall>g. is_within g (sb_bytes s) \<longrightarrow> string_slice g (sb_bytes t) = string_slice g (sb_bytes s))"
  using pooled.append_all_read [OF assms(1) _ assms(3)] pooled.append_all_frame [OF assms(1) _ assms(3)]
    assms(2)
  by (simp add: buf_fits_def)

theorem buf_append_all_reads_witness:
  "map (\<lambda>h. string_slice h (sb_bytes (snd (append_all buf_append
       \<lparr>sb_bytes = [], sb_pool = Map.empty\<rparr> [''left-pad'', ''typescript'', ''typescript'']))))
     (fst (append_all buf_append
       \<lparr>sb_bytes = [], sb_pool = Map.empty\<rparr> [''left-pad'', ''typescript'', ''typescript''])) =
   [''left-pad'', ''typescript'', ''typescript'']"
  using buf_append_all_reads [of "\<lparr>sb_bytes = [], sb_pool = Map.empty\<rparr>"
      "[''left-pad'', ''typescript'', ''typescript'']"
      "fst (append_all buf_append \<lparr>sb_bytes = [], sb_pool = Map.empty\<rparr>
         [''left-pad'', ''typescript'', ''typescript''])"
      "snd (append_all buf_append \<lparr>sb_bytes = [], sb_pool = Map.empty\<rparr>
         [''left-pad'', ''typescript'', ''typescript''])"]
  by (simp only: surjective_pairing [symmetric]) (simp add: buf_ok_def stored_no_nul)

text \<open>C34: a builder in which every string was counted before the allocation never panics while the
  same strings are appended, in that order, and each handle it returns reads back its string.\<close>

theorem builder_counted_appends:
  assumes "length (concat strs) < 2 ^ 31"
  shows "\<exists>hs b. builder_append_all (allocate (foldl builder_count builder_default strs)) strs = Some (hs, b) \<and>
    map (\<lambda>h. string_slice h (the (b_ptr b))) hs = map stored strs"
proof -
  let ?b = "allocate (foldl builder_count builder_default strs)"
  have "needed strs \<le> length (concat strs)" by (induction strs) auto
  then have ok: "builder_fits ?b strs" "builder_ok ?b"
    using assms by (simp_all add: builder_fits_def builder_ok_def allocate_def count_all builder_default_def)
  obtain hs b where a: "append_all (\<lambda>b s. the (builder_append b s)) ?b strs = (hs, b)" by fastforce
  show ?thesis
    using builder_append_all_some [OF ok(2,1)] built.append_all_read [OF ok(2,1) a] by (simp add: a)
qed

theorem builder_counted_appends_witness:
  "\<exists>hs b. builder_append_all
     (allocate (foldl builder_count builder_default [''left-pad'', ''typescript'']))
     [''left-pad'', ''typescript''] = Some (hs, b) \<and>
   map (\<lambda>h. string_slice h (the (b_ptr b))) hs = [''left-pad'', ''typescript'']"
  using builder_counted_appends [of "[''left-pad'', ''typescript'']"] by (simp add: stored_no_nul)

end
