(* ===== verification/Semver_Version.thy ===== *)
theory Semver_Version
  imports Semver_String
begin

text \<open>
  \<^verbatim>\<open>src/semver/Version.rs\<close>: versions, prerelease and build tags, their parser, their order and
  their printing. A tag holds string handles, so every operation that looks at a tag also takes
  the buffer the handles point into, as in the source. \<^verbatim>\<open>VersionType<T>\<close> is modelled at
  \<^verbatim>\<open>u64\<close>, the instance called \<^verbatim>\<open>Version\<close>; the \<^verbatim>\<open>u32\<close> instance only exists to be migrated.

  The lemmas show that the order is total and transitive on versions with their buffers, that it is
  the order of an explicit key, that the parser stays inside its input, and that it inverts the
  formatter.
\<close>

section \<open>Data\<close>

text \<open>\<^verbatim>\<open>query::token::Wildcard\<close>\<close>

datatype wildcard = WNone | WMajor | WMinor | WPatch

record tag =
  pre :: external_string
  build :: external_string

record 'n version_type =
  major :: 'n
  minor :: 'n
  patch :: 'n
  vtag :: tag

type_synonym version = "u64 version_type"

record 'n partial =
  p_major :: "'n option"
  p_minor :: "'n option"
  p_patch :: "'n option"
  p_tag :: tag

record parse_result =
  pr_wildcard :: wildcard
  pr_valid :: bool
  pr_overflow :: bool
  pr_version :: "u64 partial"
  pr_len :: nat

record tag_result =
  tr_tag :: tag
  tr_len :: nat

datatype changed_version = ChangedMajor | ChangedMinor | ChangedPatch | ChangedPre | ChangedBuild | ChangedNone

datatype pinned_version = PinnedMajor | PinnedMinor | PinnedPatch

definition default_tag :: tag where
  "default_tag = \<lparr>pre = default_external, build = default_external\<rparr>"

definition default_version :: version where
  "default_version = \<lparr>major = 0, minor = 0, patch = 0, vtag = default_tag\<rparr>"

definition default_partial :: "u64 partial" where
  "default_partial = \<lparr>p_major = None, p_minor = None, p_patch = None, p_tag = default_tag\<rparr>"

definition default_parse_result :: parse_result where
  "default_parse_result =
     \<lparr>pr_wildcard = WNone, pr_valid = True, pr_overflow = False, pr_version = default_partial,
      pr_len = 0\<rparr>"

text \<open>\<^verbatim>\<open>-0\<close>, the lowest prerelease.\<close>

definition zero_pre :: tag where
  "zero_pre =
     \<lparr>pre = \<lparr>ext_value = \<lparr>raw = CHR ''0'' # replicate 7 (CHR 0x00)\<rparr>, ext_hash = 0xb8f8325b21a8a1e5\<rparr>,
      build = \<lparr>ext_value = empty_string, ext_hash = 0\<rparr>\<rparr>"

definition parse_ascii :: "bytes \<Rightarrow> u64 option" where
  "parse_ascii s = (case parse_unsigned s 10 of Inr n \<Rightarrow> Some n | Inl _ \<Rightarrow> None)"

definition migrate :: "u32 version_type \<Rightarrow> version" where
  "migrate v =
     \<lparr>major = ucast (major v), minor = ucast (minor v), patch = ucast (patch v),
      vtag = \<lparr>pre = pre (vtag v), build = build (vtag v)\<rparr>\<rparr>"

section \<open>Coercing\<close>

definition digit_count :: "bytes \<Rightarrow> nat" where
  "digit_count text = length (takeWhile is_ascii_digit text)"

definition coerce_longest :: nat where
  "coerce_longest = 16"

definition max_safe_integer :: u64 where
  "max_safe_integer = push_bit 53 1 - 1"

text \<open>A dot and one to sixteen digits, followed by something that is not a digit.\<close>

definition coerce_part :: "bytes \<Rightarrow> (bytes \<times> bytes) option" where
  "coerce_part text =
     (case text of
        [] \<Rightarrow> None
      | c # rest \<Rightarrow>
          if c \<noteq> CHR ''.'' then None
          else (let n = digit_count rest
                in if 1 \<le> n \<and> n \<le> coerce_longest then Some (take n rest, drop n rest) else None))"

definition coerce_number :: "bytes \<Rightarrow> u64 option" where
  "coerce_number digits =
     (case digits of
        c # _ # _ \<Rightarrow> if c = CHR ''0'' then None
                      else (case parse_ascii digits of
                              Some n \<Rightarrow> if n \<le> max_safe_integer then Some n else None
                            | None \<Rightarrow> None)
      | _ \<Rightarrow> (case parse_ascii digits of
                Some n \<Rightarrow> if n \<le> max_safe_integer then Some n else None
              | None \<Rightarrow> None))"

definition coerce_at :: "bytes \<Rightarrow> bytes \<Rightarrow> version option" where
  "coerce_at major_digits after =
     (let minor_part = coerce_part after;
          patch_part = Option.bind minor_part (\<lambda>it. coerce_part (snd it))
      in case coerce_number major_digits of
           None \<Rightarrow> None
         | Some ma \<Rightarrow>
             (case (case minor_part of None \<Rightarrow> Some 0 | Some it \<Rightarrow> coerce_number (fst it)) of
                None \<Rightarrow> None
              | Some mi \<Rightarrow>
                  (case (case patch_part of None \<Rightarrow> Some 0 | Some it \<Rightarrow> coerce_number (fst it)) of
                     None \<Rightarrow> None
                   | Some pa \<Rightarrow>
                       Some (default_version\<lparr>major := ma, minor := mi, patch := pa\<rparr>))))"

function coerce :: "bytes \<Rightarrow> version option" where
  "coerce rest =
     (let start = length (takeWhile (\<lambda>c. \<not> is_ascii_digit c) rest);
          from = drop start rest;
          n = digit_count from;
          major_digits = take n from;
          after = drop n from
      in if major_digits = [] then None
         else if coerce_longest < length major_digits then coerce after
         else coerce_at major_digits after)"
  by pat_completeness auto
termination
  by (relation "measure length") (auto simp: digit_count_def split: if_splits)

declare coerce.simps [simp del]

section \<open>Tags\<close>

definition has_pre :: "tag \<Rightarrow> bool" where
  "has_pre t \<longleftrightarrow> \<not> string_is_empty (ext_value (pre t))"

definition has_build :: "tag \<Rightarrow> bool" where
  "has_build t \<longleftrightarrow> \<not> string_is_empty (ext_value (build t))"

definition tag_eql :: "tag \<Rightarrow> tag \<Rightarrow> bool" where
  "tag_eql self rhs \<longleftrightarrow> ext_hash (pre self) = ext_hash (pre rhs)"

definition external_slice :: "external_string \<Rightarrow> bytes \<Rightarrow> bytes" where
  "external_slice e b = string_slice (ext_value e) b"

definition external_order :: "external_string \<Rightarrow> external_string \<Rightarrow> bytes \<Rightarrow> bytes \<Rightarrow> ordering" where
  "external_order self rhs lhs_buf rhs_buf =
     string_order (ext_value self) (ext_value rhs) lhs_buf rhs_buf"

text \<open>The loop of \<^verbatim>\<open>order_pre\<close> over the dot-separated parts of both prereleases.\<close>

fun order_parts :: "bytes list \<Rightarrow> bytes list \<Rightarrow> ordering" where
  "order_parts [] [] = Equal"
| "order_parts (l # ls) [] = Greater"
| "order_parts [] (r # rs) = Less"
| "order_parts (l # ls) (r # rs) =
     (case (parse_ascii l, parse_ascii r) of
        (Some _, None) \<Rightarrow> Less
      | (None, Some _) \<Rightarrow> Greater
      | (None, None) \<Rightarrow>
          (case order_bytes l r of Equal \<Rightarrow> order_parts ls rs | unequal \<Rightarrow> unequal)
      | (Some lhs_uint, Some rhs_uint) \<Rightarrow>
          (case cmp lhs_uint rhs_uint of Equal \<Rightarrow> order_parts ls rs | unequal \<Rightarrow> unequal))"

definition order_pre :: "tag \<Rightarrow> tag \<Rightarrow> bytes \<Rightarrow> bytes \<Rightarrow> ordering" where
  "order_pre self rhs lhs_buf rhs_buf =
     order_parts (split (external_slice (pre self) lhs_buf) ''.'')
                 (split (external_slice (pre rhs) rhs_buf) ''.'')"

definition tag_order :: "tag \<Rightarrow> tag \<Rightarrow> bytes \<Rightarrow> bytes \<Rightarrow> ordering" where
  "tag_order self rhs lhs_buf rhs_buf =
     (if has_pre self \<and> has_pre rhs then order_pre self rhs lhs_buf rhs_buf
      else case external_order (pre self) (pre rhs) lhs_buf rhs_buf of
        Equal \<Rightarrow> external_order (build self) (build rhs) lhs_buf rhs_buf
      | pre_order \<Rightarrow> pre_order)"

definition tag_order_without_build :: "tag \<Rightarrow> tag \<Rightarrow> bytes \<Rightarrow> bytes \<Rightarrow> ordering" where
  "tag_order_without_build self rhs lhs_buf rhs_buf =
     (if has_pre self \<and> has_pre rhs then order_pre self rhs lhs_buf rhs_buf
      else external_order (pre self) (pre rhs) lhs_buf rhs_buf)"

text \<open>
  \<^verbatim>\<open>Tag::clone_into\<close>: copy one string to \<open>offset\<close> in \<open>buf\<close>. \<^verbatim>\<open>None\<close> is the panic of a
  range past the end of \<open>buf\<close>.
\<close>

definition clone_string ::
  "external_string \<Rightarrow> bytes \<Rightarrow> bytes \<Rightarrow> nat \<Rightarrow> (semver_string \<times> bytes \<times> nat) option" where
  "clone_string s src buf offset =
     (if is_inline (ext_value s) then Some (ext_value s, buf, offset)
      else (let b = external_slice s src; e = offset + length b
            in if e \<le> length buf then Some (string_init offset b, copy_at buf offset b, e)
               else None))"

definition tag_clone_into :: "tag \<Rightarrow> bytes \<Rightarrow> bytes \<Rightarrow> nat \<Rightarrow> (tag \<times> bytes \<times> nat) option" where
  "tag_clone_into self src buf offset =
     (case clone_string (pre self) src buf offset of
        None \<Rightarrow> None
      | Some (p, buf, offset) \<Rightarrow>
          (case clone_string (build self) src buf offset of
             None \<Rightarrow> None
           | Some (b, buf, offset) \<Rightarrow>
               Some (\<lparr>pre = \<lparr>ext_value = p, ext_hash = ext_hash (pre self)\<rparr>,
                      build = \<lparr>ext_value = b, ext_hash = ext_hash (build self)\<rparr>\<rparr>, buf, offset)))"

section \<open>Parsing a tag\<close>

datatype tag_state = StNone | StPre | StBuild

text \<open>The first pass: count \<^verbatim>\<open>+\<close> and \<^verbatim>\<open>-\<close> up to the first space.\<close>

fun count_markers :: "bytes \<Rightarrow> nat \<Rightarrow> nat \<Rightarrow> nat \<times> nat" where
  "count_markers [] b p = (b, p)"
| "count_markers (c # cs) b p =
     (if c = CHR '' '' then (b, p)
      else if c = CHR ''+'' then count_markers cs (b + 1) p
      else if c = CHR ''-'' then count_markers cs b (p + 1)
      else count_markers cs b p)"

record tag_scan =
  ts_i :: nat
  ts_state :: tag_state
  ts_start :: nat
  ts_tag :: tag

definition is_tag_char :: "byte \<Rightarrow> bool" where
  "is_tag_char c \<longleftrightarrow> is_ascii_lower c \<or> is_ascii_upper c \<or> is_ascii_digit c \<or> c = CHR ''.''"

text \<open>
  The second pass from \<open>i\<close> on: \<^verbatim>\<open>+\<close> closes a prerelease and opens the build metadata, \<^verbatim>\<open>-\<close>
  opens a prerelease, and the first other character ends the loop.
\<close>

function tag_loop :: "sliced_string \<Rightarrow> nat \<Rightarrow> tag_scan \<Rightarrow> tag_scan" where
  "tag_loop sl ipc t =
     (let input = ss_slice sl; i = ts_i t
      in if \<not> i < length input then t
         else
           (let c = input ! i; here = external (sub_range sl (ts_start t) i)
            in if c = CHR ''+'' then
                 (let t1 = (if ts_state t = StPre \<or> ts_state t = StNone \<and> 0 < ipc
                            then t\<lparr>ts_tag := (ts_tag t)\<lparr>pre := here\<rparr>\<rparr> else t);
                      t2 = (if ts_state t1 \<noteq> StBuild
                            then t1\<lparr>ts_state := StBuild, ts_start := i + 1\<rparr> else t1)
                  in tag_loop sl ipc (t2\<lparr>ts_i := i + 1\<rparr>))
               else if c = CHR ''-'' then
                 (let t1 = (if ts_state t = StNone
                            then t\<lparr>ts_state := StPre, ts_start := i + 1\<rparr> else t)
                  in tag_loop sl ipc (t1\<lparr>ts_i := i + 1\<rparr>))
               else if is_tag_char c then tag_loop sl ipc (t\<lparr>ts_i := i + 1\<rparr>)
               else
                 (case ts_state t of
                    StNone \<Rightarrow> t
                  | StPre \<Rightarrow> t\<lparr>ts_tag := (ts_tag t)\<lparr>pre := here\<rparr>, ts_state := StNone\<rparr>
                  | StBuild \<Rightarrow> t\<lparr>ts_tag := (ts_tag t)\<lparr>build := here\<rparr>, ts_state := StNone\<rparr>)))"
  by pat_completeness auto
termination
  by (relation "measure (\<lambda>(sl, ipc, t). length (ss_slice sl) - ts_i t)") (auto simp: Let_def)

declare tag_loop.simps [simp del]

definition parse_with_pre_count :: "sliced_string \<Rightarrow> nat \<Rightarrow> tag_result" where
  "parse_with_pre_count sl ipc =
     (let input = ss_slice sl; (build_count, pre_count) = count_markers input 0 ipc
      in if build_count = 0 \<and> pre_count = 0 then \<lparr>tr_tag = default_tag, tr_len = 0\<rparr>
         else
           (let t = tag_loop sl ipc \<lparr>ts_i = 0, ts_state = StNone, ts_start = 0, ts_tag = default_tag\<rparr>;
                t = (if ts_state t = StNone \<and> 0 < ipc then t\<lparr>ts_state := StPre, ts_start := 0\<rparr> else t);
                here = external (sub_range sl (ts_start t) (ts_i t));
                tg = (case ts_state t of
                        StNone \<Rightarrow> ts_tag t
                      | StPre \<Rightarrow> (ts_tag t)\<lparr>pre := here\<rparr>
                      | StBuild \<Rightarrow> (ts_tag t)\<lparr>build := here\<rparr>)
            in \<lparr>tr_tag = tg, tr_len = unat (of_nat (ts_i t) :: u32)\<rparr>))"

definition tag_parse :: "sliced_string \<Rightarrow> tag_result" where
  "tag_parse sl = parse_with_pre_count sl 0"

section \<open>Parsing a version\<close>

definition is_version_prefix :: "byte \<Rightarrow> bool" where
  "is_version_prefix c \<longleftrightarrow>
     c \<in> {CHR '' '', CHR 0x09, CHR 0x0A, CHR 0x0D, CHR 0x0B, CHR 0x0C, CHR ''v'', CHR ''=''}"

definition is_wildcard_char :: "byte \<Rightarrow> bool" where
  "is_wildcard_char c \<longleftrightarrow> c = CHR ''x'' \<or> c = CHR ''*'' \<or> c = CHR ''X''"

text \<open>The variables of the loop: the cursor, the number of parts read, and the result so far.\<close>

record parse_state =
  ps_i :: nat
  ps_part_i :: nat
  ps_result :: parse_result

text \<open>A loop step either goes on (\<^verbatim>\<open>Inr\<close>) or breaks (\<^verbatim>\<open>Inl\<close>).\<close>

type_synonym parse_step = "parse_state + parse_state"

definition set_part :: "nat \<Rightarrow> u64 option \<Rightarrow> u64 partial \<Rightarrow> u64 partial" where
  "set_part part_i number v =
     (if part_i = 0 then v\<lparr>p_major := number\<rparr>
      else if part_i = 1 then v\<lparr>p_minor := number\<rparr>
      else v\<lparr>p_patch := number\<rparr>)"

definition skip_dot :: "bytes \<Rightarrow> bool \<Rightarrow> nat \<Rightarrow> nat" where
  "skip_dot input wanted i = (if i < length input \<and> input ! i = CHR ''.'' \<and> wanted then i + 1 else i)"

definition parse_number_arm :: "bytes \<Rightarrow> parse_state \<Rightarrow> parse_step" where
  "parse_number_arm input st =
     (let j = skip_while is_ascii_digit input (ps_i st + 1); r = ps_result st
      in if ps_part_i st < 3 then
           (let number = parse_ascii (range_of input (ps_i st) j);
                r = (if number = None then r\<lparr>pr_valid := False\<rparr> else r)
            in if number = None \<and> pr_wildcard r = WNone
               then Inl (st\<lparr>ps_i := j, ps_result := r\<lparr>pr_overflow := True\<rparr>\<rparr>)
               else
                 (let part_i = ps_part_i st + 1;
                      r = r\<lparr>pr_version := set_part (ps_part_i st) number (pr_version r)\<rparr>
                  in Inr \<lparr>ps_i = skip_dot input (part_i \<noteq> 3) j, ps_part_i = part_i, ps_result = r\<rparr>))
         else Inr (st\<lparr>ps_i := skip_dot input (ps_part_i st \<noteq> 3) j\<rparr>))"

definition parse_tag_arm :: "sliced_string \<Rightarrow> byte \<Rightarrow> parse_state \<Rightarrow> parse_state" where
  "parse_tag_arm sl c st =
     (let fewest_parts = (if c = CHR ''+'' then 1 else 2); r = ps_result st; i = ps_i st
      in if ps_part_i st < fewest_parts \<and> pr_wildcard r = WNone
         then st\<lparr>ps_result := r\<lparr>pr_valid := False\<rparr>\<rparr>
         else
           (let tr = tag_parse (sub_range sl i (ss_len sl))
            in st\<lparr>ps_i := i + tr_len tr,
                  ps_result := r\<lparr>pr_version := (pr_version r)\<lparr>p_tag := tr_tag tr\<rparr>\<rparr>\<rparr>))"

definition parse_wildcard_arm :: "bytes \<Rightarrow> parse_state \<Rightarrow> parse_state" where
  "parse_wildcard_arm input st =
     (let i = ps_i st; r = ps_result st;
          r = (if 0 < i \<and> is_ascii_digit (input ! (i - 1)) then r\<lparr>pr_valid := False\<rparr> else r);
          j = skip_dot input True (skip_while is_wildcard_char input (i + 1));
          st = st\<lparr>ps_i := j, ps_result := r\<rparr>
      in if pr_wildcard r = WNone then
           (if ps_part_i st = 0 then st\<lparr>ps_result := r\<lparr>pr_wildcard := WMajor\<rparr>, ps_part_i := 1\<rparr>
            else if ps_part_i st = 1 then st\<lparr>ps_result := r\<lparr>pr_wildcard := WMinor\<rparr>, ps_part_i := 2\<rparr>
            else if ps_part_i st = 2 then st\<lparr>ps_result := r\<lparr>pr_wildcard := WPatch\<rparr>, ps_part_i := 3\<rparr>
            else st)
         else st)"

definition parse_other_arm :: "sliced_string \<Rightarrow> byte \<Rightarrow> parse_state \<Rightarrow> parse_state" where
  "parse_other_arm sl c st =
     (let i = ps_i st; r = ps_result st
      in if pr_wildcard r = WNone \<and> 2 \<le> ps_part_i st \<and> is_ascii_alphabetic c then
           (let tr = parse_with_pre_count (sub_range sl i (ss_len sl)) 1
            in st\<lparr>ps_i := i + tr_len tr,
                  ps_result := r\<lparr>pr_version := (pr_version r)\<lparr>p_tag := tr_tag tr\<rparr>\<rparr>\<rparr>)
         else st\<lparr>ps_result := r\<lparr>pr_valid := False\<rparr>\<rparr>)"

definition parse_step :: "sliced_string \<Rightarrow> parse_state \<Rightarrow> parse_step" where
  "parse_step sl st =
     (let input = ss_slice sl; i = ps_i st; c = input ! i; r = ps_result st
      in if c = CHR '' '' then Inl st
         else if c \<in> {CHR ''|'', CHR ''^'', CHR ''#'', CHR ''&'', CHR ''%'', CHR ''!''}
           then Inl (st\<lparr>ps_i := i - 1\<rparr>)
         else if is_ascii_digit c then parse_number_arm input st
         else if c = CHR ''.'' then Inl (st\<lparr>ps_result := r\<lparr>pr_valid := False\<rparr>\<rparr>)
         else if c = CHR ''-'' \<or> c = CHR ''+'' then Inl (parse_tag_arm sl c st)
         else if is_wildcard_char c then Inr (parse_wildcard_arm input st)
         else Inl (parse_other_arm sl c st))"

lemma skip_dot_ge [simp]: "i \<le> skip_dot input w i"
  by (simp add: skip_dot_def)

lemma skip_dot_skip_while_less: "i < skip_dot input w (skip_while p input (Suc i))"
  using skip_while_ge [of "Suc i" p input] skip_dot_ge [of "skip_while p input (Suc i)" input w]
  by linarith

lemma parse_wildcard_arm_ps_i [simp]:
  "ps_i (parse_wildcard_arm input st)
     = skip_dot input True (skip_while is_wildcard_char input (Suc (ps_i st)))"
  by (simp add: parse_wildcard_arm_def Let_def)

lemma parse_number_arm_ps_i:
  "parse_number_arm input st = Inr st' \<Longrightarrow>
     \<exists>w. ps_i st' = skip_dot input w (skip_while is_ascii_digit input (Suc (ps_i st)))"
  by (auto simp: parse_number_arm_def Let_def split: if_splits)

lemma only_two_arms_continue:
  "(if a then Inl x1 else if b then Inl x2 else if d then n else if e then Inl x3
    else if f then Inl x4 else if g then Inr v else Inl x5) = Inr r \<Longrightarrow> n = Inr r \<or> r = v"
  by (simp split: if_splits)

lemma parse_step_Inr:
  "parse_step sl st = Inr st' \<Longrightarrow>
     parse_number_arm (ss_slice sl) st = Inr st' \<or> st' = parse_wildcard_arm (ss_slice sl) st"
  unfolding parse_step_def Let_def by (rule only_two_arms_continue)

lemma parse_step_advances: "parse_step sl st = Inr st' \<Longrightarrow> ps_i st < ps_i st'"
  using parse_step_Inr [of sl st st'] parse_number_arm_ps_i [of "ss_slice sl" st st']
    skip_dot_skip_while_less [of "ps_i st" "ss_slice sl"]
  by auto

function parse_loop :: "sliced_string \<Rightarrow> parse_state \<Rightarrow> parse_state" where
  "parse_loop sl st =
     (if \<not> ps_i st < length (ss_slice sl) then st
      else case parse_step sl st of Inl st' \<Rightarrow> st' | Inr st' \<Rightarrow> parse_loop sl st')"
  by pat_completeness auto
termination
  by (relation "measure (\<lambda>(sl, st). length (ss_slice sl) - ps_i st)")
    (auto dest: parse_step_advances)

declare parse_loop.simps [simp del]

definition version_parse :: "sliced_string \<Rightarrow> parse_result" where
  "version_parse sl =
     (let input = ss_slice sl; result = default_parse_result
      in if input = [] then result\<lparr>pr_valid := False\<rparr>
         else
           (let i = skip_while is_version_prefix input 0
            in if i = length input then result\<lparr>pr_valid := False, pr_wildcard := WMajor, pr_len := i\<rparr>
               else
                 (let st = parse_loop sl \<lparr>ps_i = i, ps_part_i = 0, ps_result = result\<rparr>;
                      r = ps_result st;
                      r = (if pr_wildcard r = WNone then
                             (if ps_part_i st = 0 then r\<lparr>pr_valid := False, pr_wildcard := WMajor\<rparr>
                              else if ps_part_i st = 1 then r\<lparr>pr_wildcard := WMinor\<rparr>
                              else if ps_part_i st = 2 then r\<lparr>pr_wildcard := WPatch\<rparr>
                              else r)
                           else r)
                  in r\<lparr>pr_len := ps_i st\<rparr>)))"

definition parse_utf8 :: "bytes \<Rightarrow> parse_result" where
  "parse_utf8 s = version_parse (sliced_init s)"

definition partial_min :: "u64 partial \<Rightarrow> version" where
  "partial_min p =
     \<lparr>major = case_option 0 id (p_major p), minor = case_option 0 id (p_minor p),
      patch = case_option 0 id (p_patch p), vtag = p_tag p\<rparr>"

definition partial_max :: "u64 partial \<Rightarrow> version" where
  "partial_max p =
     \<lparr>major = case_option u64_max id (p_major p), minor = case_option u64_max id (p_minor p),
      patch = case_option u64_max id (p_patch p), vtag = p_tag p\<rparr>"

text \<open>
  \<^verbatim>\<open>parse_exact\<close>: \<^verbatim>\<open>strings::trim\<close> of the slice is again a slice of the same buffer, from the
  first byte that is not whitespace to the last.
\<close>

definition trimmed :: "sliced_string \<Rightarrow> sliced_string" where
  "trimmed sl =
     (let s = ss_slice sl;
          begin = skip_while (\<lambda>c. c \<in> set whitespace_chars) s 0;
          left = trim_left s whitespace_chars
      in sub_range sl begin (begin + trim_end left whitespace_chars (length left)))"

definition parse_exact :: "sliced_string \<Rightarrow> version option" where
  "parse_exact sl =
     (let tr = trimmed sl; parsed = version_parse tr
      in if pr_valid parsed \<and> pr_wildcard parsed = WNone \<and> pr_len parsed = length (ss_slice tr)
         then Some (partial_min (pr_version parsed)) else None)"

section \<open>Comparing, printing and classifying\<close>

definition is_zero :: "version \<Rightarrow> bool" where
  "is_zero v \<longleftrightarrow> patch v = 0 \<and> minor v = 0 \<and> major v = 0"

definition version_eql :: "version \<Rightarrow> version \<Rightarrow> bool" where
  "version_eql self rhs \<longleftrightarrow>
     major self = major rhs \<and> minor self = minor rhs \<and> patch self = patch rhs \<and>
     tag_eql (vtag rhs) (vtag self)"

definition which_version_is_different ::
  "version \<Rightarrow> version \<Rightarrow> bytes \<Rightarrow> bytes \<Rightarrow> changed_version option" where
  "which_version_is_different left right left_buf right_buf =
     (let lt = vtag left; rt = vtag right
      in if major left \<noteq> major right then Some ChangedMajor
         else if minor left \<noteq> minor right then Some ChangedMinor
         else if patch left \<noteq> patch right then Some ChangedPatch
         else if has_pre lt \<noteq> has_pre rt then Some ChangedPre
         else if \<not> has_pre lt \<and> \<not> has_pre rt then None
         else if order_pre lt rt left_buf right_buf \<noteq> Equal then Some ChangedPre
         else if has_build lt \<noteq> has_build rt then Some ChangedBuild
         else if \<not> has_build lt \<and> \<not> has_build rt then None
         else if external_order (build lt) (build rt) left_buf right_buf \<noteq> Equal
           then Some ChangedBuild
         else None)"

definition order_without_tag :: "version \<Rightarrow> version \<Rightarrow> ordering" where
  "order_without_tag lhs rhs =
     (if major lhs < major rhs then Less
      else if major rhs < major lhs then Greater
      else if minor lhs < minor rhs then Less
      else if minor rhs < minor lhs then Greater
      else if patch lhs < patch rhs then Less
      else if patch rhs < patch lhs then Greater
      else if has_pre (vtag lhs) then (if \<not> has_pre (vtag rhs) then Less else Equal)
      else (if has_pre (vtag rhs) then Greater else Equal))"

definition version_order :: "version \<Rightarrow> version \<Rightarrow> bytes \<Rightarrow> bytes \<Rightarrow> ordering" where
  "version_order self rhs lhs_buf rhs_buf =
     (case order_without_tag self rhs of
        Equal \<Rightarrow> tag_order (vtag self) (vtag rhs) lhs_buf rhs_buf
      | o1 \<Rightarrow> o1)"

definition version_order_without_build :: "version \<Rightarrow> version \<Rightarrow> bytes \<Rightarrow> bytes \<Rightarrow> ordering" where
  "version_order_without_build self rhs lhs_buf rhs_buf =
     (case order_without_tag self rhs of
        Equal \<Rightarrow> tag_order_without_build (vtag self) (vtag rhs) lhs_buf rhs_buf
      | o1 \<Rightarrow> o1)"

text \<open>
  \<^verbatim>\<open>Formatter\<close>. Tags are displayed through the \<^verbatim>\<open>bstr\<close> crate, a parameter here: \<open>bstr s\<close> is what
  \<^verbatim>\<open>BStr::new(s)\<close> displays. It is documented to show UTF-8, ASCII included, unchanged.
\<close>

definition version_fmt :: "(bytes \<Rightarrow> bytes) \<Rightarrow> version \<Rightarrow> bytes \<Rightarrow> bytes" where
  "version_fmt bstr v input =
     show_u64 (major v) @ ''.'' @ show_u64 (minor v) @ ''.'' @ show_u64 (patch v) @
     (if has_pre (vtag v) then ''-'' @ bstr (external_slice (pre (vtag v)) input) else []) @
     (if has_build (vtag v) then ''+'' @ bstr (external_slice (build (vtag v)) input) else [])"

definition is_ascii :: "byte \<Rightarrow> bool" where
  "is_ascii c \<longleftrightarrow> c \<le> CHR 0x7F"

definition bstr_keeps_ascii :: "(bytes \<Rightarrow> bytes) \<Rightarrow> bool" where
  "bstr_keeps_ascii bstr \<longleftrightarrow> (\<forall>s. list_all is_ascii s \<longrightarrow> bstr s = s)"

text \<open>
  \<^verbatim>\<open>DiffFormatter\<close>: the version with the part that differs from \<open>other\<close> highlighted. The output is a
  list of colour markups (the argument of \<^verbatim>\<open>pretty_fmt!\<close>) and texts.
\<close>

datatype piece = Markup bytes | Text bytes

text \<open>\<^verbatim>\<open>write_char(c as char)\<close>: the byte as a Latin-1 character, in UTF-8.\<close>

definition write_char :: "byte \<Rightarrow> bytes" where
  "write_char c =
     (if is_ascii c then [c]
      else [char_of (0xC0 + of_char c div 64 :: nat), char_of (0x80 + of_char c mod 64 :: nat)])"

text \<open>The loop over the characters of a tag: markup goes in at the first difference.\<close>

fun diff_chars :: "byte \<Rightarrow> bytes \<Rightarrow> bytes \<Rightarrow> nat \<Rightarrow> bool \<Rightarrow> bool \<Rightarrow> piece list \<times> bool" where
  "diff_chars mark [] other i first set_color = ([], set_color)"
| "diff_chars mark (c # cs) other i first set_color =
     (let differs = \<not> set_color \<and> get other i \<noteq> Some c;
          (ps, sc) = diff_chars mark cs other (i + 1) False (set_color \<or> differs)
      in ((if differs then [Markup ''<r><b><red>''] else []) @
          (if first then [Text (write_char mark)] else []) @ Text (write_char c) # ps, sc))"

definition diff_core :: "version \<Rightarrow> changed_version \<Rightarrow> piece list" where
  "diff_core v diff =
     (let ma = show_u64 (major v); mi = show_u64 (minor v); pa = show_u64 (patch v)
      in case diff of
           ChangedMajor \<Rightarrow> [Markup ''<r><b><red>'', Text (ma @ ''.'' @ mi @ ''.'' @ pa)]
         | ChangedMinor \<Rightarrow>
             [Markup ''<d>'', Text (ma @ ''.''),
              Markup (if major v = 0 then ''<r><b><red>'' else ''<r><b><yellow>''), Text (mi @ ''.'' @ pa)]
         | ChangedPatch \<Rightarrow>
             [Markup ''<d>'', Text (ma @ ''.'' @ mi @ ''.''),
              Markup (if major v = 0 \<and> minor v = 0 then ''<r><b><red>'' else ''<r><b><green>''), Text pa]
         | _ \<Rightarrow> [Markup ''<d>'', Text (ma @ ''.'' @ mi @ ''.'' @ pa)])"

definition diff_fmt ::
  "(bytes \<Rightarrow> bytes) \<Rightarrow> bool \<Rightarrow> version \<Rightarrow> bytes \<Rightarrow> version \<Rightarrow> bytes \<Rightarrow> piece list" where
  "diff_fmt bstr colors v buf other other_buf =
     (if \<not> colors then [Text (version_fmt bstr v buf)]
      else
        (let diff = (case which_version_is_different v other buf other_buf of
                       Some d \<Rightarrow> d | None \<Rightarrow> ChangedNone);
             (pres, set_color) =
               (if has_pre (vtag v) then
                  (if has_pre (vtag other) then
                     diff_chars (CHR ''-'') (external_slice (pre (vtag v)) buf)
                       (external_slice (pre (vtag other)) other_buf) 0 True False
                   else ([Markup ''<r><b><red>'', Text (''-'' @ bstr (external_slice (pre (vtag v)) buf))], True))
                else ([], False));
             builds =
               (if has_build (vtag v) then
                  (if has_build (vtag other) then
                     fst (diff_chars (CHR ''+'') (external_slice (build (vtag v)) buf)
                       (external_slice (build (vtag other)) other_buf) 0 True set_color)
                   else (if \<not> set_color then [Markup ''<r><b><red>''] else []) @
                        [Text (''+'' @ bstr (external_slice (build (vtag v)) buf))])
                else [])
         in diff_core v diff @ pres @ builds @ [Markup ''<r>'']))"

definition version_clone_into :: "version \<Rightarrow> bytes \<Rightarrow> bytes \<Rightarrow> nat \<Rightarrow> (version \<times> bytes \<times> nat) option" where
  "version_clone_into self src buf offset =
     map_option (\<lambda>(t, b, off). (self\<lparr>vtag := t\<rparr>, b, off)) (tag_clone_into (vtag self) src buf offset)"

definition version_count :: "version \<Rightarrow> bytes \<Rightarrow> builder \<Rightarrow> builder" where
  "version_count self buf b =
     (let t = vtag self;
          b = (if has_pre t \<and> \<not> is_inline (ext_value (pre t))
               then builder_count b (external_slice (pre t) buf) else b)
      in if has_build t \<and> \<not> is_inline (ext_value (build t))
         then builder_count b (external_slice (build t) buf) else b)"

definition append_external_string :: "builder \<Rightarrow> bytes \<Rightarrow> (external_string \<times> builder) option" where
  "append_external_string b s =
     map_option (\<lambda>(v, b). (\<lparr>ext_value = v, ext_hash = string_hash s\<rparr>, b)) (builder_append b s)"

definition version_append :: "version \<Rightarrow> bytes \<Rightarrow> builder \<Rightarrow> (version \<times> builder) option" where
  "version_append self buf b =
     (let t = vtag self;
          first = (if has_pre t \<and> \<not> is_inline (ext_value (pre t))
                   then append_external_string b (external_slice (pre t) buf)
                   else Some (pre t, b))
      in case first of
           None \<Rightarrow> None
         | Some (p, b) \<Rightarrow>
             (case (if has_build t \<and> \<not> is_inline (ext_value (build t))
                    then append_external_string b (external_slice (build t) buf)
                    else Some (build t, b)) of
                None \<Rightarrow> None
              | Some (bd, b) \<Rightarrow> Some (self\<lparr>vtag := \<lparr>pre = p, build = bd\<rparr>\<rparr>, b)))"

definition valid_pre_or_build_tag_character :: "byte \<Rightarrow> bool" where
  "valid_pre_or_build_tag_character c \<longleftrightarrow>
     c = CHR ''-'' \<or> c = CHR ''+'' \<or> c = CHR ''.'' \<or> is_ascii_upper c \<or> is_ascii_lower c \<or> is_ascii_digit c"

text \<open>
  \<^verbatim>\<open>which_version_is_pinned\<close>. The labelled block that reads the operator either returns early
  (\<^verbatim>\<open>Inl\<close>) or breaks with the pin and the cursor.
\<close>

definition pinned_operator :: "bytes \<Rightarrow> pinned_version + (pinned_version \<times> nat)" where
  "pinned_operator version =
     (let j = skip_while is_version_prefix version 0
      in if j = length version then Inl PinnedMajor
         else
           (let c = version ! j
            in if c = CHR ''~'' \<or> c = CHR ''^'' then
                 (let k = skip_while (\<lambda>d. d \<in> set whitespace_chars) version (j + 1)
                  in if k < length version
                     then Inr (if c = CHR ''~'' then PinnedMinor else PinnedMajor, k)
                     else Inl PinnedMajor)
               else if is_ascii_digit c then Inr (PinnedPatch, j)
               else Inl PinnedMajor))"

text \<open>One core number: at the end of the input the answer is \<open>at_end\<close>.\<close>

definition pinned_number :: "bytes \<Rightarrow> nat \<Rightarrow> pinned_version \<Rightarrow> pinned_version + nat" where
  "pinned_number version i at_end =
     (if \<not> i < length version \<or> \<not> is_ascii_digit (version ! i) then Inl PinnedMajor
      else (let j = skip_while is_ascii_digit version i
            in if j < length version then Inr j else Inl at_end))"

definition pinned_tail :: "bytes \<Rightarrow> nat \<Rightarrow> pinned_version \<Rightarrow> pinned_version" where
  "pinned_tail version i pinned =
     (let d = version ! i; ok = (\<lambda>d. valid_pre_or_build_tag_character d \<and> \<not> is_ascii_whitespace d)
      in if \<not> ok d then PinnedMajor
         else if length version \<le> skip_while ok version (i + 1) then pinned
         else PinnedMajor)"

definition which_version_is_pinned :: "bytes \<Rightarrow> pinned_version" where
  "which_version_is_pinned input =
     (let version = trim input whitespace_chars
      in case pinned_operator version of
           Inl p \<Rightarrow> p
         | Inr (pinned, i) \<Rightarrow>
             (case pinned_number version i (if pinned = PinnedPatch then PinnedMajor else pinned) of
                Inl p \<Rightarrow> p
              | Inr i \<Rightarrow>
                  if version ! i \<noteq> CHR ''.'' then PinnedMajor
                  else case pinned_number version (i + 1)
                              (if pinned = PinnedPatch then PinnedMinor else pinned) of
                    Inl p \<Rightarrow> p
                  | Inr i \<Rightarrow>
                      if version ! i \<noteq> CHR ''.'' then PinnedMajor
                      else case pinned_number version (i + 1) pinned of
                        Inl p \<Rightarrow> p
                      | Inr i \<Rightarrow> pinned_tail version i pinned))"

definition is_tagged_version_only :: "bytes \<Rightarrow> bool" where
  "is_tagged_version_only input =
     (let version = trim input whitespace_chars
      in if version = [] \<or> \<not> is_ascii_alphabetic (version ! 0) then False
         else list_all is_ascii_alphanumeric (drop 1 version))"

section \<open>The order of versions as the order of a key\<close>

text \<open>
  Reference definition: a dot-separated identifier of a prerelease is numeric or textual, numbers
  come before text, a version without prerelease comes after every version with one, and build
  metadata only separates versions without prerelease.
\<close>

datatype ident = Numeric u64 | Alpha bytes

definition ident_of :: "bytes \<Rightarrow> ident" where
  "ident_of s = (case parse_ascii s of Some n \<Rightarrow> Numeric n | None \<Rightarrow> Alpha s)"

fun ident_cmp :: "ident \<Rightarrow> ident \<Rightarrow> ordering" where
  "ident_cmp (Numeric a) (Numeric b) = cmp a b"
| "ident_cmp (Numeric a) (Alpha t) = Less"
| "ident_cmp (Alpha s) (Numeric b) = Greater"
| "ident_cmp (Alpha s) (Alpha t) = order_bytes s t"

interpretation ident_cmp: comparison ident_cmp
proof
  show "ident_cmp a a = Equal" for a by (cases a) simp_all
  show "ident_cmp b a = reverse_ordering (ident_cmp a b)" for a b
    by (cases a; cases b) (simp_all add: cmp.c_flip [symmetric] order_bytes.c_flip [symmetric])
  show "ident_cmp a b \<noteq> Greater \<Longrightarrow> ident_cmp b d \<noteq> Greater \<Longrightarrow> ident_cmp a d \<noteq> Greater" for a b d
    by (cases a; cases b; cases d) (auto dest: order_bytes.c_trans)
qed

fun pre_cmp :: "ident list option \<Rightarrow> ident list option \<Rightarrow> ordering" where
  "pre_cmp None None = Equal"
| "pre_cmp None (Some q) = Greater"
| "pre_cmp (Some p) None = Less"
| "pre_cmp (Some p) (Some q) = lex_cmp ident_cmp p q"

interpretation pre_cmp: comparison pre_cmp
proof
  show "pre_cmp a a = Equal" for a by (cases a) (simp_all add: ident_cmp.lex_refl)
  show "pre_cmp b a = reverse_ordering (pre_cmp a b)" for a b
    by (cases a; cases b) (simp_all add: ident_cmp.lex_flip [symmetric])
  show "pre_cmp a b \<noteq> Greater \<Longrightarrow> pre_cmp b d \<noteq> Greater \<Longrightarrow> pre_cmp a d \<noteq> Greater" for a b d
    by (cases a; cases b; cases d) (auto dest: ident_cmp.lex_trans)
qed

record version_key =
  k_major :: u64
  k_minor :: u64
  k_patch :: u64
  k_pre :: "ident list option"
  k_build :: bytes

definition pre_key :: "tag \<Rightarrow> bytes \<Rightarrow> ident list option" where
  "pre_key t b = (if has_pre t then Some (map ident_of (split (external_slice (pre t) b) ''.'')) else None)"

definition version_key :: "version \<times> bytes \<Rightarrow> version_key" where
  "version_key vb =
     (case vb of (v, b) \<Rightarrow>
        \<lparr>k_major = major v, k_minor = minor v, k_patch = patch v, k_pre = pre_key (vtag v) b,
         k_build = (if has_pre (vtag v) then [] else external_slice (build (vtag v)) b)\<rparr>)"

text \<open>SemVer precedence of two keys, and precedence refined by the build metadata.\<close>

definition precedence :: "version_key \<Rightarrow> version_key \<Rightarrow> ordering" where
  "precedence =
     then_cmp (\<lambda>a b. cmp (k_major a) (k_major b))
       (then_cmp (\<lambda>a b. cmp (k_minor a) (k_minor b))
         (then_cmp (\<lambda>a b. cmp (k_patch a) (k_patch b)) (\<lambda>a b. pre_cmp (k_pre a) (k_pre b))))"

definition build_precedence :: "version_key \<Rightarrow> version_key \<Rightarrow> ordering" where
  "build_precedence = then_cmp precedence (\<lambda>a b. order_bytes (k_build a) (k_build b))"

interpretation precedence: comparison precedence
  unfolding precedence_def
  by (intro then_comparison cmp.key_comparison pre_cmp.key_comparison)

interpretation build_precedence: comparison build_precedence
  unfolding build_precedence_def
  by (intro then_comparison precedence.comparison_axioms order_bytes.key_comparison)

declare order_bytes.c_refl [simp] ident_cmp.lex_refl [simp]

lemma order_parts_lex:
  "order_parts ls rs = lex_cmp ident_cmp (map ident_of ls) (map ident_of rs)"
proof (induction ls rs rule: order_parts.induct)
  case (4 l ls r rs)
  then show ?case
    by (cases "parse_ascii l"; cases "parse_ascii r")
      (auto simp: ident_of_def [of l] ident_of_def [of r] split: ordering.split)
qed simp_all

lemma string_slice_empty: "string_is_empty s \<Longrightarrow> string_slice s b = []"
proof -
  assume e: "string_is_empty s"
  moreover have "le_bytes (raw empty_string) = 0" by (simp add: empty_string_def le_bytes_int eval_nat_numeral)
  ultimately have "inline_len s = inline_len empty_string"
    by (simp add: string_is_empty_def inline_len_def)
  then have "inline_len s = 0" by (simp add: inline_len_nul empty_string_def)
  moreover have "unat (ptr_len (string_ptr s)) = 0"
    using e by (simp add: string_is_empty_def string_ptr_def from_bits_def u64_to_bytes_def
        u32_from_bytes_def Let_def map_replicate_const le_bytes_int eval_nat_numeral char_of_def)
  ultimately show ?thesis by (auto simp: string_slice_def get_range_def Let_def)
qed

lemma cmp_bool:
  "cmp False True = Less" "cmp True False = Greater" "cmp (p::bool) p = Equal"
  by simp_all

lemma order_without_tag_eq:
  "order_without_tag v w =
     then_cmp (\<lambda>a b. cmp (major a) (major b))
       (then_cmp (\<lambda>a b. cmp (minor a) (minor b))
         (then_cmp (\<lambda>a b. cmp (patch a) (patch b))
            (\<lambda>a b. cmp (\<not> has_pre (vtag a)) (\<not> has_pre (vtag b))))) v w"
  by (auto simp: order_without_tag_def then_cmp_def cmp_def)

lemma tag_order_without_build_key:
  "has_pre t = has_pre u \<Longrightarrow>
     tag_order_without_build t u b d = pre_cmp (pre_key t b) (pre_key u d)"
  by (auto simp: tag_order_without_build_def pre_key_def order_pre_def order_parts_lex has_pre_def
      external_order_def external_slice_def string_order_def string_slice_empty)

lemma version_order_without_build_key:
  "version_order_without_build v w b d = precedence (version_key (v, b)) (version_key (w, d))"
  by (cases "cmp (major v) (major w)"; cases "cmp (minor v) (minor w)"; cases "cmp (patch v) (patch w)";
      cases "has_pre (vtag v)"; cases "has_pre (vtag w)")
    (simp_all add: version_order_without_build_def order_without_tag_eq precedence_def then_cmp_def
      version_key_def tag_order_without_build_key pre_key_def cmp_bool del: cmp_Less cmp_Equal cmp_Greater)

lemma tag_order_key:
  "has_pre t = has_pre u \<Longrightarrow>
     tag_order t u b d =
       then_cmp (\<lambda>x y. pre_cmp (pre_key t b) (pre_key u d))
         (\<lambda>x y. order_bytes (if has_pre t then [] else external_slice (build t) b)
            (if has_pre u then [] else external_slice (build u) d)) () ()"
  by (simp add: tag_order_def pre_key_def order_pre_def order_parts_lex has_pre_def then_cmp_def
      external_order_def external_slice_def string_order_def string_slice_empty order_bytes.c_refl
      split: ordering.split)

lemma version_order_key:
  "version_order v w b d = build_precedence (version_key (v, b)) (version_key (w, d))"
  by (cases "cmp (major v) (major w)"; cases "cmp (minor v) (minor w)"; cases "cmp (patch v) (patch w)";
      cases "has_pre (vtag v)"; cases "has_pre (vtag w)")
    (simp_all add: version_order_def order_without_tag_eq precedence_def build_precedence_def then_cmp_def
      version_key_def tag_order_key pre_key_def cmp_bool del: cmp_Less cmp_Equal cmp_Greater
      split: ordering.split)


text \<open>C1: the order of versions (\<^verbatim>\<open>VersionType::order\<close>) is SemVer precedence of an explicit key:
  numbers first, then a prerelease below the release, its identifiers compared one by one with
  numbers below text and a longer list above its prefix; build metadata separates only versions
  without prerelease. The order without build metadata (\<^verbatim>\<open>order_without_build\<close>) is the same
  precedence without that last step.\<close>

theorem version_order_is_precedence:
  "version_order v w b d = build_precedence (version_key (v, b)) (version_key (w, d)) \<and>
   version_order_without_build v w b d = precedence (version_key (v, b)) (version_key (w, d))"
  by (simp add: version_order_key version_order_without_build_key)

text \<open>Versions, each read through its own buffer, are totally preordered by \<^verbatim>\<open>order\<close>: comparing a
  version with itself is equal, swapping the arguments reverses the answer, and the order is
  transitive, so sorting by it is well defined.\<close>

theorem version_order_total:
  "version_order v v b b = Equal \<and>
   version_order w v d b = reverse_ordering (version_order v w b d) \<and>
   (version_order v w b d \<noteq> Greater \<longrightarrow> version_order w x d e \<noteq> Greater \<longrightarrow>
      version_order v x b e \<noteq> Greater)"
  unfolding version_order_key
  by (meson build_precedence.c_refl build_precedence.c_flip build_precedence.c_trans)

theorem version_order_total_witness:
  "version_order default_version (default_version\<lparr>major := 2\<rparr>) [] [] \<noteq> Greater"
proof -
  let ?v = "\<lambda>n. default_version\<lparr>major := n\<rparr>"
  have "version_order default_version (?v 1) [] [] = Less" "version_order (?v 1) (?v 2) [] [] = Less"
    by code_simp+
  then show ?thesis using version_order_total [of default_version "[]" "?v 1" "[]" "?v 2" "[]"] by simp
qed

section \<open>Parsing what the formatter prints\<close>

lemma wf_external:
  assumes "ss_off s + ss_len s \<le> length (ss_buf s)" "length (ss_buf s) < 2 ^ 31"
    and "CHR 0x00 \<notin> set (ss_slice s)"
  shows "external_slice (external s) (ss_buf s) = ss_slice s"
  using slice_string_init [of "ss_slice s" "ss_off s" "ss_buf s"] assms
  by (simp add: external_slice_def external_def external_init_def stored_no_nul ss_slice_def min_def)

lemma pad8_length: "length inp \<le> 8 \<Longrightarrow> length (pad8 inp) = 8"
  by (simp add: pad8_def)

lemma le_bytes_0_iff:
  assumes "length bs = 8"
  shows "le_bytes bs = 0 \<Longrightarrow> bs ! 0 = CHR 0x00"
proof -
  assume "le_bytes bs = 0"
  then have "bs = u64_to_bytes 0" using u64_to_bytes_le_bytes [of bs] assms by simp
  then show ?thesis by (simp add: u64_to_bytes_def char_of_def)
qed

lemma string_is_empty_init:
  assumes "CHR 0x00 \<notin> set inp"
  shows "string_is_empty (string_init off inp) \<longleftrightarrow> inp = []"
proof (cases "inp = []")
  case True
  then show ?thesis
    by (simp add: string_is_empty_def string_init_def empty_string_def le_bytes_int eval_nat_numeral)
next
  case ne: False
  have hd: "inp ! 0 \<noteq> CHR 0x00" using ne assms by (metis length_greater_0_conv nth_mem)
  have pk: "le_bytes (raw (pack_pointer p)) \<noteq> 0" for p
  proof
    assume "le_bytes (raw (pack_pointer p)) = 0"
    then have "bit (le_bytes (raw (pack_pointer p))) 63 = bit (0::u64) 63" by simp
    then show False by (simp add: pack_pointer_def bit_or_iff bit_top_flag)
  qed
  have pad: "le_bytes (pad8 inp) \<noteq> 0" if "length inp \<le> 8"
  proof
    assume "le_bytes (pad8 inp) = 0"
    from le_bytes_0_iff [OF pad8_length [OF that] this] show False
      using hd ne by (simp add: pad8_def nth_append)
  qed
  have "length inp = 8 \<Longrightarrow> pad8 inp = inp" by (simp add: pad8_def)
  then show ?thesis using ne pk pad
    by (auto simp: string_is_empty_def string_init_def max_inline_len_def)
qed

lemma has_pre_external:
  "CHR 0x00 \<notin> set (ss_slice s) \<Longrightarrow> string_is_empty (ext_value (external s)) \<longleftrightarrow> ss_slice s = []"
  by (simp add: external_def external_init_def string_is_empty_init)

subsection \<open>Tags\<close>

definition is_pre_char :: "byte \<Rightarrow> bool" where
  "is_pre_char c \<longleftrightarrow> is_tag_char c \<or> c = CHR ''-''"

definition tag_text :: "bytes option \<Rightarrow> bytes option \<Rightarrow> bytes" where
  "tag_text p b =
     (case p of None \<Rightarrow> [] | Some p \<Rightarrow> CHR ''-'' # p) @ (case b of None \<Rightarrow> [] | Some b \<Rightarrow> CHR ''+'' # b)"

lemma is_tag_char_neq:
  assumes "is_tag_char c"
  shows "c \<noteq> CHR ''+''" "c \<noteq> CHR ''-''" "c \<noteq> CHR 0x00" "c \<noteq> CHR '' ''"
  using assms by (auto simp: is_tag_char_def is_ascii_lower_def is_ascii_upper_def is_ascii_digit_def)

lemma tag_loop_end: "\<not> ts_i t < length (ss_slice sl) \<Longrightarrow> tag_loop sl ipc t = t"
  by (subst tag_loop.simps) simp

lemma tag_loop_char:
  assumes "ts_i t < length (ss_slice sl)" "is_tag_char (ss_slice sl ! ts_i t)"
  shows "tag_loop sl ipc t = tag_loop sl ipc (t\<lparr>ts_i := Suc (ts_i t)\<rparr>)"
  using assms is_tag_char_neq [OF assms(2)] by (subst tag_loop.simps) (simp add: Let_def)

lemma tag_loop_minus:
  assumes "ts_i t < length (ss_slice sl)" "ss_slice sl ! ts_i t = CHR ''-''"
  shows "tag_loop sl ipc t =
    tag_loop sl ipc ((if ts_state t = StNone then t\<lparr>ts_state := StPre, ts_start := Suc (ts_i t)\<rparr> else t)
      \<lparr>ts_i := Suc (ts_i t)\<rparr>)"
  using assms by (subst tag_loop.simps) (simp add: Let_def)

lemma tag_loop_plus:
  assumes "ts_i t < length (ss_slice sl)" "ss_slice sl ! ts_i t = CHR ''+''"
  shows "tag_loop sl ipc t =
    (let t1 = (if ts_state t = StPre \<or> ts_state t = StNone \<and> 0 < ipc
               then t\<lparr>ts_tag := (ts_tag t)\<lparr>pre := external (sub_range sl (ts_start t) (ts_i t))\<rparr>\<rparr> else t)
     in tag_loop sl ipc ((if ts_state t1 \<noteq> StBuild
               then t1\<lparr>ts_state := StBuild, ts_start := ts_i t + 1\<rparr> else t1)\<lparr>ts_i := ts_i t + 1\<rparr>))"
  using assms by (subst tag_loop.simps) (simp only: Let_def simp_thms if_True if_False)

lemma tag_loop_other:
  assumes "ts_i t < length (ss_slice sl)" "ss_slice sl ! ts_i t \<noteq> CHR ''+''"
    and "ss_slice sl ! ts_i t \<noteq> CHR ''-''" "\<not> is_tag_char (ss_slice sl ! ts_i t)"
  shows "tag_loop sl ipc t = (case ts_state t of
       StNone \<Rightarrow> t
     | StPre \<Rightarrow> t\<lparr>ts_tag := (ts_tag t)\<lparr>pre := external (sub_range sl (ts_start t) (ts_i t))\<rparr>, ts_state := StNone\<rparr>
     | StBuild \<Rightarrow> t\<lparr>ts_tag := (ts_tag t)\<lparr>build := external (sub_range sl (ts_start t) (ts_i t))\<rparr>, ts_state := StNone\<rparr>)"
  using assms by (subst tag_loop.simps) (simp add: Let_def)

lemma tag_loop_space:
  assumes "ts_i t < length (ss_slice sl)" "ss_slice sl ! ts_i t = CHR '' ''"
  shows "tag_loop sl ipc t = (case ts_state t of
       StNone \<Rightarrow> t
     | StPre \<Rightarrow> t\<lparr>ts_tag := (ts_tag t)\<lparr>pre := external (sub_range sl (ts_start t) (ts_i t))\<rparr>, ts_state := StNone\<rparr>
     | StBuild \<Rightarrow> t\<lparr>ts_tag := (ts_tag t)\<lparr>build := external (sub_range sl (ts_start t) (ts_i t))\<rparr>, ts_state := StNone\<rparr>)"
  using assms is_tag_char_neq(4) by (intro tag_loop_other) auto

lemma tag_loop_run:
  assumes "i \<le> j" "j \<le> length (ss_slice sl)" "ts_i t = i"
    and "ts_state t = StPre \<and> (\<forall>k. i \<le> k \<and> k < j \<longrightarrow> is_pre_char (ss_slice sl ! k)) \<or>
         ts_state t = StBuild \<and> (\<forall>k. i \<le> k \<and> k < j \<longrightarrow> valid_pre_or_build_tag_character (ss_slice sl ! k))"
  shows "tag_loop sl ipc t = tag_loop sl ipc (t\<lparr>ts_i := j\<rparr>)"
  using assms
proof (induction "j - i" arbitrary: i t)
  case 0
  then have "t = t\<lparr>ts_i := j\<rparr>" by simp
  then show ?case by metis
next
  case (Suc n)
  let ?c = "ss_slice sl ! i"
  have ij: "i < j" using Suc.hyps(2) by arith
  then have i: "ts_i t < length (ss_slice sl)" using Suc.prems(2,3) by simp
  have "is_tag_char ?c \<or> ?c = CHR ''-'' \<or> ?c = CHR ''+'' \<and> ts_state t = StBuild" and "ts_state t \<noteq> StNone"
    using Suc.prems(4) ij
    by (auto simp: is_pre_char_def valid_pre_or_build_tag_character_def is_tag_char_def)
  then have "tag_loop sl ipc t = tag_loop sl ipc (t\<lparr>ts_i := Suc i\<rparr>)"
    using tag_loop_char [OF i] tag_loop_minus [OF i] tag_loop_plus [OF i] Suc.prems(3)
    by (auto simp: Let_def)
  also have "\<dots> = tag_loop sl ipc (t\<lparr>ts_i := Suc i\<rparr>\<lparr>ts_i := j\<rparr>)"
    by (rule Suc.hyps(1) [of "Suc i"]) (use Suc.prems Suc.hyps(2) in auto)
  finally show ?case by simp
qed

text \<open>The assignments after the loop of \<^verbatim>\<open>parse_with_pre_count\<close> when no prerelease was implied.\<close>

definition tag_close :: "sliced_string \<Rightarrow> tag_scan \<Rightarrow> tag" where
  "tag_close sl t =
     (case ts_state t of
        StNone \<Rightarrow> ts_tag t
      | StPre \<Rightarrow> (ts_tag t)\<lparr>pre := external (sub_range sl (ts_start t) (ts_i t))\<rparr>
      | StBuild \<Rightarrow> (ts_tag t)\<lparr>build := external (sub_range sl (ts_start t) (ts_i t))\<rparr>)"

definition stops :: "bytes \<Rightarrow> bool" where
  "stops xs \<longleftrightarrow> xs = [] \<or> hd xs = CHR '' ''"

lemma tag_loop_close:
  assumes "stops (drop (ts_i t) (ss_slice sl))" "ts_i t \<le> length (ss_slice sl)"
  shows "tag_close sl (tag_loop sl ipc t) = tag_close sl t" "ts_i (tag_loop sl ipc t) = ts_i t"
proof -
  have "ts_i t < length (ss_slice sl) \<Longrightarrow> ss_slice sl ! ts_i t = CHR '' ''"
    using assms by (auto simp: stops_def hd_drop_conv_nth)
  then have "tag_loop sl ipc t = t \<or> tag_loop sl ipc t = (case ts_state t of
       StNone \<Rightarrow> t
     | StPre \<Rightarrow> t\<lparr>ts_tag := (ts_tag t)\<lparr>pre := external (sub_range sl (ts_start t) (ts_i t))\<rparr>, ts_state := StNone\<rparr>
     | StBuild \<Rightarrow> t\<lparr>ts_tag := (ts_tag t)\<lparr>build := external (sub_range sl (ts_start t) (ts_i t))\<rparr>, ts_state := StNone\<rparr>)"
    using tag_loop_end [of t sl] tag_loop_space [of t sl] by blast
  then show "tag_close sl (tag_loop sl ipc t) = tag_close sl t" "ts_i (tag_loop sl ipc t) = ts_i t"
    by (auto simp: tag_close_def split: tag_state.split)
qed

lemma count_markers_ge:
  "b \<le> fst (count_markers xs b p) \<and> p \<le> snd (count_markers xs b p)"
  by (induction xs b p rule: count_markers.induct) auto


text \<open>What the formatter prints of a tag, in front of a space or the end, parses to a tag that reads back.\<close>

definition tag_reads :: "tag \<Rightarrow> bytes \<Rightarrow> bytes option \<Rightarrow> bytes option \<Rightarrow> bool" where
  "tag_reads t buf p b \<longleftrightarrow>
     external_slice (pre t) buf = case_option [] id p \<and> (has_pre t \<longleftrightarrow> p \<noteq> None \<and> p \<noteq> Some []) \<and>
     external_slice (build t) buf = case_option [] id b \<and> (has_build t \<longleftrightarrow> b \<noteq> None \<and> b \<noteq> Some [])"

lemma tag_parse_close:
  assumes "ss_slice sl = c # r" "c = CHR ''-'' \<or> c = CHR ''+''"
    and "t = tag_loop sl 0 \<lparr>ts_i = 0, ts_state = StNone, ts_start = 0, ts_tag = default_tag\<rparr>"
  shows "tag_parse sl = \<lparr>tr_tag = tag_close sl t, tr_len = unat (of_nat (ts_i t) :: u32)\<rparr>"
proof -
  obtain b p where bp: "count_markers (ss_slice sl) 0 0 = (b, p)" by (cases "count_markers (ss_slice sl) 0 0")
  moreover have "0 < b \<or> 0 < p"
    using assms(1,2) bp count_markers_ge [of 1 r 0] count_markers_ge [of 0 r 1] by auto
  ultimately show ?thesis
    using assms(3) by (auto simp: tag_parse_def parse_with_pre_count_def tag_close_def Let_def)
qed

lemma tag_loop_pre:
  assumes "ss_slice sl = CHR ''-'' # p @ r" "list_all is_pre_char p"
  shows "tag_loop sl 0 \<lparr>ts_i = 0, ts_state = StNone, ts_start = 0, ts_tag = default_tag\<rparr> =
    tag_loop sl 0 \<lparr>ts_i = Suc (length p), ts_state = StPre, ts_start = 1, ts_tag = default_tag\<rparr>"
proof -
  have "tag_loop sl 0 \<lparr>ts_i = 0, ts_state = StNone, ts_start = 0, ts_tag = default_tag\<rparr> =
      tag_loop sl 0 \<lparr>ts_i = 1, ts_state = StPre, ts_start = 1, ts_tag = default_tag\<rparr>"
    using assms(1) by (subst tag_loop_minus) simp_all
  also have "\<dots> = tag_loop sl 0 (\<lparr>ts_i = 1, ts_state = StPre, ts_start = 1, ts_tag = default_tag\<rparr>\<lparr>ts_i := Suc (length p)\<rparr>)"
    by (rule tag_loop_run [of 1])
      (use assms in \<open>auto simp: list_all_length nth_Cons' nth_append\<close>)
  finally show ?thesis by simp
qed

lemma tag_loop_build:
  assumes "ss_slice sl = a @ CHR ''+'' # b @ r" "list_all valid_pre_or_build_tag_character b"
    and "ts_i t = length a" "ts_state t = StPre \<or> ts_state t = StNone"
  shows "tag_loop sl 0 t = tag_loop sl 0
    \<lparr>ts_i = length a + 1 + length b, ts_state = StBuild, ts_start = length a + 1,
     ts_tag = (if ts_state t = StPre
               then (ts_tag t)\<lparr>pre := external (sub_range sl (ts_start t) (length a))\<rparr> else ts_tag t)\<rparr>"
    (is "_ = tag_loop sl 0 ?u")
proof -
  have "tag_loop sl 0 t = tag_loop sl 0 (?u\<lparr>ts_i := length a + 1\<rparr>)"
    using assms by (cases t, subst tag_loop_plus) (auto simp: Let_def)
  also have "\<dots> = tag_loop sl 0 (?u\<lparr>ts_i := length a + 1\<rparr>\<lparr>ts_i := length a + 1 + length b\<rparr>)"
    by (rule tag_loop_run [of "length a + 1"])
      (use assms in \<open>auto simp: list_all_length nth_append nth_Cons'\<close>)
  finally show ?thesis by simp
qed


lemma nul_not_tag: "\<not> is_pre_char (CHR 0x00)" "\<not> valid_pre_or_build_tag_character (CHR 0x00)"
  by (simp_all add: is_pre_char_def valid_pre_or_build_tag_character_def is_tag_char_def
      is_ascii_lower_def is_ascii_upper_def is_ascii_digit_def)

lemma pre_char_no_nul:
  "list_all is_pre_char p \<Longrightarrow> CHR 0x00 \<notin> set p"
  "list_all valid_pre_or_build_tag_character p \<Longrightarrow> CHR 0x00 \<notin> set p"
  using nul_not_tag by (metis list_all_iff)+

definition in_bounds :: "sliced_string \<Rightarrow> bool" where
  "in_bounds sl \<longleftrightarrow> ss_off sl + ss_len sl \<le> length (ss_buf sl) \<and> length (ss_buf sl) < 2 ^ 31"

lemma length_in_bounds: "in_bounds sl \<Longrightarrow> length (ss_slice sl) = ss_len sl"
  by (auto simp: in_bounds_def ss_slice_def)

lemma sub_range_slice:
  "a \<le> b \<Longrightarrow> b \<le> length (ss_slice sl) \<Longrightarrow> ss_slice (sub_range sl a b) = range_of (ss_slice sl) a b"
  by (auto simp: sub_range_def ss_slice_def range_of_def drop_take add.commute min_def split: if_splits)

lemma in_bounds_sub_range:
  "in_bounds sl \<Longrightarrow> a \<le> b \<Longrightarrow> b \<le> length (ss_slice sl) \<Longrightarrow> in_bounds (sub_range sl a b)"
  by (simp add: length_in_bounds) (simp add: in_bounds_def sub_range_def)

lemma sub_range_buf [simp]: "ss_buf (sub_range sl a b) = ss_buf sl"
  by (simp add: sub_range_def)

lemma external_sub_range:
  assumes "in_bounds sl" "ss_slice sl = a @ x @ r" "CHR 0x00 \<notin> set x"
  shows "external_slice (external (sub_range sl (length a) (length a + length x))) (ss_buf sl) = x"
    and "string_is_empty (ext_value (external (sub_range sl (length a) (length a + length x)))) \<longleftrightarrow> x = []"
proof -
  let ?s = "sub_range sl (length a) (length a + length x)"
  have s: "ss_slice ?s = x" using assms(2) by (simp add: sub_range_slice range_of_def)
  have "in_bounds ?s" using assms(1,2) by (intro in_bounds_sub_range) auto
  then show "external_slice (external ?s) (ss_buf sl) = x"
    using wf_external [of ?s] s assms(3) by (simp add: in_bounds_def)
  show "string_is_empty (ext_value (external ?s)) \<longleftrightarrow> x = []"
    using has_pre_external [of ?s] s assms(3) by simp
qed

lemma default_external_reads [simp]:
  "external_slice default_external b = []" "string_is_empty (ext_value default_external)"
proof -
  show "string_is_empty (ext_value default_external)"
    by (simp add: default_external_def string_is_empty_def empty_string_def le_bytes_int eval_nat_numeral)
  then show "external_slice default_external b = []"
    by (simp add: external_slice_def string_slice_empty)
qed

lemma tag_parse_text:
  assumes "in_bounds sl" "ss_slice sl = tag_text p b @ r" "stops r" "p \<noteq> None \<or> b \<noteq> None"
    and "pred_option (list_all is_pre_char) p" "pred_option (list_all valid_pre_or_build_tag_character) b"
  shows "tr_len (tag_parse sl) = length (tag_text p b)" "tag_reads (tr_tag (tag_parse sl)) (ss_buf sl) p b"
proof -
  let ?init = "\<lparr>ts_i = 0, ts_state = StNone, ts_start = 0, ts_tag = default_tag\<rparr>"
  have len: "length (ss_slice sl) < 2 ^ 32" using assms(1) by (simp add: length_in_bounds) (simp add: in_bounds_def)
  have small: "unat (of_nat (length (tag_text p b)) :: u32) = length (tag_text p b)"
    using len assms(2) by (simp add: unat_of_nat)
  have hd: "\<exists>c x. ss_slice sl = c # x \<and> (c = CHR ''-'' \<or> c = CHR ''+'')"
    using assms(2,4) by (cases p; cases b) (auto simp: tag_text_def)
  have pre: "external_slice (external (sub_range sl 1 (Suc (length q)))) (ss_buf sl) = q"
    "string_is_empty (ext_value (external (sub_range sl 1 (Suc (length q))))) \<longleftrightarrow> q = []" if "p = Some q" for q
    using external_sub_range [of sl "''-''" q] that assms pre_char_no_nul(1) [of q]
    by (auto simp: tag_text_def)
  have bld: "external_slice (external (sub_range sl n (n + length d))) (ss_buf sl) = d"
    "string_is_empty (ext_value (external (sub_range sl n (n + length d)))) \<longleftrightarrow> d = []"
    if "b = Some d" "n = Suc (length (tag_text p None))" for n d
    using external_sub_range [of sl "tag_text p None @ ''+''" d r] that assms pre_char_no_nul(2) [of d]
    by (auto simp: tag_text_def)
  obtain t where t: "tag_loop sl 0 ?init = tag_loop sl 0 t" "ts_i t = length (tag_text p b)"
    "tag_reads (tag_close sl t) (ss_buf sl) p b"
  proof (cases p)
    case None
    then obtain d where d: "b = Some d" using assms(4) by auto
    let ?t = "\<lparr>ts_i = Suc (length d), ts_state = StBuild, ts_start = Suc 0, ts_tag = default_tag\<rparr>"
    have "tag_loop sl 0 ?init = tag_loop sl 0 ?t"
      using tag_loop_build [of sl "[]" d r ?init] None d assms by (simp add: tag_text_def)
    moreover have "tag_reads (tag_close sl ?t) (ss_buf sl) p b" using None d bld [of d "Suc 0"]
      by (simp add: tag_text_def tag_reads_def tag_close_def has_pre_def has_build_def default_tag_def)
    moreover have "ts_i ?t = length (tag_text p b)" using None d by (simp add: tag_text_def)
    ultimately show thesis by (intro that [of ?t])
  next
    case p: (Some q)
    let ?t = "\<lparr>ts_i = Suc (length q), ts_state = StPre, ts_start = 1, ts_tag = default_tag\<rparr>"
    have l1: "tag_loop sl 0 ?init = tag_loop sl 0 ?t"
      by (rule tag_loop_pre) (use p assms in \<open>auto simp: tag_text_def\<close>)
    show thesis
    proof (cases b)
      case None
      then show thesis using that [of ?t] l1 p pre
        by (simp add: tag_text_def tag_reads_def tag_close_def has_pre_def has_build_def default_tag_def)
    next
      case d: (Some d)
      let ?u = "\<lparr>ts_i = Suc (Suc (length q + length d)), ts_state = StBuild, ts_start = Suc (Suc (length q)),
        ts_tag = default_tag\<lparr>pre := external (sub_range sl 1 (Suc (length q)))\<rparr>\<rparr>"
      have "tag_loop sl 0 ?t = tag_loop sl 0 ?u"
        using tag_loop_build [of sl "CHR ''-'' # q" d r ?t] p d assms by (simp add: tag_text_def)
      then show thesis using that [of ?u] l1 p d pre [of q] bld [of d "Suc (Suc (length q))"]
        by (simp add: tag_text_def tag_reads_def tag_close_def has_pre_def has_build_def default_tag_def)
    qed
  qed
  have close: "tag_close sl (tag_loop sl 0 t) = tag_close sl t" "ts_i (tag_loop sl 0 t) = ts_i t"
    by (rule tag_loop_close; use assms(2,3) t(2) in simp)+
  obtain c x where "ss_slice sl = c # x" "c = CHR ''-'' \<or> c = CHR ''+''" using hd by blast
  from tag_parse_close [OF this refl] have "tag_parse sl =
      \<lparr>tr_tag = tag_close sl t, tr_len = length (tag_text p b)\<rparr>"
    using close t small by simp
  then show "tr_len (tag_parse sl) = length (tag_text p b)" "tag_reads (tr_tag (tag_parse sl)) (ss_buf sl) p b"
    using t(3) by simp_all
qed

subsection \<open>Numbers\<close>

lemma show_u64_nonempty [simp]: "show_u64 n \<noteq> []"
  by (simp add: show_u64_def)

lemma show_u64_digits: "c \<in> set (show_u64 n) \<Longrightarrow> is_ascii_digit c"
  by (simp add: show_u64_def show_nat_digits)

lemma parse_ascii_show_u64 [simp]: "parse_ascii (show_u64 n) = Some n"
  by (simp add: parse_ascii_def parse_unsigned_show_u64)

lemma skip_while_run:
  assumes "drop i xs = ys @ zs" "i \<le> length xs" "\<forall>y\<in>set ys. p y" "zs = [] \<or> \<not> p (hd zs)"
  shows "skip_while p xs i = i + length ys"
proof -
  have "takeWhile p (ys @ zs) = ys @ takeWhile p zs" using assms(3) by (intro takeWhile_append2) auto
  also have "takeWhile p zs = []" using assms(4) by (cases zs) auto
  finally show ?thesis using assms(1) by (simp add: skip_while_def)
qed

lemma skip_digits:
  assumes "drop i xs = show_u64 n @ zs" "zs = [] \<or> \<not> is_ascii_digit (hd zs)"
  shows "skip_while is_ascii_digit xs (Suc i) = i + length (show_u64 n)"
proof -
  obtain d ds where d: "show_u64 n = d # ds" by (cases "show_u64 n") auto
  have i: "i < length xs" using assms(1) d by (metis Cons_eq_appendI drop_eq_Nil2 list.distinct(1) not_le_imp_less)
  have "drop (Suc i) xs = ds @ zs" using assms(1) d by (metis append_Cons drop_Suc list.sel(3) tl_drop)
  then show ?thesis using skip_while_run [of "Suc i" xs ds zs is_ascii_digit] i assms(2) d show_u64_digits [of _ n]
    by auto
qed

lemma parse_number_arm_show:
  assumes "drop (ps_i st) input = show_u64 n @ zs" "zs = [] \<or> \<not> is_ascii_digit (hd zs)" "ps_part_i st < 3"
  shows "parse_number_arm input st =
    Inr \<lparr>ps_i = skip_dot input (ps_part_i st \<noteq> 2) (ps_i st + length (show_u64 n)), ps_part_i = ps_part_i st + 1,
         ps_result = (ps_result st)\<lparr>pr_version := set_part (ps_part_i st) (Some n) (pr_version (ps_result st))\<rparr>\<rparr>"
  using assms skip_digits [OF assms(1,2)]
  by (simp add: parse_number_arm_def Let_def range_of_def)

lemma digit_not_special:
  assumes "is_ascii_digit c"
  shows "c \<noteq> CHR '' ''" "c \<notin> {CHR ''|'', CHR ''^'', CHR ''#'', CHR ''&'', CHR ''%'', CHR ''!''}"
    "c \<noteq> CHR ''.''" "\<not> is_version_prefix c"
proof -
  have "c \<noteq> d" if "\<not> is_ascii_digit d" for d using assms that by blast
  then show "c \<noteq> CHR '' ''" "c \<notin> {CHR ''|'', CHR ''^'', CHR ''#'', CHR ''&'', CHR ''%'', CHR ''!''}"
    "c \<noteq> CHR ''.''" "\<not> is_version_prefix c"
    by (simp_all add: is_version_prefix_def is_ascii_digit_def)
qed

lemma parse_step_number:
  assumes "drop (ps_i st) (ss_slice sl) = show_u64 n @ zs"
  shows "parse_step sl st = parse_number_arm (ss_slice sl) st" "ps_i st < length (ss_slice sl)"
proof -
  obtain d ds where d: "show_u64 n = d # ds" by (cases "show_u64 n") auto
  show i: "ps_i st < length (ss_slice sl)"
    using assms d by (metis Cons_eq_appendI drop_eq_Nil2 list.distinct(1) not_le_imp_less)
  have "ss_slice sl ! ps_i st = d" using assms d i by (metis append_Cons hd_drop_conv_nth list.sel(1))
  moreover have "is_ascii_digit d" using d show_u64_digits [of d n] by simp
  ultimately show "parse_step sl st = parse_number_arm (ss_slice sl) st"
    using digit_not_special [of d] by (simp add: parse_step_def Let_def)
qed

lemma skip_dot_here:
  assumes "drop i xs = CHR ''.'' # zs"
  shows "skip_dot xs True i = Suc i" "skip_dot xs False i = i"
  using assms by (auto simp: skip_dot_def)
    (metis drop_eq_Nil2 hd_drop_conv_nth leI list.distinct(1) list.sel(1))+

lemma parse_loop_number:
  assumes "drop (ps_i st) (ss_slice sl) = show_u64 n @ zs" "zs = [] \<or> \<not> is_ascii_digit (hd zs)" "ps_part_i st < 3"
  shows "parse_loop sl st = parse_loop sl
    \<lparr>ps_i = skip_dot (ss_slice sl) (ps_part_i st \<noteq> 2) (ps_i st + length (show_u64 n)), ps_part_i = ps_part_i st + 1,
     ps_result = (ps_result st)\<lparr>pr_version := set_part (ps_part_i st) (Some n) (pr_version (ps_result st))\<rparr>\<rparr>"
  using parse_step_number [OF assms(1)] parse_number_arm_show [OF assms]
  by (subst parse_loop.simps) simp

text \<open>The state after the three numbers of \<^verbatim>\<open>a.b.c\<close>.\<close>

lemma parse_loop_core:
  assumes "drop i (ss_slice sl) = show_u64 a @ ''.'' @ show_u64 b @ ''.'' @ show_u64 c @ zs"
    and "zs = [] \<or> \<not> is_ascii_digit (hd zs)"
  shows "parse_loop sl \<lparr>ps_i = i, ps_part_i = 0, ps_result = default_parse_result\<rparr> =
    parse_loop sl
      \<lparr>ps_i = i + length (show_u64 a @ ''.'' @ show_u64 b @ ''.'' @ show_u64 c), ps_part_i = 3,
       ps_result = default_parse_result\<lparr>pr_version :=
         \<lparr>p_major = Some a, p_minor = Some b, p_patch = Some c, p_tag = default_tag\<rparr>\<rparr>\<rparr>"
proof -
  let ?s = "ss_slice sl"
  have dot: "\<not> is_ascii_digit (CHR ''.'')" by (simp add: is_ascii_digit_def)
  have d: "drop (i + length x) ?s = y" if "drop i ?s = x @ y" for i x y
    using that by (metis add.commute append_eq_conv_conj drop_drop)
  have d1: "drop (i + length (show_u64 a)) ?s = CHR ''.'' # show_u64 b @ ''.'' @ show_u64 c @ zs"
    using d [OF assms(1)] by simp
  have d2: "drop (Suc (i + length (show_u64 a))) ?s = show_u64 b @ ''.'' @ show_u64 c @ zs"
    using d [of i "show_u64 a @ ''.''"] assms(1) by simp
  have d3: "drop (Suc (i + length (show_u64 a)) + length (show_u64 b)) ?s = CHR ''.'' # show_u64 c @ zs"
    using d [OF d2] by simp
  have d4: "drop (Suc (Suc (i + length (show_u64 a)) + length (show_u64 b))) ?s = show_u64 c @ zs"
    using d [of "Suc (i + length (show_u64 a))" "show_u64 b @ ''.''"] d2 by simp
  show ?thesis
    using assms d2 d4 dot
    by (simp add: parse_loop_number [where n = a] parse_loop_number [where n = b]
        parse_loop_number [where n = c] skip_dot_here [OF d1] skip_dot_here [OF d3, simplified, simplified add.assoc] skip_dot_def [of _ False]
        set_part_def default_parse_result_def default_partial_def numeral_3_eq_3 add.assoc)
qed


lemma parse_loop_stop:
  assumes "stops (drop (ps_i st) (ss_slice sl))"
  shows "parse_loop sl st = st"
proof (cases "ps_i st < length (ss_slice sl)")
  case True
  then have "ss_slice sl ! ps_i st = CHR '' ''" using assms by (auto simp: stops_def hd_drop_conv_nth)
  then have "parse_step sl st = Inl st" by (simp add: parse_step_def Let_def)
  then show ?thesis using True by (subst parse_loop.simps) simp
qed (subst parse_loop.simps, simp)

lemma parse_loop_tag:
  assumes "in_bounds sl" "drop (ps_i st) (ss_slice sl) = tag_text p b @ r" "stops r" "p \<noteq> None \<or> b \<noteq> None"
    and "pred_option (list_all is_pre_char) p" "pred_option (list_all valid_pre_or_build_tag_character) b"
    and "ps_part_i st = 3"
  obtains t where "tag_reads t (ss_buf sl) p b"
    and "parse_loop sl st = st\<lparr>ps_i := ps_i st + length (tag_text p b),
      ps_result := (ps_result st)\<lparr>pr_version := (pr_version (ps_result st))\<lparr>p_tag := t\<rparr>\<rparr>\<rparr>"
proof -
  let ?s = "sub_range sl (ps_i st) (ss_len sl)"
  obtain c x where c: "tag_text p b @ r = c # x" "c = CHR ''-'' \<or> c = CHR ''+''"
    using assms(4) by (cases p; cases b) (auto simp: tag_text_def)
  have i: "ps_i st < length (ss_slice sl)"
    using assms(2) c(1) by (metis drop_eq_Nil2 list.distinct(1) not_le_imp_less)
  then have hd: "ss_slice sl ! ps_i st = c" using assms(2) c(1) by (metis hd_drop_conv_nth list.sel(1))
  have l: "length (ss_slice sl) = ss_len sl" by (rule length_in_bounds [OF assms(1)])
  have s: "ss_slice ?s = tag_text p b @ r" "in_bounds ?s" "ss_buf ?s = ss_buf sl"
  proof -
    have "take (ss_len sl - ps_i st) (drop (ps_i st) (ss_slice sl)) = drop (ps_i st) (ss_slice sl)"
      using l by simp
    then show "ss_slice ?s = tag_text p b @ r"
      using i l assms(2) by (simp add: sub_range_slice range_of_def)
    show "in_bounds ?s" "ss_buf ?s = ss_buf sl"
      using i l assms(1) by (simp_all add: in_bounds_sub_range)
  qed
  have tr: "tr_len (tag_parse ?s) = length (tag_text p b)" "tag_reads (tr_tag (tag_parse ?s)) (ss_buf sl) p b"
    using tag_parse_text [OF s(2,1) assms(3-6)] s(3) by simp_all
  have "parse_step sl st = Inl (parse_tag_arm sl c st)"
    using c(2) hd by (auto simp: parse_step_def Let_def is_ascii_digit_def)
  moreover have "\<not> ps_part_i st < (if c = CHR ''+'' then 1 else 2)" using assms(7) by simp
  ultimately have "parse_loop sl st = st\<lparr>ps_i := ps_i st + length (tag_text p b),
      ps_result := (ps_result st)\<lparr>pr_version := (pr_version (ps_result st))\<lparr>p_tag := tr_tag (tag_parse ?s)\<rparr>\<rparr>\<rparr>"
    using i tr(1) by (subst parse_loop.simps) (simp add: parse_tag_arm_def Let_def)
  then show thesis by (rule that [OF tr(2)])
qed

lemma tag_text_no_digit: "stops r \<Longrightarrow> tag_text p b @ r = [] \<or> \<not> is_ascii_digit (hd (tag_text p b @ r))"
  by (cases p; cases b) (auto simp: tag_text_def stops_def is_ascii_digit_def)

lemma stops_tag_text_None: "tag_text None None = []"
  by (simp add: tag_text_def)

text \<open>The parser on \<^verbatim>\<open>a.b.c\<close> with optional tags, after \<^verbatim>\<open>v\<close>, \<^verbatim>\<open>=\<close> or blanks and before a space or the end.\<close>

lemma version_parse_text:
  assumes "in_bounds sl"
    and "ss_slice sl = pfx @ show_u64 a @ ''.'' @ show_u64 b @ ''.'' @ show_u64 c @ tag_text p d @ r"
    and "list_all is_version_prefix pfx" "stops r"
    and "pred_option (list_all is_pre_char) p" "pred_option (list_all valid_pre_or_build_tag_character) d"
  obtains t where "tag_reads t (ss_buf sl) p d"
    and "version_parse sl = \<lparr>pr_wildcard = WNone, pr_valid = True, pr_overflow = False,
      pr_version = \<lparr>p_major = Some a, p_minor = Some b, p_patch = Some c, p_tag = t\<rparr>,
      pr_len = length (ss_slice sl) - length r\<rparr>"
proof -
  let ?s = "ss_slice sl" and ?core = "show_u64 a @ ''.'' @ show_u64 b @ ''.'' @ show_u64 c"
  let ?v = "\<lparr>p_major = Some a, p_minor = Some b, p_patch = Some c, p_tag = default_tag\<rparr>"
  let ?st = "\<lparr>ps_i = length pfx + length ?core, ps_part_i = 3, ps_result = default_parse_result\<lparr>pr_version := ?v\<rparr>\<rparr>"
  obtain x xs where x: "show_u64 a = x # xs" by (cases "show_u64 a") auto
  have "is_ascii_digit x" using x show_u64_digits [of x a] by simp
  then have i: "skip_while is_version_prefix ?s 0 = length pfx"
    using skip_while_run [of 0 ?s pfx _ is_version_prefix] assms(2,3) x digit_not_special(4) [of x]
    by (simp add: list_all_iff)
  have loop: "parse_loop sl \<lparr>ps_i = length pfx, ps_part_i = 0, ps_result = default_parse_result\<rparr> = parse_loop sl ?st"
    by (rule parse_loop_core [where zs = "tag_text p d @ r"])
      (use assms(2) tag_text_no_digit [OF assms(4)] in simp_all)
  have rest: "drop (length pfx + length ?core) ?s = tag_text p d @ r" using assms(2) by simp
  have parse: "version_parse sl = (ps_result st)\<lparr>pr_len := ps_i st\<rparr>"
    if "parse_loop sl ?st = st" "ps_part_i st = 3" "pr_wildcard (ps_result st) = WNone" for st
    using that i loop assms(2) x by (simp add: version_parse_def Let_def)
  show thesis
  proof (cases "p = None \<and> d = None")
    case True
    then have "parse_loop sl ?st = ?st" using parse_loop_stop [of ?st sl] rest assms(4) stops_tag_text_None by simp
    from parse [OF this] show thesis using that [of default_tag] True assms(2)
      by (simp add: tag_reads_def has_pre_def has_build_def default_tag_def default_parse_result_def stops_tag_text_None)
  next
    case False
    then obtain t where t: "tag_reads t (ss_buf sl) p d"
      and l: "parse_loop sl ?st = ?st\<lparr>ps_i := ps_i ?st + length (tag_text p d),
        ps_result := (ps_result ?st)\<lparr>pr_version := (pr_version (ps_result ?st))\<lparr>p_tag := t\<rparr>\<rparr>\<rparr>"
      by (elim parse_loop_tag [OF assms(1), of ?st p d r, rotated -1]) (use rest assms in auto)
    from parse [OF l] show thesis using that [OF t] assms(2) by (simp add: default_parse_result_def)
  qed
qed

subsection \<open>The parser stays inside its input\<close>

lemma is_inline_pad8: "can_inline inp \<Longrightarrow> is_inline \<lparr>raw = pad8 inp\<rparr>"
  by (auto simp: is_inline_def can_inline_def max_inline_len_def pad8_def nth_append split: if_splits)

lemma is_within_string_init:
  assumes "off + length inp \<le> length buf" "length buf < 2 ^ 31"
  shows "is_within (string_init off inp) buf"
proof -
  have "unat (of_nat (length inp) :: u32) = length inp" "unat (of_nat off :: u32) = off"
    using assms by (simp_all add: unat_of_nat)
  then show ?thesis using assms is_inline_pad8
    by (auto simp: string_init_cases is_within_def pack_pointer_ptr pointer_init_def Let_def)
qed

definition tag_within :: "tag \<Rightarrow> bytes \<Rightarrow> bool" where
  "tag_within t buf \<longleftrightarrow> is_within (ext_value (pre t)) buf \<and> is_within (ext_value (build t)) buf"

lemma external_within:
  assumes "in_bounds sl" "a \<le> b" "b \<le> length (ss_slice sl)"
  shows "is_within (ext_value (external (sub_range sl a b))) (ss_buf sl)"
proof -
  have "in_bounds (sub_range sl a b)" using assms by (rule in_bounds_sub_range)
  then show ?thesis
    using length_in_bounds [of "sub_range sl a b"]
    by (simp add: external_def external_init_def is_within_string_init in_bounds_def)
qed

definition scan_ok :: "sliced_string \<Rightarrow> tag_scan \<Rightarrow> bool" where
  "scan_ok sl t \<longleftrightarrow> ts_start t \<le> ts_i t \<and> ts_i t \<le> length (ss_slice sl) \<and> tag_within (ts_tag t) (ss_buf sl)"

lemma tag_loop_ok: "in_bounds sl \<Longrightarrow> scan_ok sl t \<Longrightarrow> scan_ok sl (tag_loop sl ipc t)"
proof (induction sl ipc t rule: tag_loop.induct)
  case (1 sl ipc t)
  let ?c = "ss_slice sl ! ts_i t"
  show ?case
  proof (cases "ts_i t < length (ss_slice sl)")
    case i: True
    have here: "is_within (ext_value (external (sub_range sl (ts_start t) (ts_i t)))) (ss_buf sl)"
      using "1.prems" by (intro external_within) (auto simp: scan_ok_def)
    consider "?c = CHR ''+''" | "?c = CHR ''-''" | "is_tag_char ?c"
      | "?c \<noteq> CHR ''+''" "?c \<noteq> CHR ''-''" "\<not> is_tag_char ?c" by blast
    then show ?thesis
    proof cases
      case 1
      then show ?thesis using tag_loop_plus [OF i 1] "1.IH"(1) [OF refl refl _ refl refl 1 refl refl] "1.prems" i here
        by (auto simp: Let_def scan_ok_def tag_within_def)
    next
      case 2
      then show ?thesis using tag_loop_minus [OF i 2] "1.IH"(2) [OF refl refl _ refl refl _ 2 refl] "1.prems" i here
        by (auto simp: Let_def scan_ok_def tag_within_def)
    next
      case 3
      then show ?thesis
        using tag_loop_char [OF i 3] "1.IH"(3) [OF refl refl _ refl refl] is_tag_char_neq [OF 3] "1.prems" i here
        by (auto simp: Let_def scan_ok_def tag_within_def)
    next
      case 4
      then show ?thesis using tag_loop_other [OF i 4] "1.prems" here
        by (auto simp: scan_ok_def tag_within_def split: tag_state.split)
    qed
  qed (use "1.prems" tag_loop_end in auto)
qed


lemma default_tag_within: "tag_within default_tag buf"
  by (simp add: tag_within_def default_tag_def default_external_def is_within_def is_inline_def
      empty_string_def max_inline_len_def)

lemma parse_with_pre_count_ok:
  assumes "in_bounds sl"
  shows "tr_len (parse_with_pre_count sl ipc) \<le> length (ss_slice sl) \<and>
    tag_within (tr_tag (parse_with_pre_count sl ipc)) (ss_buf sl)"
proof -
  let ?t = "tag_loop sl ipc \<lparr>ts_i = 0, ts_state = StNone, ts_start = 0, ts_tag = default_tag\<rparr>"
  have ok: "scan_ok sl ?t"
    by (rule tag_loop_ok [OF assms]) (simp add: scan_ok_def default_tag_within)
  then have "unat (of_nat (ts_i ?t) :: u32) \<le> length (ss_slice sl)"
    by (simp add: scan_ok_def unat_of_nat) (meson le_trans mod_less_eq_dividend)
  moreover have "is_within (ext_value (external (sub_range sl s (ts_i ?t)))) (ss_buf sl)" if "s \<in> {0, ts_start ?t}" for s
    using ok assms that by (intro external_within) (auto simp: scan_ok_def)
  ultimately show ?thesis
    using ok default_tag_within
    by (auto simp: parse_with_pre_count_def scan_ok_def tag_within_def Let_def split: prod.split tag_state.split)
qed


definition parse_ok :: "sliced_string \<Rightarrow> parse_state \<Rightarrow> bool" where
  "parse_ok sl st \<longleftrightarrow> ps_i st \<le> length (ss_slice sl) \<and> tag_within (p_tag (pr_version (ps_result st))) (ss_buf sl)"

lemma skip_dot_le: "i \<le> length xs \<Longrightarrow> skip_dot xs w i \<le> length xs"
  by (simp add: skip_dot_def)

lemma set_part_tag [simp]: "p_tag (set_part i n v) = p_tag v"
  by (simp add: set_part_def)

lemma tag_arm_ok:
  assumes "in_bounds sl" "i \<le> length (ss_slice sl)" "tr = parse_with_pre_count (sub_range sl i (ss_len sl)) ipc"
  shows "i + tr_len tr \<le> length (ss_slice sl) \<and> tag_within (tr_tag tr) (ss_buf sl)"
proof -
  have "length (ss_slice sl) = ss_len sl" by (rule length_in_bounds [OF assms(1)])
  then show ?thesis
    using parse_with_pre_count_ok [of "sub_range sl i (ss_len sl)" ipc] assms
    by (simp add: in_bounds_sub_range sub_range_slice range_of_def le_diff_conv2)
qed

lemma parse_number_arm_ok:
  assumes "parse_ok sl st" "ps_i st < length (ss_slice sl)"
    and "parse_number_arm (ss_slice sl) st = Inl st' \<or> parse_number_arm (ss_slice sl) st = Inr st'"
  shows "parse_ok sl st'"
proof -
  have "skip_while is_ascii_digit (ss_slice sl) (Suc (ps_i st)) \<le> length (ss_slice sl)"
    using assms(2) by (intro skip_while_le) simp
  then show ?thesis
    using assms(1,3) by (auto simp: parse_ok_def parse_number_arm_def Let_def skip_dot_le split: if_splits)
qed

lemma parse_wildcard_arm_ok:
  assumes "parse_ok sl st" "ps_i st < length (ss_slice sl)"
  shows "parse_ok sl (parse_wildcard_arm (ss_slice sl) st)"
proof -
  have "skip_while is_wildcard_char (ss_slice sl) (Suc (ps_i st)) \<le> length (ss_slice sl)"
    using assms(2) by (intro skip_while_le) simp
  then show ?thesis
    using assms by (simp add: parse_ok_def skip_dot_le) (simp add: parse_wildcard_arm_def Let_def)
qed

lemma parse_tag_arm_ok: "in_bounds sl \<Longrightarrow> parse_ok sl st \<Longrightarrow> parse_ok sl (parse_tag_arm sl c st)"
  using tag_arm_ok [of sl "ps_i st" _ 0] by (auto simp: parse_ok_def parse_tag_arm_def tag_parse_def Let_def)

lemma parse_other_arm_ok: "in_bounds sl \<Longrightarrow> parse_ok sl st \<Longrightarrow> parse_ok sl (parse_other_arm sl c st)"
  using tag_arm_ok [of sl "ps_i st" _ 1] by (auto simp: parse_ok_def parse_other_arm_def Let_def)

lemma only_inl_arms:
  "(if a then Inl x1 else if b then Inl x2 else if d then n else if e then Inl x3
    else if f then Inl x4 else if g then Inr v else Inl x5) = Inl r \<Longrightarrow>
   r = x1 \<or> r = x2 \<or> n = Inl r \<or> r = x3 \<or> r = x4 \<or> r = x5"
  by (auto split: if_splits)

lemma parse_loop_ok: "in_bounds sl \<Longrightarrow> parse_ok sl st \<Longrightarrow> parse_ok sl (parse_loop sl st)"
proof (induction sl st rule: parse_loop.induct)
  case (1 sl st)
  show ?case
  proof (cases "ps_i st < length (ss_slice sl)")
    case i: True
    let ?c = "ss_slice sl ! ps_i st"
    have inr: "parse_ok sl st'" if "parse_step sl st = Inr st'" for st'
      using parse_step_Inr [OF that] parse_number_arm_ok parse_wildcard_arm_ok "1.prems" i by blast
    have inl: "parse_ok sl st'" if step: "parse_step sl st = Inl st'" for st'
    proof -
      consider "st' = st" | "st' = st\<lparr>ps_i := ps_i st - 1\<rparr>" | "parse_number_arm (ss_slice sl) st = Inl st'"
        | "st' = st\<lparr>ps_result := (ps_result st)\<lparr>pr_valid := False\<rparr>\<rparr>"
        | "st' = parse_tag_arm sl ?c st" | "st' = parse_other_arm sl ?c st"
        using only_inl_arms [OF step [unfolded parse_step_def Let_def]] by blast
      then show ?thesis
        using "1.prems" parse_number_arm_ok [OF "1.prems"(2) i] parse_tag_arm_ok parse_other_arm_ok
        by cases (auto simp: parse_ok_def)
    qed
    show ?thesis
    proof (cases "parse_step sl st")
      case (Inl st')
      then show ?thesis using i inl by (subst parse_loop.simps) simp
    next
      case (Inr st')
      then show ?thesis using i inr "1.IH" "1.prems"(1) by (subst parse_loop.simps) simp
    qed
  qed (subst parse_loop.simps, use "1.prems" in simp)
qed

lemma version_parse_ok:
  assumes "in_bounds sl"
  shows "pr_len (version_parse sl) \<le> length (ss_slice sl) \<and>
    tag_within (p_tag (pr_version (version_parse sl))) (ss_buf sl)"
proof -
  let ?i = "skip_while is_version_prefix (ss_slice sl) 0"
  have d: "tag_within (p_tag (pr_version default_parse_result)) (ss_buf sl)"
    by (simp add: default_parse_result_def default_partial_def default_tag_within)
  have i: "?i \<le> length (ss_slice sl)" by (intro skip_while_le) simp
  have "parse_ok sl (parse_loop sl \<lparr>ps_i = ?i, ps_part_i = 0, ps_result = default_parse_result\<rparr>)"
    by (rule parse_loop_ok [OF assms]) (simp add: parse_ok_def i d)
  then show ?thesis using d i
    by (simp add: version_parse_def Let_def parse_ok_def) (simp add: default_parse_result_def)
qed

text \<open>C33: whatever the input, the version parser stops inside it (the length it reports never runs past
  the slice), and the prerelease and build handles of its result point inside the buffer, so reading
  them later cannot go out of bounds.\<close>

theorem version_parse_in_bounds:
  assumes "in_bounds sl"
  shows "pr_len (version_parse sl) \<le> length (ss_slice sl) \<and>
    is_within (ext_value (pre (p_tag (pr_version (version_parse sl))))) (ss_buf sl) \<and>
    is_within (ext_value (build (p_tag (pr_version (version_parse sl))))) (ss_buf sl)"
  using version_parse_ok [OF assms] by (simp add: tag_within_def)

theorem version_parse_in_bounds_witness:
  "pr_len (version_parse (sliced_init ''1.2.3-beta.1+build.20240101 || 2'')) \<le> 32"
  using version_parse_in_bounds [of "sliced_init ''1.2.3-beta.1+build.20240101 || 2''"]
  by (simp add: in_bounds_def sliced_init_def ss_slice_def)

subsection \<open>Round trip\<close>

lemma trim_end_id: "e \<noteq> 0 \<Longrightarrow> s ! (e - 1) \<notin> set cs \<Longrightarrow> trim_end s cs e = e"
  by (cases e) simp_all

lemma trimmed_id:
  assumes "s \<noteq> []" "\<forall>c\<in>set s. c \<notin> set whitespace_chars"
  shows "trimmed (sliced_init s) = sliced_init s"
proof -
  have sl: "ss_slice (sliced_init s) = s" by (simp add: sliced_init_def ss_slice_def)
  have "skip_while (\<lambda>c. c \<in> set whitespace_chars) s 0 = 0"
    using assms by (subst skip_while_step) simp
  moreover have "trim_end s whitespace_chars (length s) = length s"
    using assms by (intro trim_end_id) auto
  ultimately show ?thesis by (simp add: trimmed_def sl trim_left_def sub_range_def Let_def) (simp add: sliced_init_def)
qed

lemma digit_valid: "is_ascii_digit c \<Longrightarrow> valid_pre_or_build_tag_character c"
  and pre_valid: "is_pre_char c \<Longrightarrow> valid_pre_or_build_tag_character c"
  by (auto simp: valid_pre_or_build_tag_character_def is_pre_char_def is_tag_char_def)

lemma valid_not_space: "valid_pre_or_build_tag_character c \<Longrightarrow> c \<notin> set whitespace_chars"
proof
  assume v: "valid_pre_or_build_tag_character c" and "c \<in> set whitespace_chars"
  then have "c = CHR '' '' \<or> c = CHR 0x09 \<or> c = CHR 0x0A \<or> c = CHR 0x0D \<or> c = CHR 0x0B \<or> c = CHR 0x0C"
    by (simp add: whitespace_chars_def)
  with v show False
    by (elim disjE) (simp_all add: valid_pre_or_build_tag_character_def is_ascii_lower_def is_ascii_upper_def is_ascii_digit_def)
qed

definition tag_chars_ok :: "version \<Rightarrow> bytes \<Rightarrow> bool" where
  "tag_chars_ok v b \<longleftrightarrow>
     (let p = external_slice (pre (vtag v)) b; d = external_slice (build (vtag v)) b
      in list_all is_pre_char p \<and> list_all valid_pre_or_build_tag_character d \<and>
         has_pre (vtag v) = (p \<noteq> []) \<and> has_build (vtag v) = (d \<noteq> []))"

abbreviation pre_text :: "version \<Rightarrow> bytes \<Rightarrow> bytes option" where
  "pre_text v b \<equiv> (if has_pre (vtag v) then Some (external_slice (pre (vtag v)) b) else None)"

abbreviation build_text :: "version \<Rightarrow> bytes \<Rightarrow> bytes option" where
  "build_text v b \<equiv> (if has_build (vtag v) then Some (external_slice (build (vtag v)) b) else None)"

lemma valid_is_ascii: "valid_pre_or_build_tag_character c \<Longrightarrow> is_ascii c"
proof -
  assume "valid_pre_or_build_tag_character c"
  then have "c \<le> CHR ''z''"
    by (auto simp: valid_pre_or_build_tag_character_def is_ascii_lower_def is_ascii_upper_def is_ascii_digit_def
        elim: order.trans)
  then show ?thesis by (auto simp: is_ascii_def elim: order.trans)
qed

lemma bstr_build:
  "bstr_keeps_ascii bstr \<Longrightarrow> list_all valid_pre_or_build_tag_character s \<Longrightarrow> bstr s = s"
  using valid_is_ascii by (auto simp: bstr_keeps_ascii_def list_all_iff)

lemma bstr_pre: "bstr_keeps_ascii bstr \<Longrightarrow> list_all is_pre_char s \<Longrightarrow> bstr s = s"
  using bstr_build [of bstr s] pre_valid by (auto simp: list_all_iff)

lemma version_fmt_tag_text:
  "bstr_keeps_ascii bstr \<Longrightarrow> tag_chars_ok v b \<Longrightarrow>
   version_fmt bstr v b = show_u64 (major v) @ ''.'' @ show_u64 (minor v) @ ''.'' @ show_u64 (patch v) @
     tag_text (pre_text v b) (build_text v b)"
  by (simp add: version_fmt_def tag_text_def tag_chars_ok_def Let_def bstr_pre bstr_build)

lemma version_fmt_chars:
  assumes "bstr_keeps_ascii bstr" "tag_chars_ok v b"
  shows "list_all valid_pre_or_build_tag_character (version_fmt bstr v b)"
proof -
  have s: "list_all valid_pre_or_build_tag_character (show_u64 n)" for n
    using show_u64_digits [of _ n] digit_valid by (auto simp: list_all_iff)
  have m: "valid_pre_or_build_tag_character (CHR ''.'')" "valid_pre_or_build_tag_character (CHR ''-'')"
    "valid_pre_or_build_tag_character (CHR ''+'')" by (simp_all add: valid_pre_or_build_tag_character_def)
  have "list_all valid_pre_or_build_tag_character (external_slice (pre (vtag v)) b)"
    using assms(2) pre_valid by (auto simp: tag_chars_ok_def list_all_iff Let_def)
  then show ?thesis
    using assms s m by (simp add: version_fmt_def tag_chars_ok_def Let_def bstr_pre bstr_build)
qed

lemma parse_exact_no_space:
  assumes "list_all valid_pre_or_build_tag_character s" "s \<noteq> []"
  shows "parse_exact (sliced_init s) =
    (let parsed = version_parse (sliced_init s)
     in if pr_valid parsed \<and> pr_wildcard parsed = WNone \<and> pr_len parsed = length s
        then Some (partial_min (pr_version parsed)) else None)"
  using assms trimmed_id [of s] valid_not_space
  by (simp add: parse_exact_def Let_def list_all_iff ss_slice_def [of "sliced_init s"]) (simp add: sliced_init_def)

lemma version_fmt_cong:
  assumes "major w = major v" "minor w = minor v" "patch w = patch v"
    and "external_slice (pre (vtag w)) s = external_slice (pre (vtag v)) b" "has_pre (vtag w) = has_pre (vtag v)"
    and "external_slice (build (vtag w)) s = external_slice (build (vtag v)) b" "has_build (vtag w) = has_build (vtag v)"
  shows "version_fmt bstr w s = version_fmt bstr v b"
  using assms by (simp add: version_fmt_def)

text \<open>C6: printing a version and parsing the text exactly (\<^verbatim>\<open>parse_exact\<close>) gives a version that is equal in
  the version order, build metadata included, and prints the same text. The prerelease and the
  build metadata are any identifiers the grammar allows.\<close>

theorem parse_exact_fmt:
  assumes "bstr_keeps_ascii bstr" "tag_chars_ok v b" "length (version_fmt bstr v b) < 2 ^ 31"
  shows "\<exists>w. parse_exact (sliced_init (version_fmt bstr v b)) = Some w \<and>
    version_order w v (version_fmt bstr v b) b = Equal \<and> version_fmt bstr w (version_fmt bstr v b) = version_fmt bstr v b"
proof -
  let ?s = "version_fmt bstr v b"
  have ok: "pred_option (list_all is_pre_char) (pre_text v b)"
    "pred_option (list_all valid_pre_or_build_tag_character) (build_text v b)"
    using assms(2) by (simp_all add: tag_chars_ok_def Let_def)
  have sl: "in_bounds (sliced_init ?s)" "ss_slice (sliced_init ?s) = ?s" "ss_buf (sliced_init ?s) = ?s"
    using assms(3) by (simp_all add: in_bounds_def sliced_init_def ss_slice_def)
  obtain t where t: "tag_reads t ?s (pre_text v b) (build_text v b)"
    and p: "version_parse (sliced_init ?s) = \<lparr>pr_wildcard = WNone, pr_valid = True, pr_overflow = False,
      pr_version = \<lparr>p_major = Some (major v), p_minor = Some (minor v), p_patch = Some (patch v), p_tag = t\<rparr>,
      pr_len = length ?s - length []\<rparr>"
    using version_parse_text [OF sl(1), of "[]" "major v" "minor v" "patch v" "pre_text v b" "build_text v b" "[]"] ok sl
      version_fmt_tag_text [OF assms(1,2)] by (auto simp: stops_def)
  let ?w = "\<lparr>major = major v, minor = minor v, patch = patch v, vtag = t\<rparr>"
  have "?s \<noteq> []" by (simp add: version_fmt_def)
  then have "parse_exact (sliced_init ?s) = Some ?w"
    using parse_exact_no_space [OF version_fmt_chars [OF assms(1,2)]] p by (simp add: partial_min_def)
  moreover have r: "external_slice (pre t) ?s = external_slice (pre (vtag v)) b" "has_pre t = has_pre (vtag v)"
    "external_slice (build t) ?s = external_slice (build (vtag v)) b" "has_build t = has_build (vtag v)"
    using t assms(2) by (auto simp: tag_reads_def tag_chars_ok_def Let_def)
  moreover have "version_fmt bstr ?w ?s = ?s" using r by (intro version_fmt_cong) simp_all
  moreover have "version_key (?w, ?s) = version_key (v, b)" using r by (simp add: version_key_def pre_key_def)
  ultimately show ?thesis by (auto simp: version_order_key build_precedence.c_refl)
qed

definition bstr_lossy :: "bytes \<Rightarrow> bytes" where
  "bstr_lossy s = concat (map (\<lambda>c. if is_ascii c then [c] else [CHR 0xEF, CHR 0xBF, CHR 0xBD]) s)"

lemma bstr_lossy_ascii: "bstr_keeps_ascii bstr_lossy"
  unfolding bstr_keeps_ascii_def
proof (intro allI impI)
  fix s
  show "list_all is_ascii s \<Longrightarrow> bstr_lossy s = s" by (induction s) (simp_all add: bstr_lossy_def)
qed

theorem parse_exact_fmt_witness:
  "\<exists>w. parse_exact (sliced_init ''1.20.3-beta.1'') = Some w \<and>
     version_fmt bstr_lossy w ''1.20.3-beta.1'' = ''1.20.3-beta.1''"
proof -
  let ?v = "\<lparr>major = 1, minor = 20, patch = 3, vtag = \<lparr>pre = external (sliced_init ''beta.1''), build = default_external\<rparr>\<rparr>"
  have f: "version_fmt bstr_lossy ?v [] = ''1.20.3-beta.1''" by code_simp
  have "tag_chars_ok ?v []" by code_simp
  then show ?thesis using parse_exact_fmt [OF bstr_lossy_ascii, of ?v "[]"] f by auto
qed

fun plain :: "piece list \<Rightarrow> bytes" where
  "plain [] = []"
| "plain (Markup m # ps) = plain ps"
| "plain (Text t # ps) = t @ plain ps"

lemma plain_append [simp]: "plain (ps @ qs) = plain ps @ plain qs"
  by (induction ps rule: plain.induct) simp_all

lemma plain_diff_chars:
  "list_all is_ascii cs \<Longrightarrow> is_ascii mark \<Longrightarrow>
   plain (fst (diff_chars mark cs other i first sc)) = (if first \<and> cs \<noteq> [] then mark # cs else cs)"
  by (induction cs arbitrary: i first sc) (simp_all add: Let_def write_char_def case_prod_beta)

lemma plain_diff_core:
  "plain (diff_core v d) = show_u64 (major v) @ ''.'' @ show_u64 (minor v) @ ''.'' @ show_u64 (patch v)"
  by (cases d) (simp_all add: diff_core_def Let_def)

text \<open>Highlighting changes nothing but colours: without its markup, the output of
  \<^verbatim>\<open>DiffFormatter\<close> is exactly what \<^verbatim>\<open>Formatter\<close> prints, whatever the other version is.\<close>

theorem diff_fmt_plain:
  assumes "bstr_keeps_ascii bstr" "tag_chars_ok v b"
  shows "plain (diff_fmt bstr colors v b other ob) = version_fmt bstr v b"
proof -
  let ?p = "external_slice (pre (vtag v)) b" and ?d = "external_slice (build (vtag v)) b"
  have a: "list_all is_ascii ?p" "list_all is_ascii ?d"
    using assms(2) pre_valid valid_is_ascii by (auto simp: tag_chars_ok_def Let_def list_all_iff)
  have m: "is_ascii (CHR ''-'')" "is_ascii (CHR ''+'')" by (simp_all add: is_ascii_def)
  have b: "bstr ?p = ?p" "bstr ?d = ?d" using a assms(1) by (simp_all add: bstr_keeps_ascii_def)
  have ne: "has_pre (vtag v) \<Longrightarrow> ?p \<noteq> []" "has_build (vtag v) \<Longrightarrow> ?d \<noteq> []"
    using assms(2) by (simp_all add: tag_chars_ok_def Let_def)
  have pp: "plain ps = CHR ''-'' # ?p" if "diff_chars (CHR ''-'') ?p o1 0 True s = (ps, s')" "has_pre (vtag v)" for o1 s ps s'
    using plain_diff_chars [OF a(1) m(1), of o1 0 True s] that ne(1) by simp
  show ?thesis
    using ne pp plain_diff_chars [OF a(2) m(2)] b
    by (auto simp: diff_fmt_def version_fmt_def plain_diff_core Let_def split: prod.split)
qed

theorem diff_fmt_plain_witness:
  "plain (diff_fmt bstr_lossy True
     \<lparr>major = 1, minor = 2, patch = 3, vtag = \<lparr>pre = external (sliced_init ''rc.2''), build = default_external\<rparr>\<rparr> []
     \<lparr>major = 1, minor = 2, patch = 3, vtag = \<lparr>pre = external (sliced_init ''rc.1''), build = default_external\<rparr>\<rparr> [])
   = ''1.2.3-rc.2''"
proof -
  let ?v = "\<lparr>major = 1, minor = 2, patch = 3, vtag = \<lparr>pre = external (sliced_init ''rc.2''), build = default_external\<rparr>\<rparr>"
  have "version_fmt bstr_lossy ?v [] = ''1.2.3-rc.2''" "tag_chars_ok ?v []" by code_simp+
  then show ?thesis using diff_fmt_plain [OF bstr_lossy_ascii, of ?v "[]"] by simp
qed

text \<open>The constant \<^verbatim>\<open>ZERO_PRE\<close>, the bound that excludes every prerelease, is the tag the parser itself
  builds for \<^verbatim>\<open>-0\<close>, stored bytes and hash included.\<close>

theorem zero_pre_parsed: "zero_pre = tr_tag (tag_parse (sliced_init ''-0''))"
  by code_simp


end
