(* ===== verification/Semver_Range.thy ===== *)
theory Semver_Range
  imports Semver_Version
begin

text \<open>
  \<^verbatim>\<open>src/semver/SemverRange.rs\<close>: comparators (an operator and a version) and ranges (one or two
  comparators joined by AND), with \<^verbatim>\<open>Token::to_range\<close> and \<^verbatim>\<open>Range::caret\<close> of
  \<^verbatim>\<open>SemverQuery.rs\<close>, which desugar \<^verbatim>\<open>^\<close>, \<^verbatim>\<open>~\<close>, operators and wildcards into them.

  The lemmas give the meaning of each comparator on versions without prerelease as an order on the
  three numbers, that of the desugared forms, and that the null set is empty.
\<close>

section \<open>Comparators\<close>

datatype op = Unset | Eql | Lt | Lte | Gt | Gte

record comparator =
  c_op :: op
  c_version :: version

record range =
  r_left :: comparator
  r_right :: comparator

definition default_comparator :: comparator where
  "default_comparator = \<lparr>c_op = Unset, c_version = default_version\<rparr>"

definition default_range :: range where
  "default_range = \<lparr>r_left = default_comparator, r_right = default_comparator\<rparr>"

definition null_comparator :: comparator where
  "null_comparator = \<lparr>c_op = Lt, c_version = default_version\<lparr>vtag := zero_pre\<rparr>\<rparr>"

definition lt_next_major :: "u64 \<Rightarrow> comparator" where
  "lt_next_major ma =
     (case checked_add_u64 ma 1 of
        Some m \<Rightarrow> \<lparr>c_op = Lt, c_version = default_version\<lparr>major := m, vtag := zero_pre\<rparr>\<rparr>
      | None \<Rightarrow> \<lparr>c_op = Lte,
          c_version = default_version\<lparr>major := u64_max, minor := u64_max, patch := u64_max\<rparr>\<rparr>)"

definition lt_next_minor :: "u64 \<Rightarrow> u64 \<Rightarrow> comparator" where
  "lt_next_minor ma mi =
     (case checked_add_u64 mi 1 of
        Some m \<Rightarrow> \<lparr>c_op = Lt, c_version = default_version\<lparr>major := ma, minor := m, vtag := zero_pre\<rparr>\<rparr>
      | None \<Rightarrow> \<lparr>c_op = Lte,
          c_version = default_version\<lparr>major := ma, minor := u64_max, patch := u64_max\<rparr>\<rparr>)"

definition lt_next_patch :: "u64 \<Rightarrow> u64 \<Rightarrow> u64 \<Rightarrow> comparator" where
  "lt_next_patch ma mi pa =
     (case checked_add_u64 pa 1 of
        Some p \<Rightarrow> \<lparr>c_op = Lt,
          c_version = default_version\<lparr>major := ma, minor := mi, patch := p, vtag := zero_pre\<rparr>\<rparr>
      | None \<Rightarrow> \<lparr>c_op = Lte,
          c_version = default_version\<lparr>major := ma, minor := mi, patch := u64_max\<rparr>\<rparr>)"

definition gte_next_major :: "u64 \<Rightarrow> tag \<Rightarrow> comparator" where
  "gte_next_major ma t =
     (case checked_add_u64 ma 1 of
        Some m \<Rightarrow> \<lparr>c_op = Gte, c_version = default_version\<lparr>major := m, vtag := t\<rparr>\<rparr>
      | None \<Rightarrow> null_comparator)"

definition gte_next_minor :: "u64 \<Rightarrow> u64 \<Rightarrow> tag \<Rightarrow> comparator" where
  "gte_next_minor ma mi t =
     (case checked_add_u64 mi 1 of
        Some m \<Rightarrow> \<lparr>c_op = Gte, c_version = default_version\<lparr>major := ma, minor := m, vtag := t\<rparr>\<rparr>
      | None \<Rightarrow> gte_next_major ma t)"

definition comparator_eql :: "comparator \<Rightarrow> comparator \<Rightarrow> bool" where
  "comparator_eql self rhs \<longleftrightarrow> c_op self = c_op rhs \<and> version_eql (c_version self) (c_version rhs)"

definition comparator_satisfies :: "comparator \<Rightarrow> version \<Rightarrow> bytes \<Rightarrow> bytes \<Rightarrow> bool" where
  "comparator_satisfies self version comparator_buf version_buf =
     (case version_order_without_build version (c_version self) version_buf comparator_buf of
        Equal \<Rightarrow> c_op self \<in> {Lte, Gte, Eql}
      | Greater \<Rightarrow> c_op self \<in> {Gt, Gte}
      | Less \<Rightarrow>
          (case c_op self of
             Gte \<Rightarrow> is_zero (c_version self) \<and> \<not> has_pre (vtag (c_version self))
           | op \<Rightarrow> op \<in> {Lt, Lte}))"

definition comparator_fmt :: "(bytes \<Rightarrow> bytes) \<Rightarrow> comparator \<Rightarrow> bytes \<Rightarrow> bytes" where
  "comparator_fmt bstr c buf =
     (case c_op c of
        Unset \<Rightarrow> []
      | Eql \<Rightarrow> ''=='' @ version_fmt bstr (c_version c) buf
      | Lt \<Rightarrow> ''<'' @ version_fmt bstr (c_version c) buf
      | Lte \<Rightarrow> ''<='' @ version_fmt bstr (c_version c) buf
      | Gt \<Rightarrow> ''>'' @ version_fmt bstr (c_version c) buf
      | Gte \<Rightarrow> ''>='' @ version_fmt bstr (c_version c) buf)"

section \<open>Ranges\<close>

definition init_wildcard :: "version \<Rightarrow> wildcard \<Rightarrow> tag \<Rightarrow> range" where
  "init_wildcard version wildcard floor =
     (case wildcard of
        WNone \<Rightarrow> default_range\<lparr>r_left := \<lparr>c_op = Eql, c_version = version\<rparr>\<rparr>
      | WMajor \<Rightarrow>
          default_range\<lparr>r_left := \<lparr>c_op = Gte, c_version = default_version\<lparr>vtag := floor\<rparr>\<rparr>\<rparr>
      | WMinor \<Rightarrow>
          \<lparr>r_left = lt_next_major (major version),
           r_right = \<lparr>c_op = Gte,
             c_version = default_version\<lparr>major := major version, vtag := floor\<rparr>\<rparr>\<rparr>
      | WPatch \<Rightarrow>
          \<lparr>r_left = lt_next_minor (major version) (minor version),
           r_right = \<lparr>c_op = Gte,
             c_version = default_version\<lparr>major := major version, minor := minor version,
               vtag := floor\<rparr>\<rparr>\<rparr>)"

definition has_left :: "range \<Rightarrow> bool" where
  "has_left r \<longleftrightarrow> c_op (r_left r) \<noteq> Unset"

definition has_right :: "range \<Rightarrow> bool" where
  "has_right r \<longleftrightarrow> c_op (r_right r) \<noteq> Unset"

definition range_eql :: "range \<Rightarrow> range \<Rightarrow> bool" where
  "range_eql self rhs \<longleftrightarrow>
     comparator_eql (r_left self) (r_left rhs) \<and> comparator_eql (r_right self) (r_right rhs)"

definition range_satisfies :: "range \<Rightarrow> version \<Rightarrow> bytes \<Rightarrow> bytes \<Rightarrow> bool" where
  "range_satisfies self version range_buf version_buf =
     (if \<not> has_left self then True
      else if \<not> comparator_satisfies (r_left self) version range_buf version_buf then False
      else if has_right self \<and> \<not> comparator_satisfies (r_right self) version range_buf version_buf
        then False
      else True)"

text \<open>\<^verbatim>\<open>satisfies_pre\<close> also returns the new value of its \<^verbatim>\<open>pre_matched\<close> argument.\<close>

definition same_core :: "version \<Rightarrow> version \<Rightarrow> bool" where
  "same_core v w \<longleftrightarrow> patch v = patch w \<and> minor v = minor w \<and> major v = major w"

definition range_satisfies_pre ::
  "range \<Rightarrow> version \<Rightarrow> bytes \<Rightarrow> bytes \<Rightarrow> bool \<Rightarrow> bool \<times> bool" where
  "range_satisfies_pre self version range_buf version_buf pre_matched =
     (if \<not> has_left self then (True, pre_matched)
      else
        (let left = c_version (r_left self); right = c_version (r_right self);
             pre_matched = (pre_matched \<or> has_pre (vtag left) \<and> same_core version left \<or>
               has_right self \<and> has_pre (vtag right) \<and> same_core version right)
         in if \<not> comparator_satisfies (r_left self) version range_buf version_buf
              then (False, pre_matched)
            else if has_right self \<and> \<not> comparator_satisfies (r_right self) version range_buf version_buf
              then (False, pre_matched)
            else (True, pre_matched)))"

definition range_fmt :: "(bytes \<Rightarrow> bytes) \<Rightarrow> range \<Rightarrow> bytes \<Rightarrow> bytes" where
  "range_fmt bstr r buf =
     (if c_op (r_left r) = Unset \<and> c_op (r_right r) = Unset then []
      else if c_op (r_right r) = Unset then comparator_fmt bstr (r_left r) buf
      else comparator_fmt bstr (r_left r) buf @ '' '' @ comparator_fmt bstr (r_right r) buf)"

section \<open>Tokens\<close>

datatype token_tag = TNone | TGt | TGte | TLt | TLte | TVersion | TTilda | TCaret

record token =
  t_tag :: token_tag
  t_wildcard :: wildcard

definition default_token :: token where
  "default_token = \<lparr>t_tag = TNone, t_wildcard = WNone\<rparr>"

text \<open>The two labelled blocks of \<^verbatim>\<open>to_range\<close>.\<close>

definition caret_range :: "parse_result \<Rightarrow> tag \<Rightarrow> range" where
  "caret_range parsed floor =
     (let version = pr_version parsed
      in case p_major version of
           None \<Rightarrow>
             (if pr_valid parsed then init_wildcard (partial_min version) WMajor floor
              else default_range)
         | Some ma \<Rightarrow>
             (let left = default_version\<lparr>major := ma, vtag := floor\<rparr>
              in case p_minor version of
                   None \<Rightarrow> \<lparr>r_left = \<lparr>c_op = Gte, c_version = left\<rparr>, r_right = lt_next_major ma\<rparr>
                 | Some mi \<Rightarrow>
                     (let left = left\<lparr>minor := mi\<rparr>
                      in case p_patch version of
                           Some pa \<Rightarrow>
                             (let left = left\<lparr>patch := pa, vtag := p_tag version\<rparr>
                              in if ma = 0 then
                                   (let left = (if \<not> has_pre (p_tag version)
                                                then left\<lparr>vtag := (vtag left)\<lparr>pre := pre floor\<rparr>\<rparr> else left)
                                    in \<lparr>r_left = \<lparr>c_op = Gte, c_version = left\<rparr>,
                                        r_right = (if mi = 0 then lt_next_patch 0 0 pa
                                                   else lt_next_minor 0 mi)\<rparr>)
                                 else \<lparr>r_left = \<lparr>c_op = Gte, c_version = left\<rparr>,
                                       r_right = lt_next_major ma\<rparr>)
                         | None \<Rightarrow>
                             \<lparr>r_left = \<lparr>c_op = Gte, c_version = left\<rparr>,
                              r_right = (if ma = 0 then lt_next_minor 0 mi else lt_next_major ma)\<rparr>)))"

definition tilda_range :: "parse_result \<Rightarrow> tag \<Rightarrow> range" where
  "tilda_range parsed floor =
     (let version = pr_version parsed
      in case p_major version of
           None \<Rightarrow>
             (if pr_valid parsed then init_wildcard (partial_min version) WMajor floor
              else default_range)
         | Some ma \<Rightarrow>
             (let left = default_version\<lparr>major := ma\<rparr>
              in case p_minor version of
                   None \<Rightarrow> \<lparr>r_left = \<lparr>c_op = Gte, c_version = left\<rparr>, r_right = lt_next_major ma\<rparr>
                 | Some mi \<Rightarrow>
                     (let left = left\<lparr>minor := mi\<rparr>;
                          left = (case p_patch version of
                                    Some pa \<Rightarrow> left\<lparr>patch := pa, vtag := p_tag version\<rparr>
                                  | None \<Rightarrow> left)
                      in \<lparr>r_left = \<lparr>c_op = Gte, c_version = left\<rparr>, r_right = lt_next_minor ma mi\<rparr>)))"

text \<open>node-semver's \<^verbatim>\<open>replaceXRange\<close>, for the operators \<^verbatim>\<open><\<close>, \<^verbatim>\<open><=\<close>, \<^verbatim>\<open>>\<close> and \<^verbatim>\<open>>=\<close>.\<close>

definition operator_range :: "op \<Rightarrow> wildcard \<Rightarrow> parse_result \<Rightarrow> tag \<Rightarrow> range" where
  "operator_range op wildcard parsed floor =
     (let version = pr_version parsed;
          ma = case_option 0 id (p_major version); mi = case_option 0 id (p_minor version);
          first_of_partial = (\<lambda>t. \<lparr>c_op = op, c_version = default_version\<lparr>major := ma, minor := mi, vtag := t\<rparr>\<rparr>);
          only = (\<lambda>left. default_range\<lparr>r_left := left\<rparr>)
      in if wildcard = WNone then only \<lparr>c_op = op, c_version = partial_min version\<rparr>
         else if op \<in> {Gt, Lt} \<and> wildcard = WMajor \<and> pr_valid parsed then only null_comparator
         else if wildcard = WMajor then init_wildcard (partial_min version) WMajor floor
         else if op = Gte then only (first_of_partial floor)
         else if op = Lt then only (first_of_partial zero_pre)
         else if op = Gt \<and> wildcard = WMinor then only (gte_next_major ma floor)
         else if op = Gt \<and> wildcard = WPatch then only (gte_next_minor ma mi floor)
         else if wildcard = WMinor then only (lt_next_major ma)
         else only (lt_next_minor ma mi))"

text \<open>\<^verbatim>\<open>None\<close> is the \<^verbatim>\<open>unreachable!()\<close> of a token without tag.\<close>

definition to_range :: "token \<Rightarrow> parse_result \<Rightarrow> tag \<Rightarrow> range option" where
  "to_range self parsed floor =
     (case t_tag self of
        TCaret \<Rightarrow> Some (caret_range parsed floor)
      | TTilda \<Rightarrow> Some (tilda_range parsed floor)
      | TNone \<Rightarrow> None
      | TVersion \<Rightarrow>
          Some (if t_wildcard self \<noteq> WNone
                then init_wildcard (partial_min (pr_version parsed)) (t_wildcard self) floor
                else default_range\<lparr>r_left := \<lparr>c_op = Eql, c_version = partial_min (pr_version parsed)\<rparr>\<rparr>)
      | TGt \<Rightarrow> Some (operator_range Gt (t_wildcard self) parsed floor)
      | TGte \<Rightarrow> Some (operator_range Gte (t_wildcard self) parsed floor)
      | TLt \<Rightarrow> Some (operator_range Lt (t_wildcard self) parsed floor)
      | TLte \<Rightarrow> Some (operator_range Lte (t_wildcard self) parsed floor))"

definition range_caret :: "version \<Rightarrow> range option" where
  "range_caret version =
     to_range \<lparr>t_tag = TCaret, t_wildcard = WNone\<rparr>
       (default_parse_result\<lparr>pr_version :=
          \<lparr>p_major = Some (major version), p_minor = Some (minor version),
           p_patch = Some (patch version), p_tag = vtag version\<rparr>\<rparr>)
       default_tag"

section \<open>Comparators on versions without prerelease\<close>

text \<open>The order of the three numbers alone.\<close>

definition core_cmp :: "version \<Rightarrow> version \<Rightarrow> ordering" where
  "core_cmp v w =
     (if major v \<noteq> major w then cmp (major v) (major w)
      else if minor v \<noteq> minor w then cmp (minor v) (minor w)
      else cmp (patch v) (patch w))"

definition release :: "version \<Rightarrow> bool" where
  "release v \<longleftrightarrow> \<not> has_pre (vtag v)"

lemma precedence_core:
  "precedence a b =
     (if k_major a \<noteq> k_major b then cmp (k_major a) (k_major b)
      else if k_minor a \<noteq> k_minor b then cmp (k_minor a) (k_minor b)
      else if k_patch a \<noteq> k_patch b then cmp (k_patch a) (k_patch b)
      else pre_cmp (k_pre a) (k_pre b))"
  by (simp add: precedence_def then_cmp_def cmp_def)

lemma version_key_simps [simp]:
  "k_major (version_key (v, b)) = major v" "k_minor (version_key (v, b)) = minor v"
  "k_patch (version_key (v, b)) = patch v" "k_pre (version_key (v, b)) = pre_key (vtag v) b"
  by (simp_all add: version_key_def)

lemma order_release:
  assumes "release w"
  shows "version_order_without_build w v b d =
    (case core_cmp w v of Equal \<Rightarrow> (if release v then Equal else Greater) | r \<Rightarrow> r)"
  using assms
  by (simp add: version_order_without_build_key precedence_core core_cmp_def pre_key_def release_def cmp_def)

definition op_holds :: "op \<Rightarrow> ordering \<Rightarrow> bool" where
  "op_holds op r \<longleftrightarrow>
     (case r of Less \<Rightarrow> op \<in> {Lt, Lte} | Equal \<Rightarrow> op \<in> {Lte, Gte, Eql} | Greater \<Rightarrow> op \<in> {Gt, Gte})"

lemma core_cmp_zero: "is_zero v \<Longrightarrow> core_cmp w v \<noteq> Less"
  by (auto simp: core_cmp_def is_zero_def)

lemma comparator_satisfies_release:
  assumes "release w"
  shows "comparator_satisfies c w cb wb \<longleftrightarrow>
    op_holds (c_op c) (case core_cmp w (c_version c) of
      Equal \<Rightarrow> (if release (c_version c) then Equal else Greater) | r \<Rightarrow> r)"
  using core_cmp_zero [of "c_version c" w]
  by (auto simp: comparator_satisfies_def order_release [OF assms] op_holds_def split: ordering.splits op.splits)

lemma zero_pre_has_pre [simp]: "has_pre zero_pre"
  by code_simp

lemma default_tag_no_pre [simp]: "\<not> has_pre default_tag"
  by (simp add: has_pre_def default_tag_def)

lemma zero_le_u64 [simp]: "(0::u64) \<le> a" and not_less_zero_u64 [simp]: "\<not> (a::u64) < 0"
  by simp_all

lemma le_u64_max [simp]: "a \<le> u64_max" and not_u64_max_less [simp]: "\<not> u64_max < a"
proof -
  have "unat u64_max = 2 ^ 64 - 1" by (simp add: u64_max_def)
  then show "a \<le> u64_max" using unsigned_less [of a, where ?'a = nat] by (simp add: word_le_nat_alt)
  then show "\<not> u64_max < a" by simp
qed

lemma unat_succ_u64: "m \<noteq> u64_max \<Longrightarrow> unat (m + 1) = unat m + 1"
proof -
  assume "m \<noteq> u64_max"
  then have "unat m + 1 < 2 ^ 64" using checked_add_u64_1 [of m] by (simp add: checked_add_u64_def split: if_splits)
  then show ?thesis by (simp add: unat_word_ariths)
qed

lemma less_succ_u64: "m \<noteq> u64_max \<Longrightarrow> (a::u64) < m + 1 \<longleftrightarrow> a \<le> m"
  and succ_le_u64: "m \<noteq> u64_max \<Longrightarrow> m + 1 \<le> (a::u64) \<longleftrightarrow> m < a"
  and succ_less_u64: "m \<noteq> u64_max \<Longrightarrow> m + 1 < (a::u64) \<longleftrightarrow> m < a \<and> a \<noteq> m + 1"
  using unat_succ_u64 [of m] by (auto simp: word_le_nat_alt word_less_nat_alt word_unat_eq_iff)

lemma less_u64_max [simp]: "a < u64_max \<longleftrightarrow> a \<noteq> u64_max"
  by (simp add: order.strict_iff_order)

lemma succ_eq_0_u64 [simp]: "m \<noteq> u64_max \<Longrightarrow> m + 1 \<noteq> 0"
  using unat_succ_u64 [of m] by auto

lemma not_succ_le_u64 [simp]: "m \<noteq> u64_max \<Longrightarrow> \<not> m + 1 \<le> m"
  by (simp add: succ_le_u64)

section \<open>The bounds ranges are desugared to\<close>

lemma core_cmp_tag [simp]: "core_cmp w (v\<lparr>vtag := t\<rparr>) = core_cmp w v"
  by (simp add: core_cmp_def)

lemma satisfies_lt_zero_pre:
  assumes "release w"
  shows "comparator_satisfies \<lparr>c_op = Lt, c_version = v\<lparr>vtag := zero_pre\<rparr>\<rparr> w cb wb \<longleftrightarrow> core_cmp w v = Less"
  using assms by (cases "core_cmp w v") (simp_all add: comparator_satisfies_release op_holds_def release_def)

lemma default_version_simps [simp]:
  "major default_version = 0" "minor default_version = 0" "patch default_version = 0" "vtag default_version = default_tag"
  by (simp_all add: default_version_def)

lemma satisfies_lt_next_major:
  assumes "release w"
  shows "comparator_satisfies (lt_next_major ma) w cb wb \<longleftrightarrow> major w \<le> ma"
proof (cases "ma = u64_max")
  case True
  then show ?thesis using assms
    by (auto simp: lt_next_major_def checked_add_u64_1 comparator_satisfies_release op_holds_def release_def core_cmp_def cmp_def)
next
  case False
  then show ?thesis using assms
    by (auto simp: lt_next_major_def checked_add_u64_1 satisfies_lt_zero_pre core_cmp_def cmp_def less_succ_u64)
qed

lemma satisfies_lt_next_minor:
  assumes "release w"
  shows "comparator_satisfies (lt_next_minor ma mi) w cb wb \<longleftrightarrow> major w < ma \<or> major w = ma \<and> minor w \<le> mi"
proof (cases "mi = u64_max")
  case True
  then show ?thesis using assms
    by (auto simp: lt_next_minor_def checked_add_u64_1 comparator_satisfies_release op_holds_def release_def core_cmp_def cmp_def)
next
  case False
  then show ?thesis using assms
    by (auto simp: lt_next_minor_def checked_add_u64_1 satisfies_lt_zero_pre core_cmp_def cmp_def less_succ_u64)
qed

lemma satisfies_lt_next_patch:
  assumes "release w"
  shows "comparator_satisfies (lt_next_patch ma mi pa) w cb wb \<longleftrightarrow> major w < ma \<or> major w = ma \<and> (minor w < mi \<or> minor w = mi \<and> patch w \<le> pa)"
proof (cases "pa = u64_max")
  case True
  then show ?thesis using assms
    by (auto simp: lt_next_patch_def checked_add_u64_1 comparator_satisfies_release op_holds_def release_def core_cmp_def cmp_def)
next
  case False
  then show ?thesis using assms
    by (auto simp: lt_next_patch_def checked_add_u64_1 satisfies_lt_zero_pre core_cmp_def cmp_def less_succ_u64)
qed

lemma satisfies_gte_core:
  assumes "release w"
  shows "comparator_satisfies \<lparr>c_op = Gte, c_version = v\<rparr> w cb wb \<longleftrightarrow> core_cmp w v \<noteq> Less"
  using assms by (simp add: comparator_satisfies_release op_holds_def split: ordering.split)

lemma null_comparator_release: "release w \<Longrightarrow> \<not> comparator_satisfies null_comparator w cb wb"
  by (simp add: null_comparator_def satisfies_lt_zero_pre core_cmp_zero is_zero_def)

lemma satisfies_gte_next_major:
  assumes "release w"
  shows "comparator_satisfies (gte_next_major ma t) w cb wb \<longleftrightarrow> ma < major w"
  using assms null_comparator_release [OF assms] succ_le_u64 [of ma "major w"]
  by (auto simp: gte_next_major_def checked_add_u64_1 satisfies_gte_core core_cmp_def cmp_def
    not_less dest: leD split: if_splits)

lemma satisfies_gte_next_minor:
  assumes "release w"
  shows "comparator_satisfies (gte_next_minor ma mi t) w cb wb \<longleftrightarrow> ma < major w \<or> major w = ma \<and> mi < minor w"
  using assms succ_le_u64 [of mi "minor w"]
  by (auto simp: gte_next_minor_def checked_add_u64_1 satisfies_gte_core satisfies_gte_next_major core_cmp_def cmp_def
    not_less dest: leD split: if_splits)


section \<open>Desugared ranges\<close>

lemma range_satisfies_iff:
  "range_satisfies r w rb wb \<longleftrightarrow> c_op (r_left r) = Unset \<or>
     comparator_satisfies (r_left r) w rb wb \<and> (c_op (r_right r) = Unset \<or> comparator_satisfies (r_right r) w rb wb)"
  by (auto simp: range_satisfies_def has_left_def has_right_def)

lemma range_satisfies_both:
  "range_satisfies \<lparr>r_left = l, r_right = r\<rparr> w rb wb \<longleftrightarrow>
     c_op l = Unset \<or> comparator_satisfies l w rb wb \<and> (c_op r = Unset \<or> comparator_satisfies r w rb wb)"
  by (auto simp: range_satisfies_def has_left_def has_right_def)

lemma lt_next_op [simp]:
  "c_op (lt_next_major a) \<noteq> Unset" "c_op (lt_next_minor a b) \<noteq> Unset" "c_op (lt_next_patch a b c) \<noteq> Unset"
  by (simp_all add: lt_next_major_def lt_next_minor_def lt_next_patch_def checked_add_u64_1)

lemma gte_next_op [simp]: "c_op null_comparator \<noteq> Unset" "c_op (gte_next_major a t) \<noteq> Unset" "c_op (gte_next_minor a b t) \<noteq> Unset"
  by (simp_all add: gte_next_major_def gte_next_minor_def null_comparator_def checked_add_u64_1)

lemma at_least_core:
  "release w \<Longrightarrow> version_order_without_build w v b d \<noteq> Less \<longleftrightarrow> core_cmp w v \<noteq> Less"
  by (simp add: order_release split: ordering.split)

lemma core_cmp_cong:
  "major v = major u \<Longrightarrow> minor v = minor u \<Longrightarrow> patch v = patch u \<Longrightarrow> core_cmp w v = core_cmp w u"
  by (simp add: core_cmp_def)

text \<open>C5: \<^verbatim>\<open>Range::caret\<close>: a release satisfies \<^verbatim>\<open>^v\<close> exactly when it is at least \<open>v\<close> and agrees with it up
  to the left-most non-zero number, also where the bound \<^verbatim>\<open>+ 1\<close> would overflow.\<close>

theorem caret_meaning:
  assumes "release w" "range_caret v = Some r"
  shows "range_satisfies r w rb wb \<longleftrightarrow>
    version_order_without_build w v wb rb \<noteq> Less \<and>
    (if major v \<noteq> 0 then major w = major v
     else if minor v \<noteq> 0 then major w = 0 \<and> minor w = minor v
     else major w = 0 \<and> minor w = 0 \<and> patch w = patch v)"
proof -
  define u where "u = (c_version (r_left r))"
  have u: "major u = major v" "minor u = minor v" "patch u = patch v" "r_left r = \<lparr>c_op = Gte, c_version = u\<rparr>"
    using assms(2) by (auto simp: u_def range_caret_def to_range_def caret_range_def Let_def default_parse_result_def)
  then have l: "comparator_satisfies (r_left r) w rb wb \<longleftrightarrow> core_cmp w v \<noteq> Less"
    using satisfies_gte_core [OF assms(1)] core_cmp_cong [of u v w] by simp
  have "r_right r = (if major v = 0 then if minor v = 0 then lt_next_patch 0 0 (patch v) else lt_next_minor 0 (minor v)
      else lt_next_major (major v))"
    using assms(2) by (auto simp: range_caret_def to_range_def caret_range_def Let_def default_parse_result_def)
  then have "range_satisfies r w rb wb \<longleftrightarrow> core_cmp w v \<noteq> Less \<and>
      (if major v = 0 then if minor v = 0 then major w = 0 \<and> minor w = 0 \<and> patch w \<le> patch v
         else major w = 0 \<and> minor w \<le> minor v
       else major w \<le> major v)"
    using range_satisfies_iff [of r w rb wb] l u(4) assms(1)
    by (cases "major v = 0"; cases "minor v = 0") (simp_all add: satisfies_lt_next_major satisfies_lt_next_minor satisfies_lt_next_patch)
  then show ?thesis
    using at_least_core [OF assms(1)] by (auto simp: core_cmp_def cmp_def word_gt_0 split: if_splits)
qed

theorem caret_meaning_witness:
  "\<not> range_satisfies (the (range_caret (default_version\<lparr>minor := 3, patch := 7\<rparr>)))
       (default_version\<lparr>minor := 4\<rparr>) [] []"
proof -
  let ?v = "default_version\<lparr>minor := 3, patch := 7\<rparr>"
  obtain r where r: "range_caret ?v = Some r" by (simp add: range_caret_def to_range_def)
  show ?thesis using caret_meaning [OF _ r, of "default_version\<lparr>minor := 4\<rparr>" "[]" "[]"] r
    by (simp add: release_def)
qed

text \<open>\<^verbatim>\<open>~\<close>: a release satisfies \<^verbatim>\<open>~a.b.c\<close> exactly when it is at least that version and has the same
  major and minor numbers, \<^verbatim>\<open>~a.b\<close> when those two agree, and \<^verbatim>\<open>~a\<close> when the major number does.\<close>

theorem tilde_meaning:
  assumes "release w" "p_major (pr_version parsed) = Some ma"
    and "to_range \<lparr>t_tag = TTilda, t_wildcard = wc\<rparr> parsed floor = Some r"
  shows "range_satisfies r w rb wb \<longleftrightarrow>
    (case p_minor (pr_version parsed) of
       None \<Rightarrow> major w = ma
     | Some mi \<Rightarrow> major w = ma \<and> minor w = mi \<and>
         (case p_patch (pr_version parsed) of None \<Rightarrow> True | Some pa \<Rightarrow> pa \<le> patch w))"
proof -
  have r: "r = tilda_range parsed floor" using assms(3) by (simp add: to_range_def)
  show ?thesis using assms(1,2)
    by (auto simp: r tilda_range_def Let_def range_satisfies_both satisfies_gte_core satisfies_lt_next_major
        satisfies_lt_next_minor core_cmp_def cmp_def word_gt_0 split: option.splits if_splits)
qed

theorem tilde_meaning_witness:
  "range_satisfies (tilda_range (default_parse_result\<lparr>pr_version := default_partial\<lparr>p_major := Some 1, p_minor := Some 2\<rparr>\<rparr>)
     default_tag) (default_version\<lparr>major := 1, minor := 2, patch := 9\<rparr>) [] []"
  using tilde_meaning [of "default_version\<lparr>major := 1, minor := 2, patch := 9\<rparr>"
      "default_parse_result\<lparr>pr_version := default_partial\<lparr>p_major := Some 1, p_minor := Some 2\<rparr>\<rparr>" 1 WNone default_tag]
  by (simp add: to_range_def release_def default_partial_def)

text \<open>C32: wildcards: a release satisfies \<^verbatim>\<open>op a.x\<close> exactly when its major number compares with \<open>a\<close> as the
  operator says, and \<^verbatim>\<open>op a.b.x\<close> when its first two numbers do, as pairs. This is node-semver's
  replacement of x-ranges, at the largest numbers too.\<close>

theorem x_range_meaning:
  assumes "release w" "op \<in> {Gt, Gte, Lt, Lte}" "wc \<in> {WMinor, WPatch}"
    and "p_major (pr_version parsed) = Some ma" "p_minor (pr_version parsed) = (if wc = WMinor then None else Some mi)"
  shows "range_satisfies (operator_range op wc parsed floor) w rb wb \<longleftrightarrow>
    op_holds op (if wc = WMinor \<or> major w \<noteq> ma then cmp (major w) ma else cmp (minor w) mi)"
proof -
  have "range_satisfies (default_range\<lparr>r_left := c\<rparr>) w rb wb \<longleftrightarrow> comparator_satisfies c w rb wb" if "c_op c \<noteq> Unset" for c
    using that by (simp add: range_satisfies_def has_left_def has_right_def default_range_def default_comparator_def)
  moreover have "comparator_satisfies \<lparr>c_op = Lt, c_version = v\<lparr>vtag := zero_pre\<rparr>\<rparr> w rb wb \<longleftrightarrow> core_cmp w v = Less" for v
    by (rule satisfies_lt_zero_pre [OF assms(1)])
  ultimately show ?thesis using assms
    by (cases "wc = WMinor")
      (auto simp: operator_range_def Let_def satisfies_gte_core satisfies_lt_next_major satisfies_lt_next_minor
        satisfies_gte_next_major satisfies_gte_next_minor core_cmp_def op_holds_def cmp_def split: if_splits)
qed

theorem x_range_meaning_witness:
  "\<not> range_satisfies (operator_range Gt WMinor (default_parse_result\<lparr>pr_version := default_partial\<lparr>p_major := Some 1\<rparr>\<rparr>)
     default_tag) (default_version\<lparr>major := 1, minor := 2\<rparr>) [] []"
  using x_range_meaning [of "default_version\<lparr>major := 1, minor := 2\<rparr>" Gt WMinor
      "default_parse_result\<lparr>pr_version := default_partial\<lparr>p_major := Some 1\<rparr>\<rparr>" 1]
  by (simp add: release_def default_partial_def op_holds_def cmp_def)

lemma zero_pre_key: "pre_key zero_pre b = Some [Numeric 0]"
proof -
  have "external_slice (pre zero_pre) b = ''0''"
    using inline_len_nul [of "ext_value (pre zero_pre)"]
    by (simp add: external_slice_def string_slice_def zero_pre_def is_inline_def max_inline_len_def)
  moreover have "map ident_of (split ''0'' ''.'') = [Numeric 0]" by code_simp
  ultimately show ?thesis by (simp add: pre_key_def)
qed

lemma pre_key_ge_zero: "pre_cmp (pre_key t b) (Some [Numeric 0]) \<noteq> Less"
proof (cases "pre_key t b")
  case (Some ids)
  then have "ids \<noteq> []" by (auto simp: pre_key_def split_def split: if_splits)
  then obtain i rest where "ids = i # rest" by (cases ids) auto
  then show ?thesis using Some by (cases i; cases rest) (auto split: ordering.split)
qed simp

lemma order_ge_zero_pre: "version_order_without_build w (default_version\<lparr>vtag := zero_pre\<rparr>) b d \<noteq> Less"
  using pre_key_ge_zero by (simp add: version_order_without_build_key precedence_core zero_pre_key cmp_def)

text \<open>No version at all, prerelease or not, satisfies \<^verbatim>\<open><0.0.0-0\<close>, the comparator that stands for the
  empty set.\<close>

theorem null_comparator_empty: "\<not> comparator_satisfies null_comparator w cb wb"
  using order_ge_zero_pre [of w wb cb]
  by (auto simp: comparator_satisfies_def null_comparator_def split: ordering.split)

end
