(* ===== verification/Semver_Query.thy ===== *)
theory Semver_Query
  imports Semver_Range
begin

text \<open>
  \<^verbatim>\<open>src/semver/SemverQuery.rs\<close>: AND chains of ranges (\<^verbatim>\<open>Query\<close>), OR chains of those
  (\<^verbatim>\<open>List\<close>), the parsed dependency range (\<^verbatim>\<open>Group\<close>) and its parser. The chains are the boxed
  linked lists of the source. A \<^verbatim>\<open>tail\<close> back-reference, which aliases a node of the chain it
  caches, is modelled as the number of steps from the head to that node.

  The lemmas show that every group the parser builds keeps its back-references on the last node, so
  nothing is overwritten by an insertion, that matching is \<open>some alternative, all comparators\<close> with
  node-semver's rule for prereleases, that the parser always returns, and that it reads a printed
  comparator back.
\<close>

section \<open>AND chains\<close>

datatype query = Query (q_range: range) (q_next: "query option")

definition default_query :: query where
  "default_query = Query default_range None"

text \<open>The iterative \<^verbatim>\<open>clone\<close> of a chain, front to back.\<close>

fun query_clone :: "query \<Rightarrow> query" where
  "query_clone (Query r None) = Query r None"
| "query_clone (Query r (Some q)) = Query r (Some (query_clone q))"

definition exact_version :: "query \<Rightarrow> version option" where
  "exact_version q =
     (let rng = q_range q
      in if q_next q = None \<and> c_op (r_left rng) = Eql \<and> \<not> has_right rng
         then Some (c_version (r_left rng)) else None)"

fun query_eql :: "query \<Rightarrow> query \<Rightarrow> bool" where
  "query_eql (Query l ln) (Query r rn) =
     (if \<not> range_eql l r then False
      else case ln of
             None \<Rightarrow> rn = None
           | Some lq \<Rightarrow> (case rn of None \<Rightarrow> False | Some rq \<Rightarrow> query_eql lq rq))"

fun query_satisfies :: "query \<Rightarrow> version \<Rightarrow> bytes \<Rightarrow> bytes \<Rightarrow> bool" where
  "query_satisfies (Query r next) v query_buf version_buf =
     (if \<not> range_satisfies r v query_buf version_buf then False
      else case next of Some q \<Rightarrow> query_satisfies q v query_buf version_buf | None \<Rightarrow> True)"

fun query_satisfies_pre :: "query \<Rightarrow> version \<Rightarrow> bytes \<Rightarrow> bytes \<Rightarrow> bool \<Rightarrow> bool \<times> bool" where
  "query_satisfies_pre (Query r next) v query_buf version_buf pre_matched =
     (case range_satisfies_pre r v query_buf version_buf pre_matched of
        (False, pre_matched) \<Rightarrow> (False, pre_matched)
      | (True, pre_matched) \<Rightarrow>
          (case next of
             Some q \<Rightarrow> query_satisfies_pre q v query_buf version_buf pre_matched
           | None \<Rightarrow> (True, pre_matched)))"

text \<open>\<^verbatim>\<open>QueryFormatter\<close> prints at most two nodes of the chain.\<close>

definition query_fmt :: "(bytes \<Rightarrow> bytes) \<Rightarrow> query \<Rightarrow> bytes \<Rightarrow> bytes" where
  "query_fmt bstr q buf =
     (case q_next q of
        Some p \<Rightarrow>
          (if has_left (q_range p) \<or> has_right (q_range p)
           then range_fmt bstr (q_range q) buf @ '' && '' @ range_fmt bstr (q_range p) buf
           else range_fmt bstr (q_range q) buf)
      | None \<Rightarrow> range_fmt bstr (q_range q) buf)"

text \<open>\<open>node.next.insert(new)\<close> at the node \<open>n\<close> steps from the head; what was there is dropped.\<close>

fun query_insert :: "nat \<Rightarrow> query \<Rightarrow> query \<Rightarrow> query" where
  "query_insert 0 new (Query r next) = Query r (Some new)"
| "query_insert (Suc n) new (Query r (Some q)) = Query r (Some (query_insert n new q))"
| "query_insert (Suc n) new (Query r None) = Query r None"

section \<open>OR chains\<close>

datatype query_list = List (l_head: query) (l_tail: "nat option") (l_next: "query_list option")

definition default_list :: query_list where
  "default_list = List default_query None None"

text \<open>The steps from the head to the last node.\<close>

fun query_last :: "query \<Rightarrow> nat" where
  "query_last (Query r None) = 0"
| "query_last (Query r (Some q)) = Suc (query_last q)"

text \<open>\<^verbatim>\<open>Clone for List\<close> copies every chain and points each \<^verbatim>\<open>tail\<close> at the last node of its copy.\<close>

definition clone_tail :: "query \<Rightarrow> nat option" where
  "clone_tail head = (if q_next head = None then None else Some (query_last head))"

fun list_clone :: "query_list \<Rightarrow> query_list" where
  "list_clone (List h t None) = List (query_clone h) (clone_tail (query_clone h)) None"
| "list_clone (List h t (Some l)) =
     List (query_clone h) (clone_tail (query_clone h)) (Some (list_clone l))"

fun list_satisfies :: "query_list \<Rightarrow> version \<Rightarrow> bytes \<Rightarrow> bytes \<Rightarrow> bool" where
  "list_satisfies (List h t next) v list_buf version_buf =
     (if query_satisfies h v list_buf version_buf then True
      else case next of Some l \<Rightarrow> list_satisfies l v list_buf version_buf | None \<Rightarrow> False)"

fun list_satisfies_pre :: "query_list \<Rightarrow> version \<Rightarrow> bytes \<Rightarrow> bytes \<Rightarrow> bool" where
  "list_satisfies_pre (List h t next) v list_buf version_buf =
     (if query_satisfies_pre h v list_buf version_buf False = (True, True) then True
      else case next of Some l \<Rightarrow> list_satisfies_pre l v list_buf version_buf | None \<Rightarrow> False)"

fun list_eql :: "query_list \<Rightarrow> query_list \<Rightarrow> bool" where
  "list_eql (List l lt ln) (List r rt rn) =
     (if \<not> query_eql l r then False
      else case ln of
             None \<Rightarrow> rn = None
           | Some ll \<Rightarrow> (case rn of None \<Rightarrow> False | Some rl \<Rightarrow> list_eql ll rl))"

fun list_fmt :: "(bytes \<Rightarrow> bytes) \<Rightarrow> query_list \<Rightarrow> bytes \<Rightarrow> bytes" where
  "list_fmt bstr (List h t None) buf = query_fmt bstr h buf"
| "list_fmt bstr (List h t (Some l)) buf = query_fmt bstr h buf @ '' || '' @ list_fmt bstr l buf"

definition list_and_range :: "query_list \<Rightarrow> range \<Rightarrow> query_list" where
  "list_and_range l rng =
     (case l of List head tail next \<Rightarrow>
        if \<not> has_left (q_range head) \<and> \<not> has_right (q_range head)
        then List (Query rng (q_next head)) tail next
        else
          (let last_tail = case_option 0 id tail
           in List (query_insert last_tail (Query rng None) head) (Some (last_tail + 1)) next))"

section \<open>Groups\<close>

definition flag_pre :: nat where "flag_pre = 1"
definition flag_build :: nat where "flag_build = 0"
definition flag_skipped :: nat where "flag_skipped = 2"

record group =
  g_head :: query_list
  g_tail :: "nat option"
  g_flags :: "3 word"

definition default_group :: group where
  "default_group = \<lparr>g_head = default_list, g_tail = None, g_flags = 0\<rparr>"

definition set_flag :: "nat \<Rightarrow> group \<Rightarrow> group" where
  "set_flag n g = g\<lparr>g_flags := set_bit n (g_flags g)\<rparr>"

fun list_last :: "query_list \<Rightarrow> nat" where
  "list_last (List h t None) = 0"
| "list_last (List h t (Some l)) = Suc (list_last l)"

definition group_clone :: "group \<Rightarrow> group" where
  "group_clone g =
     (let head = list_clone (g_head g)
      in \<lparr>g_head = head, g_tail = (if l_next head = None then None else Some (list_last head)),
          g_flags = g_flags g\<rparr>)"

text \<open>\<^verbatim>\<open>GroupFormatter\<close>: joins \<^verbatim>\<open>ListFormatter\<close>s, each of which prints the rest of the chain.\<close>

fun group_fmt_lists :: "(bytes \<Rightarrow> bytes) \<Rightarrow> query_list \<Rightarrow> bytes \<Rightarrow> bytes" where
  "group_fmt_lists bstr (List h t None) buf = list_fmt bstr (List h t None) buf"
| "group_fmt_lists bstr (List h t (Some l)) buf =
     list_fmt bstr (List h t (Some l)) buf @ '' && '' @ group_fmt_lists bstr l buf"

definition group_fmt :: "(bytes \<Rightarrow> bytes) \<Rightarrow> group \<Rightarrow> bytes \<Rightarrow> bytes" where
  "group_fmt bstr g buf =
     (if g_tail g = None \<and> l_tail (g_head g) = None \<and> \<not> has_left (q_range (l_head (g_head g))) then []
      else if g_tail g = None \<and> l_tail (g_head g) = None then list_fmt bstr (g_head g) buf
      else group_fmt_lists bstr (g_head g) buf)"

definition get_exact_version :: "group \<Rightarrow> version option" where
  "get_exact_version g =
     (if l_next (g_head g) \<noteq> None then None else exact_version (l_head (g_head g)))"

definition from_comparator :: "comparator \<Rightarrow> group" where
  "from_comparator left =
     default_group\<lparr>g_head := List (Query (default_range\<lparr>r_left := left\<rparr>) None) None None\<rparr>"

definition group_from :: "version \<Rightarrow> group" where
  "group_from version = from_comparator \<lparr>c_op = Eql, c_version = version\<rparr>"

definition group_null_set :: group where
  "group_null_set = from_comparator null_comparator"

definition is_exact :: "group \<Rightarrow> bool" where
  "is_exact g \<longleftrightarrow>
     (let q = l_head (g_head g)
      in l_next (g_head g) = None \<and> q_next q = None \<and> \<not> has_right (q_range q) \<and>
         c_op (r_left (q_range q)) = Eql)"

definition is_star :: "group \<Rightarrow> bool" where
  "is_star g \<longleftrightarrow>
     (let q = l_head (g_head g); left = r_left (q_range q)
      in c_op (r_right (q_range q)) = Unset \<and> c_op left = Gte \<and> l_next (g_head g) = None \<and>
         q_next q = None \<and> is_zero (c_version left) \<and> \<not> bit (g_flags g) flag_build)"

definition group_eql :: "group \<Rightarrow> group \<Rightarrow> bool" where
  "group_eql g h \<longleftrightarrow> list_eql (g_head g) (g_head h)"

text \<open>\<open>f\<close> applied to the list \<open>n\<close> steps from the head.\<close>

fun at_list :: "nat \<Rightarrow> (query_list \<Rightarrow> query_list) \<Rightarrow> query_list \<Rightarrow> query_list" where
  "at_list 0 f l = f l"
| "at_list (Suc n) f (List h t (Some l)) = List h t (Some (at_list n f l))"
| "at_list (Suc n) f (List h t None) = List h t None"

definition group_and_range :: "group \<Rightarrow> range \<Rightarrow> group" where
  "group_and_range g rng =
     g\<lparr>g_head := at_list (case_option 0 id (g_tail g)) (\<lambda>l. list_and_range l rng) (g_head g)\<rparr>"

definition set_l_next :: "query_list \<Rightarrow> query_list \<Rightarrow> query_list" where
  "set_l_next new l = (case l of List h t next \<Rightarrow> List h t (Some new))"

definition group_or_range :: "group \<Rightarrow> range \<Rightarrow> group" where
  "group_or_range g rng =
     (case g_head g of List head tail next \<Rightarrow>
        if g_tail g = None \<and> tail = None \<and> \<not> has_left (q_range head)
        then g\<lparr>g_head := List (Query rng (q_next head)) tail next\<rparr>
        else
          (let new_tail = List (Query rng None) None None; prev_tail = case_option 0 id (g_tail g)
           in g\<lparr>g_head := at_list prev_tail (set_l_next new_tail) (g_head g),
                g_tail := Some (prev_tail + 1)\<rparr>))"

definition group_satisfies :: "group \<Rightarrow> version \<Rightarrow> bytes \<Rightarrow> bytes \<Rightarrow> bool" where
  "group_satisfies g version group_buf version_buf =
     (if has_pre (vtag version) then list_satisfies_pre (g_head g) version group_buf version_buf
      else list_satisfies (g_head g) version group_buf version_buf)"

definition satisfies_including_prerelease :: "group \<Rightarrow> version \<Rightarrow> bytes \<Rightarrow> bytes \<Rightarrow> bool" where
  "satisfies_including_prerelease g version group_buf version_buf =
     list_satisfies (g_head g) version group_buf version_buf"

definition group_is_empty :: "group \<Rightarrow> bool" where
  "group_is_empty g \<longleftrightarrow>
     l_next (g_head g) = None \<and> q_next (l_head (g_head g)) = None \<and>
     \<not> has_left (q_range (l_head (g_head g)))"

definition has_skipped :: "group \<Rightarrow> bool" where
  "has_skipped g \<longleftrightarrow> bit (g_flags g) flag_skipped"

section \<open>Parsing\<close>

text \<open>The variables of the loop of \<^verbatim>\<open>parse_with\<close>; a \<^verbatim>\<open>token\<close> outlives the chunk that set it.\<close>

record query_state =
  qs_i :: nat
  qs_list :: group
  qs_token :: token
  qs_is_or :: bool
  qs_after_comparator :: bool

text \<open>\<^verbatim>\<open>while i < input.len() && input[i] == b' ' { i += 1; }\<close>\<close>

definition skip_spaces :: "bytes \<Rightarrow> nat \<Rightarrow> nat" where
  "skip_spaces input i = skip_while (\<lambda>c. c = CHR '' '') input i"

definition set_tag :: "token_tag \<Rightarrow> query_state \<Rightarrow> query_state" where
  "set_tag t st = st\<lparr>qs_token := (qs_token st)\<lparr>t_tag := t\<rparr>\<rparr>"

definition set_qflag :: "nat \<Rightarrow> query_state \<Rightarrow> query_state" where
  "set_qflag n st = st\<lparr>qs_list := set_flag n (qs_list st)\<rparr>"

text \<open>The \<^verbatim>\<open>match\<close> on the next byte: the new state, \<^verbatim>\<open>skip_round\<close> and \<^verbatim>\<open>no_operator\<close>.\<close>

definition operator_arm :: "bytes \<Rightarrow> byte \<Rightarrow> query_state \<Rightarrow> query_state" where
  "operator_arm input c st =
     (let i = skip_spaces input (qs_i st + 1);
          or_equal = (i < length input \<and> input ! i = CHR ''='');
          i = (if or_equal then i + 1 else i);
          t = (if c = CHR ''>'' then (if or_equal then TGte else TGt)
               else (if or_equal then TLte else TLt))
      in (set_tag t st)\<lparr>qs_i := skip_spaces input i\<rparr>)"

definition read_token :: "bytes \<Rightarrow> query_state \<Rightarrow> query_state \<times> bool \<times> bool" where
  "read_token input st =
     (let i = qs_i st; c = input ! i
      in if c = CHR ''>'' \<or> c = CHR ''<'' then (operator_arm input c st, False, False)
         else if c = CHR ''='' \<or> c = CHR ''v'' then
           ((set_tag TVersion st)\<lparr>qs_i := skip_spaces input (i + 1)\<rparr>, False, True)
         else if c = CHR ''~'' then
           (let j = i + 1; j = (if j < length input \<and> input ! j = CHR ''>'' then j + 1 else j)
            in ((set_tag TTilda st)\<lparr>qs_i := skip_spaces input j\<rparr>, False, False))
         else if c = CHR ''^'' then
           ((set_tag TCaret st)\<lparr>qs_i := skip_spaces input (i + 1)\<rparr>, False, False)
         else if is_ascii_digit c \<or> is_wildcard_char c then (set_tag TVersion st, False, True)
         else if c = CHR ''|'' then
           ((set_tag TNone st)\<lparr>qs_i := skip_spaces input (skip_while (\<lambda>c. c = CHR ''|'') input (i + 1)),
              qs_is_or := True\<rparr>, True, False)
         else if c = CHR ''-'' then (st\<lparr>qs_i := skip_spaces input (i + 1)\<rparr>, False, False)
         else if c = CHR '' '' then (st\<lparr>qs_i := skip_spaces input (i + 1)\<rparr>, True, False)
         else
           (set_qflag flag_skipped
              ((set_tag TNone st)\<lparr>qs_i := skip_while (\<lambda>c. c \<noteq> CHR '' '' \<and> c \<noteq> CHR ''|'') input (i + 1),
                 qs_after_comparator := False\<rparr>), True, False))"

text \<open>
  The block \<^verbatim>\<open>'possibly_hyphenate\<close> from the end of the first version: \<^verbatim>\<open>Some\<close> the cursor on the
  second version of \<^verbatim>\<open>a - b\<close>.
\<close>

definition skip_white :: "bytes \<Rightarrow> nat \<Rightarrow> nat" where
  "skip_white input i = i + length_of_leading_whitespace_ascii (drop i input)"

definition possibly_hyphenate :: "bytes \<Rightarrow> nat \<Rightarrow> nat option" where
  "possibly_hyphenate input i =
     (if \<not> (i < length input \<and> (input ! i = CHR '' '' \<or> input ! i = CHR ''-'')) then None
      else
        (let i = skip_white input i
         in if \<not> (i < length input \<and> input ! i = CHR ''-'') then None
            else
              (let i = skip_white input (i + 1)
               in if i = length input then None
                  else
                    (let i = (if input ! i = CHR ''v'' \<or> input ! i = CHR ''='' then i + 1 else i)
                     in if i = length input then None
                        else
                          (let i = skip_white input i
                           in if i = length input then None
                              else if \<not> (is_ascii_digit (input ! i) \<or> is_wildcard_char (input ! i))
                                then None
                              else Some i)))))"

text \<open>The flags a parsed version sets.\<close>

definition note_version :: "parse_result \<Rightarrow> query_state \<Rightarrow> query_state" where
  "note_version parsed st =
     (let version = partial_min (pr_version parsed);
          st = (if \<not> pr_valid parsed then set_qflag flag_skipped st else st);
          st = (if has_build (vtag version) then set_qflag flag_build st else st)
      in if has_pre (vtag version) then set_qflag flag_pre st else st)"

definition hyphen_range :: "version \<Rightarrow> parse_result \<Rightarrow> tag \<Rightarrow> range" where
  "hyphen_range version second_parsed floor =
     (let second_version = partial_min (pr_version second_parsed);
          first_version = (if \<not> has_pre (vtag version)
                           then version\<lparr>vtag := (vtag version)\<lparr>pre := pre floor\<rparr>\<rparr> else version)
      in \<lparr>r_left = \<lparr>c_op = Gte, c_version = first_version\<rparr>,
          r_right =
            (case pr_wildcard second_parsed of
               WMajor \<Rightarrow> default_comparator
             | WMinor \<Rightarrow> lt_next_major (major second_version)
             | WPatch \<Rightarrow> lt_next_minor (major second_version) (minor second_version)
             | WNone \<Rightarrow>
                 if has_pre floor \<and> \<not> has_pre (vtag second_version)
                 then lt_next_patch (major second_version) (minor second_version) (patch second_version)
                 else \<lparr>c_op = Lte, c_version = second_version\<rparr>)\<rparr>)"

text \<open>
  How a round ends: with the \<^verbatim>\<open>unreachable!()\<close> of \<^verbatim>\<open>to_range\<close>, with an early return, or with the
  state of the next round.
\<close>

datatype query_step = Panic | Return group | Continue query_state

text \<open>\<open>Inl\<close> is the early return; \<open>Inr (None, _)\<close> the \<^verbatim>\<open>continue\<close> of a chunk without token.\<close>

definition add_range :: "range \<Rightarrow> query_state \<Rightarrow> query_state" where
  "add_range rng st =
     (let list = (if qs_is_or st then group_or_range (qs_list st) rng
                  else group_and_range (qs_list st) rng)
      in st\<lparr>qs_list := list, qs_is_or := False, qs_token := (qs_token st)\<lparr>t_wildcard := WNone\<rparr>\<rparr>)"

definition read_comparator :: "sliced_string \<Rightarrow> tag \<Rightarrow> bool \<Rightarrow> query_state \<Rightarrow> query_step" where
  "read_comparator sl floor no_operator st =
     (let input = ss_slice sl; i = qs_i st;
          parsed = version_parse (sub_range sl i (ss_len sl))
      in if pr_overflow parsed then Return group_null_set
         else
           (let version = partial_min (pr_version parsed);
                st = note_version parsed st;
                st = st\<lparr>qs_token := (qs_token st)\<lparr>t_wildcard := pr_wildcard parsed\<rparr>\<rparr>;
                rollback = i + pr_len parsed;
                hyphenate = possibly_hyphenate input rollback;
                valid = (pr_valid parsed \<and> hyphenate = None);
                st = (if no_operator \<and> \<not> (qs_after_comparator st \<and> valid) then st\<lparr>qs_is_or := True\<rparr> else st);
                after = (valid \<and> get input rollback = Some (CHR '' ''))
            in case hyphenate of
                 Some j \<Rightarrow>
                   (let second_parsed = version_parse (sub_range sl j (ss_len sl))
                    in if pr_overflow second_parsed then Return group_null_set
                       else
                         (let st = (note_version second_parsed st)\<lparr>qs_i := j + (pr_len second_parsed + 1)\<rparr>
                          in Continue ((add_range (hyphen_range version second_parsed floor) st)
                               \<lparr>qs_after_comparator := after\<rparr>)))
               | None \<Rightarrow>
                   (let st = st\<lparr>qs_i := rollback + 1\<rparr>
                    in if t_tag (qs_token st) = TNone then
                         Continue (set_qflag flag_skipped
                           (st\<lparr>qs_token := (qs_token st)\<lparr>t_wildcard := WNone\<rparr>\<rparr>))
                       else case to_range (qs_token st) parsed floor of
                              None \<Rightarrow> Panic
                            | Some rng \<Rightarrow>
                                Continue ((add_range rng st)\<lparr>qs_after_comparator := after\<rparr>))))"

definition query_round :: "sliced_string \<Rightarrow> tag \<Rightarrow> query_state \<Rightarrow> query_step" where
  "query_round sl floor st =
     (case read_token (ss_slice sl) st of
        (st, skip_round, no_operator) \<Rightarrow>
          if skip_round then Continue st else read_comparator sl floor no_operator st)"


text \<open>Every round moves the cursor forward.\<close>

lemma set_tag_i [simp]: "qs_i (set_tag t st) = qs_i st"
  and set_qflag_i [simp]: "qs_i (set_qflag n st) = qs_i st"
  and note_version_i [simp]: "qs_i (note_version p st) = qs_i st"
  and add_range_i [simp]: "qs_i (add_range r st) = qs_i st"
  by (simp_all add: set_tag_def set_qflag_def note_version_def add_range_def Let_def)

lemma skip_spaces_ge: "i \<le> skip_spaces input i"
  by (simp add: skip_spaces_def)

lemma skip_white_ge: "i \<le> skip_white input i"
  by (simp add: skip_white_def)

lemma operator_arm_i: "qs_i st < qs_i (operator_arm input c st)"
  unfolding operator_arm_def Let_def using skip_spaces_ge [of "qs_i st + 1" input]
  by (auto intro: less_le_trans [OF _ skip_spaces_ge])

lemma possibly_hyphenate_ge:
  assumes "possibly_hyphenate input i = Some j"
  shows "i < j"
proof -
  let ?a = "skip_white input (skip_white input i + 1)"
  have "j = skip_white input ?a \<or> j = skip_white input (?a + 1)"
    using assms by (auto simp: possibly_hyphenate_def Let_def split: if_splits)
  moreover have "i < ?a"
    using skip_white_ge [of i input] skip_white_ge [of "skip_white input i + 1" input] by linarith
  ultimately show ?thesis
    using skip_white_ge [of ?a input] skip_white_ge [of "?a + 1" input] by auto
qed

lemma read_token_i:
  assumes "read_token input st = (st', skip, no_op)"
  shows "qs_i st \<le> qs_i st' \<and> (skip \<longrightarrow> qs_i st < qs_i st')"
proof -
  have "qs_i st < skip_spaces input (qs_i st + 1)" "qs_i st < skip_spaces input (qs_i st + 1 + 1)"
    "qs_i st < skip_spaces input (skip_while p input (qs_i st + 1))" "qs_i st < skip_while p input (qs_i st + 1)" for p
    using skip_spaces_ge [of "qs_i st + 1" input] skip_spaces_ge [of "qs_i st + 1 + 1" input]
      skip_while_ge [of "qs_i st + 1" p input] skip_spaces_ge [of "skip_while p input (qs_i st + 1)" input]
    by linarith+
  note a = this
  show ?thesis
  proof (cases "input ! qs_i st = CHR ''>'' \<or> input ! qs_i st = CHR ''<''")
    case True
    then show ?thesis using assms operator_arm_i [of st input] by (auto simp: read_token_def less_imp_le)
  next
    case False
    from assms show ?thesis
      unfolding read_token_def Let_def if_not_P [OF False]
      using a by (simp split: if_splits) (auto simp: less_imp_le)
  qed
qed

lemma read_comparator_i:
  "read_comparator sl floor no_op st = Continue st' \<Longrightarrow> qs_i st < qs_i st'"
  using possibly_hyphenate_ge [of "ss_slice sl"]
  by (auto simp: read_comparator_def Let_def split: if_splits option.splits
      dest!: possibly_hyphenate_ge)

lemma query_round_i: "query_round sl floor st = Continue st' \<Longrightarrow> qs_i st < qs_i st'"
  using read_token_i [of "ss_slice sl" st] read_comparator_i
  by (fastforce simp: query_round_def split: prod.splits if_splits)

function query_loop :: "sliced_string \<Rightarrow> tag \<Rightarrow> query_state \<Rightarrow> group option" where
  "query_loop sl floor st =
     (if \<not> qs_i st < length (ss_slice sl) then Some (qs_list st)
      else case query_round sl floor st of
             Panic \<Rightarrow> None
           | Return g \<Rightarrow> Some g
           | Continue st' \<Rightarrow> query_loop sl floor st')"
  by pat_completeness auto
termination
  by (relation "measure (\<lambda>(sl, floor, st). length (ss_slice sl) - qs_i st)")
    (auto dest: query_round_i)

declare query_loop.simps [simp del]

text \<open>
  \<^verbatim>\<open>parse_with\<close>, for a caller that passes the text of \<open>sl\<close> as \<^verbatim>\<open>input\<close>, as all callers do.
  \<^verbatim>\<open>None\<close> is a panic.
\<close>

definition parse_with :: "sliced_string \<Rightarrow> tag \<Rightarrow> group option" where
  "parse_with sl floor =
     query_loop sl floor \<lparr>qs_i = 0, qs_list = default_group, qs_token = default_token, qs_is_or = False,
       qs_after_comparator = False\<rparr>"

definition query_parse :: "sliced_string \<Rightarrow> group option" where
  "query_parse sl = parse_with sl default_tag"

definition parse_including_prerelease :: "sliced_string \<Rightarrow> group option" where
  "parse_including_prerelease sl = parse_with sl zero_pre"

section \<open>What a group means\<close>

text \<open>The abstract value of the linked lists: a list of alternatives, each a list of ranges.\<close>

fun ranges_of :: "query \<Rightarrow> range list" where
  "ranges_of (Query r None) = [r]"
| "ranges_of (Query r (Some q)) = r # ranges_of q"

fun list_alts :: "query_list \<Rightarrow> range list list" where
  "list_alts (List h t None) = [ranges_of h]"
| "list_alts (List h t (Some l)) = ranges_of h # list_alts l"

definition alternatives :: "group \<Rightarrow> range list list" where
  "alternatives g = list_alts (g_head g)"

text \<open>node-semver's rule: a prerelease needs a comparator that is a prerelease of the same version.\<close>

definition pre_allows :: "range \<Rightarrow> version \<Rightarrow> bool" where
  "pre_allows r v \<longleftrightarrow> has_left r \<and>
     (has_pre (vtag (c_version (r_left r))) \<and> same_core v (c_version (r_left r)) \<or>
      has_right r \<and> has_pre (vtag (c_version (r_right r))) \<and> same_core v (c_version (r_right r)))"

lemma range_satisfies_pre_eq:
  "range_satisfies_pre r v rb vb m = (range_satisfies r v rb vb, m \<or> pre_allows r v)"
  by (auto simp: range_satisfies_pre_def range_satisfies_def pre_allows_def Let_def)

lemma query_satisfies_all:
  "query_satisfies q v qb vb \<longleftrightarrow> (\<forall>r\<in>set (ranges_of q). range_satisfies r v qb vb)"
  by (induction q v qb vb rule: query_satisfies.induct) (auto split: option.splits)

lemma query_satisfies_pre_all:
  "query_satisfies_pre q v qb vb m = (True, True) \<longleftrightarrow>
     query_satisfies q v qb vb \<and> (m \<or> (\<exists>r\<in>set (ranges_of q). pre_allows r v))"
proof (induction q arbitrary: m rule: ranges_of.induct)
  case (1 r)
  then show ?case by (simp add: range_satisfies_pre_eq)
next
  case (2 r q)
  then show ?case by (simp add: range_satisfies_pre_eq)
qed

lemma list_satisfies_ex:
  "list_satisfies l v lb vb \<longleftrightarrow> (\<exists>alt\<in>set (list_alts l). \<forall>r\<in>set alt. range_satisfies r v lb vb)"
  by (induction l rule: list_alts.induct) (auto simp: query_satisfies_all)

lemma list_satisfies_pre_ex:
  "list_satisfies_pre l v lb vb \<longleftrightarrow>
     (\<exists>alt\<in>set (list_alts l). (\<forall>r\<in>set alt. range_satisfies r v lb vb) \<and> (\<exists>r\<in>set alt. pre_allows r v))"
  by (induction l rule: list_alts.induct) (auto simp: query_satisfies_all query_satisfies_pre_all)

text \<open>C2: \<^verbatim>\<open>Group::satisfies\<close>: a version satisfies a parsed range exactly when some alternative of the
  \<^verbatim>\<open>||\<close> has all its ranges satisfied and, for a prerelease, one of that alternative's comparators is a
  prerelease of the same \<^verbatim>\<open>major.minor.patch\<close>.\<close>

theorem group_satisfies_meaning:
  "group_satisfies g v gb vb \<longleftrightarrow>
     (\<exists>alt\<in>set (alternatives g). (\<forall>r\<in>set alt. range_satisfies r v gb vb) \<and>
        (has_pre (vtag v) \<longrightarrow> (\<exists>r\<in>set alt. pre_allows r v)))"
  by (simp add: group_satisfies_def alternatives_def list_satisfies_ex list_satisfies_pre_ex)

theorem group_satisfies_meaning_witness:
  "\<not> group_satisfies (group_from default_version) (default_version\<lparr>vtag := zero_pre\<rparr>) [] []"
  using group_satisfies_meaning [of "group_from default_version" "default_version\<lparr>vtag := zero_pre\<rparr>" "[]" "[]"]
  by (simp add: group_from_def from_comparator_def alternatives_def pre_allows_def has_right_def default_range_def
      default_comparator_def)

section \<open>Back-references\<close>

text \<open>A cached tail is the last node of its chain; without one the chain has a single node.\<close>

definition tail_ok :: "nat option \<Rightarrow> nat \<Rightarrow> bool" where
  "tail_ok t n \<longleftrightarrow> case_option 0 id t = n"

fun list_ok :: "query_list \<Rightarrow> bool" where
  "list_ok (List h t None) \<longleftrightarrow> tail_ok t (query_last h)"
| "list_ok (List h t (Some l)) \<longleftrightarrow> tail_ok t (query_last h) \<and> list_ok l"

definition group_ok :: "group \<Rightarrow> bool" where
  "group_ok g \<longleftrightarrow> list_ok (g_head g) \<and> tail_ok (g_tail g) (list_last (g_head g))"

lemma query_insert_last:
  "ranges_of (query_insert (query_last q) (Query r None) q) = ranges_of q @ [r]"
  "query_last (query_insert (query_last q) (Query r None) q) = Suc (query_last q)"
  by (induction q rule: query_last.induct) simp_all

text \<open>Adding a range to an AND chain: an unset head is filled, else the range goes to the end.\<close>

definition and_to :: "range list \<Rightarrow> range \<Rightarrow> range list" where
  "and_to alt r =
     (case alt of [] \<Rightarrow> [r] | h # t \<Rightarrow> if \<not> has_left h \<and> \<not> has_right h then r # t else alt @ [r])"

lemma ranges_of_cases: "ranges_of q = q_range q # (case q_next q of None \<Rightarrow> [] | Some p \<Rightarrow> ranges_of p)"
  by (cases q rule: ranges_of.cases) simp_all

lemma query_last_head [simp]: "query_last (Query r (q_next q)) = query_last q"
  by (cases q rule: query_last.cases) simp_all

lemma list_and_range_spec:
  assumes "tail_ok t (query_last h)" "list_and_range (List h t next) r = List h' t' next'"
  shows "next' = next" "tail_ok t' (query_last h')" "ranges_of h' = and_to (ranges_of h) r"
proof -
  have t: "case_option 0 id t = query_last h" using assms(1) by (simp add: tail_ok_def)
  show "next' = next" "tail_ok t' (query_last h')" "ranges_of h' = and_to (ranges_of h) r"
    using assms(2) query_insert_last [of h r] t ranges_of_cases [of h]
    by (auto simp: list_and_range_def tail_ok_def and_to_def ranges_of_cases [of "Query r (q_next h)"] Let_def split: if_splits)
qed

fun last_and :: "range list list \<Rightarrow> range \<Rightarrow> range list list" where
  "last_and [] r = []"
| "last_and [alt] r = [and_to alt r]"
| "last_and (alt # b # bs) r = alt # last_and (b # bs) r"

lemma list_alts_nonempty [simp]: "list_alts l \<noteq> []"
  by (cases l rule: list_alts.cases) simp_all

lemma last_and_Cons: "as \<noteq> [] \<Longrightarrow> last_and (a # as) r = a # last_and as r"
  by (cases as) simp_all

lemma at_list_and:
  "list_ok l \<Longrightarrow>
     list_ok (at_list (list_last l) (\<lambda>l. list_and_range l r) l) \<and>
     list_last (at_list (list_last l) (\<lambda>l. list_and_range l r) l) = list_last l \<and>
     list_alts (at_list (list_last l) (\<lambda>l. list_and_range l r) l) = last_and (list_alts l) r"
proof (induction l rule: list_last.induct)
  case (1 h t)
  obtain h' t' next' where l: "list_and_range (List h t None) r = List h' t' next'"
    by (cases "list_and_range (List h t None) r")
  from list_and_range_spec [OF _ l] 1 show ?case by (simp add: l)
next
  case (2 h t l)
  then show ?case by (simp add: last_and_Cons)
qed

lemma at_list_or:
  "list_ok l \<Longrightarrow>
     list_ok (at_list (list_last l) (set_l_next (List (Query r None) None None)) l) \<and>
     list_last (at_list (list_last l) (set_l_next (List (Query r None) None None)) l) = Suc (list_last l) \<and>
     list_alts (at_list (list_last l) (set_l_next (List (Query r None) None None)) l) = list_alts l @ [[r]]"
  by (induction l rule: list_last.induct) (simp_all add: set_l_next_def tail_ok_def)

lemma group_and_range_spec:
  assumes "group_ok g"
  shows "group_ok (group_and_range g r)" "alternatives (group_and_range g r) = last_and (alternatives g) r"
  using assms at_list_and [of "g_head g" r]
  by (simp_all add: group_ok_def group_and_range_def alternatives_def tail_ok_def)

lemma query_last_0: "query_last q = 0 \<longleftrightarrow> q_next q = None"
  by (cases q rule: query_last.cases) simp_all

lemma list_last_0: "list_last l = 0 \<longleftrightarrow> l_next l = None"
  by (cases l rule: list_last.cases) simp_all

lemma list_ok_head: "list_ok (List h t n) \<Longrightarrow> tail_ok t (query_last h)"
  by (cases n) simp_all

lemma group_or_range_spec:
  assumes "group_ok g"
  shows "group_ok (group_or_range g r)"
    and "alternatives (group_or_range g r) =
      (if \<exists>x. alternatives g = [[x]] \<and> \<not> has_left x \<and> g_tail g = None \<and> l_tail (g_head g) = None
       then [[r]] else alternatives g @ [[r]])"
proof -
  obtain h t n where g: "g_head g = List h t n" by (cases "g_head g")
  let ?single = "g_tail g = None \<and> t = None \<and> \<not> has_left (q_range h)"
  have one: "n = None \<and> q_next h = None" if ?single
    using that assms query_last_0 [of h] list_last_0 [of "List h t n"] list_ok_head [of h t n]
    by (auto simp: group_ok_def g tail_ok_def)
  show "group_ok (group_or_range g r)"
    using one assms at_list_or [of "g_head g" r]
    by (cases ?single) (auto simp: group_or_range_def g group_ok_def tail_ok_def Let_def)
  show "alternatives (group_or_range g r) =
      (if \<exists>x. alternatives g = [[x]] \<and> \<not> has_left x \<and> g_tail g = None \<and> l_tail (g_head g) = None
       then [[r]] else alternatives g @ [[r]])"
  proof (cases ?single)
    case True
    then show ?thesis using one ranges_of_cases [of h] by (simp add: group_or_range_def g alternatives_def)
  next
    case False
    then have "\<not> (\<exists>x. alternatives g = [[x]] \<and> \<not> has_left x \<and> g_tail g = None \<and> l_tail (g_head g) = None)"
      using ranges_of_cases [of h] by (cases n) (auto simp: alternatives_def g)
    then show ?thesis using False at_list_or [of "g_head g" r] assms
      by (auto simp: group_or_range_def g group_ok_def tail_ok_def alternatives_def Let_def)
  qed
qed

section \<open>The parser is total and keeps the invariants\<close>

lemma to_range_None [simp]: "to_range tok parsed floor = None \<longleftrightarrow> t_tag tok = TNone"
  by (cases "t_tag tok") (simp_all add: to_range_def)

lemma read_comparator_no_panic: "read_comparator sl floor no_op st \<noteq> Panic"
  by (simp add: read_comparator_def Let_def split: option.split)

lemma query_round_no_panic: "query_round sl floor st \<noteq> Panic"
  by (simp add: query_round_def read_comparator_no_panic split: prod.split)

lemma query_loop_total: "\<exists>g. query_loop sl floor st = Some g"
proof (induction sl floor st rule: query_loop.induct)
  case (1 sl floor st)
  show ?case
  proof (cases "qs_i st < length (ss_slice sl)")
    case True
    then show ?thesis using 1 query_round_no_panic [of sl floor st]
      by (subst query_loop.simps) (auto split: query_step.split)
  qed (subst query_loop.simps, simp)
qed


definition range_in :: "bytes \<Rightarrow> range \<Rightarrow> bool" where
  "range_in buf r \<longleftrightarrow>
     tag_within (vtag (c_version (r_left r))) buf \<and> tag_within (vtag (c_version (r_right r))) buf \<and>
     (has_right r \<longrightarrow> has_left r)"

lemma zero_pre_within [simp]: "tag_within zero_pre buf"
  by (simp add: tag_within_def zero_pre_def is_within_def is_inline_def empty_string_def max_inline_len_def)

declare default_tag_within [simp]

lemma lt_next_within [simp]:
  "tag_within (vtag (c_version (lt_next_major a))) buf"
  "tag_within (vtag (c_version (lt_next_minor a b))) buf"
  "tag_within (vtag (c_version (lt_next_patch a b c))) buf"
  "tag_within (vtag (c_version null_comparator)) buf"
  "tag_within (vtag (c_version default_comparator)) buf"
  "tag_within t buf \<Longrightarrow> tag_within (vtag (c_version (gte_next_major a t))) buf"
  "tag_within t buf \<Longrightarrow> tag_within (vtag (c_version (gte_next_minor a b t))) buf"
  by (simp_all add: lt_next_major_def lt_next_minor_def lt_next_patch_def gte_next_major_def gte_next_minor_def
      null_comparator_def default_comparator_def checked_add_u64_1)

lemma left_only_in:
  "tag_within (vtag (c_version c)) buf \<Longrightarrow> range_in buf (default_range\<lparr>r_left := c\<rparr>)"
  by (simp add: range_in_def default_range_def has_right_def) (simp add: default_comparator_def)

lemma pair_in:
  "tag_within (vtag (c_version l)) buf \<Longrightarrow> tag_within (vtag (c_version r)) buf \<Longrightarrow> c_op l \<noteq> Unset \<Longrightarrow>
     range_in buf \<lparr>r_left = l, r_right = r\<rparr>"
  by (simp add: range_in_def has_left_def)

lemma default_range_in: "range_in buf default_range"
  using left_only_in [of default_comparator buf] by (simp add: default_range_def)

lemma partial_min_tag [simp]: "vtag (partial_min p) = p_tag p"
  by (simp add: partial_min_def)

lemma init_wildcard_in:
  "tag_within (vtag v) buf \<Longrightarrow> tag_within floor buf \<Longrightarrow> range_in buf (init_wildcard v w floor)"
  by (cases w) (simp_all add: init_wildcard_def left_only_in pair_in)

lemma pre_update_within:
  "tag_within t buf \<Longrightarrow> tag_within floor buf \<Longrightarrow> tag_within (t\<lparr>pre := pre floor\<rparr>) buf"
  by (simp add: tag_within_def)

lemma to_range_in:
  assumes "tag_within (p_tag (pr_version parsed)) buf" "tag_within floor buf" "to_range tok parsed floor = Some r"
  shows "range_in buf r"
proof -
  have c: "range_in buf (caret_range parsed floor)"
    using assms(1,2)
    by (auto simp: caret_range_def Let_def init_wildcard_in default_range_in pair_in pre_update_within split: option.split)
  have t: "range_in buf (tilda_range parsed floor)"
    using assms(1,2)
    by (auto simp: tilda_range_def Let_def init_wildcard_in default_range_in pair_in split: option.split)
  have o: "range_in buf (operator_range op w parsed floor)" for op w
    using assms(1,2) by (simp add: operator_range_def Let_def left_only_in init_wildcard_in)
  show ?thesis using assms c t o
    by (cases "t_tag tok") (auto simp: to_range_def left_only_in init_wildcard_in split: if_splits)
qed

lemma hyphen_range_in:
  assumes "tag_within (vtag v) buf" "tag_within (p_tag (pr_version p)) buf" "tag_within floor buf"
  shows "range_in buf (hyphen_range v p floor)"
  using assms by (auto simp: hyphen_range_def Let_def intro!: pair_in pre_update_within split: wildcard.split)

definition query_state_ok :: "sliced_string \<Rightarrow> query_state \<Rightarrow> bool" where
  "query_state_ok sl st \<longleftrightarrow> group_ok (qs_list st) \<and>
     (\<forall>alt\<in>set (alternatives (qs_list st)). \<forall>r\<in>set alt. range_in (ss_buf sl) r)"

definition group_in :: "bytes \<Rightarrow> group \<Rightarrow> bool" where
  "group_in buf g \<longleftrightarrow> group_ok g \<and> (\<forall>alt\<in>set (alternatives g). \<forall>r\<in>set alt. range_in buf r)"

lemma and_to_in: "r \<in> set (and_to alt x) \<Longrightarrow> r \<in> set alt \<or> r = x"
  by (auto simp: and_to_def split: list.splits if_splits)

lemma last_and_in: "alt \<in> set (last_and as x) \<Longrightarrow> r \<in> set alt \<Longrightarrow> (\<exists>b\<in>set as. r \<in> set b) \<or> r = x"
  by (induction as x rule: last_and.induct) (auto dest: and_to_in)

lemma set_flag_group [simp]:
  "group_ok (set_flag n g) = group_ok g" "alternatives (set_flag n g) = alternatives g"
  by (simp_all add: set_flag_def group_ok_def alternatives_def)

lemma note_version_list [simp]:
  "group_ok (qs_list (note_version p st)) = group_ok (qs_list st)"
  "alternatives (qs_list (note_version p st)) = alternatives (qs_list st)"
  "qs_list (set_tag t st) = qs_list st"
  by (simp_all add: note_version_def set_qflag_def set_tag_def Let_def)

lemma add_range_in:
  assumes "group_in buf (qs_list st)" "range_in buf r"
  shows "group_in buf (qs_list (add_range r st))"
proof -
  have g: "group_ok (qs_list st)" and i: "\<And>alt x. alt \<in> set (alternatives (qs_list st)) \<Longrightarrow> x \<in> set alt \<Longrightarrow> range_in buf x"
    using assms(1) by (auto simp: group_in_def)
  have "group_in buf (group_or_range (qs_list st) r)"
    using group_or_range_spec [OF g, of r] i assms(2) by (auto simp: group_in_def split: if_splits)
  moreover have "group_in buf (group_and_range (qs_list st) r)"
    using group_and_range_spec [OF g, of r] i assms(2) last_and_in by (fastforce simp: group_in_def)
  ultimately show ?thesis by (simp add: add_range_def Let_def)
qed

lemma null_set_in: "group_in buf group_null_set"
  using left_only_in [of null_comparator buf]
  by (simp add: group_in_def group_null_set_def from_comparator_def group_ok_def alternatives_def tail_ok_def
      default_group_def)

lemma read_token_list:
  assumes "read_token input st = (st', s, n)"
  shows "group_in buf (qs_list st') = group_in buf (qs_list st)"
proof -
  have "qs_list st' = qs_list st \<or> (\<exists>k. qs_list st' = set_flag k (qs_list st))"
    using assms by (auto simp: read_token_def operator_arm_def Let_def set_qflag_def split: if_splits)
  then show ?thesis by (auto simp: group_in_def)
qed

lemma version_parse_within:
  assumes "in_bounds sl" "i \<le> length (ss_slice sl)"
  shows "tag_within (p_tag (pr_version (version_parse (sub_range sl i (ss_len sl))))) (ss_buf sl)"
proof -
  have "in_bounds (sub_range sl i (ss_len sl))"
    using assms length_in_bounds [OF assms(1)] by (intro in_bounds_sub_range) simp_all
  from version_parse_ok [OF this] show ?thesis by simp
qed

lemma skip_spaces_le: "i \<le> length input \<Longrightarrow> skip_spaces input i \<le> length input"
  by (simp add: skip_spaces_def skip_while_le)

lemma skip_white_le: "i \<le> length input \<Longrightarrow> skip_white input i \<le> length input"
  using skip_while_le [of 0 "drop i input" "\<lambda>c. c \<in> set whitespace_chars"]
  by (simp add: skip_white_def length_of_leading_whitespace_ascii_def le_diff_conv2 add.commute)

lemma possibly_hyphenate_le:
  assumes "possibly_hyphenate input i = Some j"
  shows "j \<le> length input"
proof -
  let ?w = "skip_white input i" let ?a = "skip_white input (?w + 1)"
  have h: "?w < length input" "?a \<noteq> length input" "j = skip_white input ?a \<or> j = skip_white input (?a + 1)"
    using assms by (auto simp: possibly_hyphenate_def Let_def split: if_splits)
  then have "?a < length input" using skip_white_le [of "?w + 1" input] by simp
  then show ?thesis using h(3) skip_white_le [of ?a input] skip_white_le [of "?a + 1" input] by auto
qed

lemma operator_arm_le: "qs_i st < length input \<Longrightarrow> qs_i (operator_arm input c st) \<le> length input"
  using skip_spaces_le [of "qs_i st + 1" input]
  by (simp add: operator_arm_def Let_def skip_spaces_le)

lemma read_token_le:
  assumes "read_token input st = (st', s, n)" "qs_i st < length input"
  shows "qs_i st' \<le> length input"
  using assms
  by (auto simp: read_token_def operator_arm_le skip_spaces_le skip_while_le Let_def split: if_splits)

lemma read_comparator_in:
  assumes "in_bounds sl" "tag_within floor (ss_buf sl)" "qs_i st \<le> length (ss_slice sl)" "group_in (ss_buf sl) (qs_list st)"
  shows "case read_comparator sl floor no_op st of
    Panic \<Rightarrow> True | Return g \<Rightarrow> group_in (ss_buf sl) g | Continue st' \<Rightarrow> group_in (ss_buf sl) (qs_list st')"
proof -
  let ?p = "version_parse (sub_range sl (qs_i st) (ss_len sl))"
  note p = version_parse_within [OF assms(1,3)]
  have q: "tag_within (p_tag (pr_version (version_parse (sub_range sl j (ss_len sl))))) (ss_buf sl)"
    if "possibly_hyphenate (ss_slice sl) i = Some j" for i j
    by (rule version_parse_within [OF assms(1) possibly_hyphenate_le [OF that]])
  have g: "group_in (ss_buf sl) (qs_list (note_version x s)) = group_in (ss_buf sl) (qs_list s)" for x s
    by (simp add: group_in_def)
  have f: "group_in (ss_buf sl) (qs_list (set_qflag k s)) = group_in (ss_buf sl) (qs_list s)" for k s
    by (simp add: group_in_def set_qflag_def)
  show ?thesis
    using assms(2,4) p q to_range_in [OF p assms(2)]
    by (auto simp: read_comparator_def Let_def null_set_in f g intro!: add_range_in hyphen_range_in split: option.split)
qed

lemma query_loop_in:
  "in_bounds sl \<Longrightarrow> tag_within floor (ss_buf sl) \<Longrightarrow> group_in (ss_buf sl) (qs_list st) \<Longrightarrow>
     query_loop sl floor st = Some g \<Longrightarrow> group_in (ss_buf sl) g"
proof (induction sl floor st rule: query_loop.induct)
  case (1 sl floor st)
  show ?case
  proof (cases "qs_i st < length (ss_slice sl)")
    case True
    obtain st' s n where t: "read_token (ss_slice sl) st = (st', s, n)" by (cases "read_token (ss_slice sl) st")
    have g: "group_in (ss_buf sl) (qs_list st')" and i: "qs_i st' \<le> length (ss_slice sl)"
      using read_token_list [OF t] read_token_le [OF t True] "1.prems"(3) by simp_all
    have r: "query_round sl floor st = (if s then Continue st' else read_comparator sl floor n st')"
      using t by (simp add: query_round_def)
    have "case query_round sl floor st of
        Panic \<Rightarrow> True | Return g \<Rightarrow> group_in (ss_buf sl) g | Continue st' \<Rightarrow> group_in (ss_buf sl) (qs_list st')"
      using r g read_comparator_in [OF "1.prems"(1,2) i g, of n] by (cases s) simp_all
    then show ?thesis
      using 1 True by (cases "query_round sl floor st") (simp_all add: query_loop.simps [of sl floor st])
  next
    case False
    then show ?thesis using "1.prems" by (simp add: query_loop.simps [of sl floor st])
  qed
qed

lemma default_group_in: "group_in buf default_group"
  using default_range_in by (simp add: group_in_def default_group_def group_ok_def alternatives_def tail_ok_def
      default_list_def default_query_def)

text \<open>C8: every group the parser returns is well formed: each cached tail is the last node of its chain, so a
  later insertion overwrites nothing; a range with a second comparator has a first; and every tag of
  every comparator lies inside the buffer that was parsed.\<close>

theorem parse_well_formed:
  assumes "in_bounds sl" "floor \<in> {default_tag, zero_pre}" "parse_with sl floor = Some g"
  shows "group_ok g \<and> (\<forall>alt\<in>set (alternatives g). \<forall>r\<in>set alt. range_in (ss_buf sl) r)"
proof -
  have "tag_within floor (ss_buf sl)" using assms(2) by auto
  from query_loop_in [OF assms(1) this _ assms(3) [unfolded parse_with_def]]
  have "group_in (ss_buf sl) g" by (simp add: default_group_in)
  then show ?thesis
    by (simp_all add: group_in_def)
qed

theorem parse_well_formed_witness: "group_ok (the (query_parse (sliced_init ''>=1.2.3-rc.1 <2 || ^3'')))"
  using parse_well_formed [of "sliced_init ''>=1.2.3-rc.1 <2 || ^3''" default_tag]
    query_loop_total [of "sliced_init ''>=1.2.3-rc.1 <2 || ^3''" default_tag]
  by (auto simp: query_parse_def parse_with_def in_bounds_def sliced_init_def)

section \<open>Reading one comparator\<close>

lemma single_range:
  assumes "g_head g = default_list" "g_tail g = None"
  shows "alternatives (group_or_range g r) = [[r]]" "alternatives (group_and_range g r) = [[r]]"
  using assms
  by (simp_all add: group_or_range_def group_and_range_def default_list_def default_query_def list_and_range_def
      alternatives_def has_left_def has_right_def default_range_def default_comparator_def)

lemma note_version_same:
  "g_head (qs_list (note_version p st)) = g_head (qs_list st)" "g_tail (qs_list (note_version p st)) = g_tail (qs_list st)"
  "qs_token (note_version p st) = qs_token st"
  by (simp_all add: note_version_def set_qflag_def set_flag_def Let_def)

lemma read_last_comparator:
  assumes "parsed = version_parse (sub_range sl (qs_i st) (ss_len sl))"
    and "\<not> pr_overflow parsed" "pr_valid parsed" "qs_i st + pr_len parsed = length (ss_slice sl)"
    and "g_head (qs_list st) = default_list" "g_tail (qs_list st) = None"
    and "to_range ((qs_token st)\<lparr>t_wildcard := pr_wildcard parsed\<rparr>) parsed floor = Some r"
  obtains st' where "read_comparator sl floor no_op st = Continue st'" "alternatives (qs_list st') = [[r]]"
    "length (ss_slice sl) < qs_i st'"
proof -
  obtain qi ql qt qo qa where n: "note_version parsed st =
      \<lparr>qs_i = qi, qs_list = ql, qs_token = qt, qs_is_or = qo, qs_after_comparator = qa\<rparr>"
    by (cases "note_version parsed st")
  have qt: "qs_token st = qt" using note_version_same(3) [of parsed st] n by simp
  let ?st = "\<lparr>qs_i = Suc (length (ss_slice sl)), qs_list = ql, qs_token = qt\<lparr>t_wildcard := pr_wildcard parsed\<rparr>,
    qs_is_or = (no_op \<and> \<not> qa) \<or> qo, qs_after_comparator = qa\<rparr>"
  have hy: "possibly_hyphenate (ss_slice sl) (length (ss_slice sl)) = None" by (simp add: possibly_hyphenate_def)
  have tg: "t_tag qt \<noteq> TNone"
    using assms(7) to_range_None [of "(qs_token st)\<lparr>t_wildcard := pr_wildcard parsed\<rparr>" parsed floor] qt by simp
  have gt: "get (ss_slice sl) (length (ss_slice sl)) = None" by (simp add: get_def)
  have ql: "g_head ql = default_list" "g_tail ql = None" using note_version_same(1,2) [of parsed st] n assms(5,6) by simp_all
  have "read_comparator sl floor no_op st = Continue ((add_range r ?st)\<lparr>qs_after_comparator := False\<rparr>)"
    unfolding read_comparator_def Let_def assms(1) [symmetric]
    using assms(2-4,7) hy tg gt qt
    by (cases no_op; cases qa) (simp_all add: n)
  from that [OF this] show thesis
    using ql by (simp add: add_range_def Let_def single_range)
qed

lemma query_loop_last:
  assumes "read_token (ss_slice sl) st = (st1, False, no_op)" "qs_i st < length (ss_slice sl)"
    and "read_comparator sl floor no_op st1 = Continue st'" "length (ss_slice sl) < qs_i st'"
  shows "query_loop sl floor st = Some (qs_list st')"
  using assms query_loop.simps [of sl floor st] query_loop.simps [of sl floor st'] by (simp add: query_round_def)

text \<open>What each operator's text leaves for the version parser.\<close>

definition op_text :: "op \<Rightarrow> bytes" where
  "op_text op = (case op of Unset \<Rightarrow> [] | Eql \<Rightarrow> ''=='' | Lt \<Rightarrow> ''<'' | Lte \<Rightarrow> ''<='' | Gt \<Rightarrow> ''>'' | Gte \<Rightarrow> ''>='')"

definition op_tag :: "op \<Rightarrow> token_tag" where
  "op_tag op = (case op of Unset \<Rightarrow> TNone | Eql \<Rightarrow> TVersion | Lt \<Rightarrow> TLt | Lte \<Rightarrow> TLte | Gt \<Rightarrow> TGt | Gte \<Rightarrow> TGte)"

abbreviation initial_state :: query_state where
  "initial_state \<equiv> \<lparr>qs_i = 0, qs_list = default_group, qs_token = default_token, qs_is_or = False,
     qs_after_comparator = False\<rparr>"

lemma skip_spaces_stop:
  "i < length input \<Longrightarrow> input ! i \<noteq> CHR '' '' \<Longrightarrow> skip_spaces input i = i"
  by (simp add: skip_spaces_def skip_while_step [of _ input i])

lemma read_op_text:
  assumes "input = op_text op @ d # ds" "is_ascii_digit d" "op \<noteq> Unset"
  obtains i no_op where "read_token input initial_state =
      (initial_state\<lparr>qs_i := i, qs_token := \<lparr>t_tag = op_tag op, t_wildcard = WNone\<rparr>\<rparr>, False, no_op)"
    and "drop i input = (if op = Eql then ''='' else []) @ d # ds" "i \<le> length input"
proof -
  note d = digit_not_special(1) [OF assms(2)]
  have de: "d \<noteq> CHR ''=''" using digit_not_special(4) [OF assms(2)] by (auto simp: is_version_prefix_def)
  let ?i = "if op \<in> {Lte, Gte} then 2 else 1 :: nat"
  have "read_token input initial_state =
      (initial_state\<lparr>qs_i := ?i, qs_token := \<lparr>t_tag = op_tag op, t_wildcard = WNone\<rparr>\<rparr>, False, op = Eql)"
    using assms(1,3) d de
    by (cases op) (simp_all add: read_token_def operator_arm_def op_text_def op_tag_def skip_spaces_stop Let_def
        set_tag_def default_token_def)
  then show thesis by (rule that) (use assms(1,3) in \<open>cases op; simp add: op_text_def\<close>)+
qed

lemma to_range_op:
  "op \<noteq> Unset \<Longrightarrow> to_range \<lparr>t_tag = op_tag op, t_wildcard = WNone\<rparr> parsed floor =
     Some (default_range\<lparr>r_left := \<lparr>c_op = op, c_version = partial_min (pr_version parsed)\<rparr>\<rparr>)"
  by (cases op) (simp_all add: to_range_def op_tag_def operator_range_def)

lemma comparator_fmt_op: "c_op c \<noteq> Unset \<Longrightarrow> comparator_fmt bstr c b = op_text (c_op c) @ version_fmt bstr (c_version c) b"
  by (cases "c_op c") (simp_all add: comparator_fmt_def op_text_def)

lemma comparator_satisfies_key:
  assumes "version_key (w, d) = version_key (v, b)"
  shows "comparator_satisfies \<lparr>c_op = op, c_version = w\<rparr> u d ub \<longleftrightarrow> comparator_satisfies \<lparr>c_op = op, c_version = v\<rparr> u b ub"
proof -
  have "major w = major v" "minor w = minor v" "patch w = patch v" "has_pre (vtag w) = has_pre (vtag v)"
    using assms by (auto simp: version_key_def pre_key_def split: if_splits)
  then show ?thesis
    using assms by (simp add: comparator_satisfies_def version_order_without_build_key is_zero_def
        split: ordering.split op.split)
qed


lemma version_parse_fmt:
  assumes "bstr_keeps_ascii bstr" "tag_chars_ok v b" "in_bounds sl" "list_all is_version_prefix pfx"
    and "ss_slice sl = pfx @ version_fmt bstr v b"
  obtains w where "version_parse sl = \<lparr>pr_wildcard = WNone, pr_valid = True, pr_overflow = False,
      pr_version = \<lparr>p_major = Some (major w), p_minor = Some (minor w), p_patch = Some (patch w), p_tag = vtag w\<rparr>,
      pr_len = length (ss_slice sl)\<rparr>"
    and "version_key (w, ss_buf sl) = version_key (v, b)"
proof -
  have ok: "pred_option (list_all is_pre_char) (pre_text v b)"
    "pred_option (list_all valid_pre_or_build_tag_character) (build_text v b)"
    using assms(2) by (simp_all add: tag_chars_ok_def Let_def)
  have s: "ss_slice sl = pfx @ show_u64 (major v) @ ''.'' @ show_u64 (minor v) @ ''.'' @ show_u64 (patch v) @
      tag_text (pre_text v b) (build_text v b) @ []"
    using assms(5) version_fmt_tag_text [OF assms(1,2)] by simp
  obtain t where t: "tag_reads t (ss_buf sl) (pre_text v b) (build_text v b)"
    and p: "version_parse sl = \<lparr>pr_wildcard = WNone, pr_valid = True, pr_overflow = False,
      pr_version = \<lparr>p_major = Some (major v), p_minor = Some (minor v), p_patch = Some (patch v), p_tag = t\<rparr>,
      pr_len = length (ss_slice sl) - length ([] :: bytes)\<rparr>"
    using version_parse_text [OF assms(3) s assms(4) _ ok] by (auto simp: stops_def)
  let ?w = "\<lparr>major = major v, minor = minor v, patch = patch v, vtag = t\<rparr>"
  have "external_slice (pre t) (ss_buf sl) = external_slice (pre (vtag v)) b" "has_pre t = has_pre (vtag v)"
    "external_slice (build t) (ss_buf sl) = external_slice (build (vtag v)) b"
    using t assms(2) by (auto simp: tag_reads_def tag_chars_ok_def Let_def)
  then have "version_key (?w, ss_buf sl) = version_key (v, b)" by (simp add: version_key_def pre_key_def)
  then show thesis using that [of ?w] p by simp
qed

lemma parse_comparator:
  assumes "bstr_keeps_ascii bstr" "tag_chars_ok (c_version c) b" "c_op c \<noteq> Unset"
    and "length (comparator_fmt bstr c b) < 2 ^ 31"
  obtains g w where "query_parse (sliced_init (comparator_fmt bstr c b)) = Some g"
    and "alternatives g = [[default_range\<lparr>r_left := \<lparr>c_op = c_op c, c_version = w\<rparr>\<rparr>]]"
    and "version_key (w, comparator_fmt bstr c b) = version_key (c_version c, b)"
proof -
  let ?v = "version_fmt bstr (c_version c) b" and ?s = "comparator_fmt bstr c b"
  let ?sl = "sliced_init ?s"
  have sl: "in_bounds ?sl" "ss_slice ?sl = ?s" "ss_buf ?sl = ?s" "ss_len ?sl = length ?s"
    using assms(4) by (simp_all add: in_bounds_def sliced_init_def ss_slice_def)
  obtain d ds where d: "?v = d # ds" "is_ascii_digit d"
    using show_u64_digits [of _ "major (c_version c)"] by (cases "show_u64 (major (c_version c))") (auto simp: version_fmt_def)
  obtain i no_op where t: "read_token ?s initial_state =
      (initial_state\<lparr>qs_i := i, qs_token := \<lparr>t_tag = op_tag (c_op c), t_wildcard = WNone\<rparr>\<rparr>, False, no_op)"
    and i: "drop i ?s = (if c_op c = Eql then ''='' else []) @ d # ds" "i \<le> length ?s"
    using read_op_text [OF _ d(2) assms(3), of ?s ds] comparator_fmt_op [OF assms(3)] d(1) by auto
  let ?sub = "sub_range ?sl i (ss_len ?sl)"
  have sub: "ss_slice ?sub = (if c_op c = Eql then ''='' else []) @ ?v" "in_bounds ?sub" "ss_buf ?sub = ?s"
  proof -
    have "take (length ?s - i) (drop i ?s) = drop i ?s" by simp
    then show "ss_slice ?sub = (if c_op c = Eql then ''='' else []) @ ?v"
      using i d(1) sl by (simp add: sub_range_slice range_of_def)
    show "in_bounds ?sub" "ss_buf ?sub = ?s"
      using i(2) sl in_bounds_sub_range [OF sl(1), of i "length ?s"] by simp_all
  qed
  have pfx: "list_all is_version_prefix (if c_op c = Eql then ''='' else [])" by (simp add: is_version_prefix_def)
  obtain w where p: "version_parse ?sub = \<lparr>pr_wildcard = WNone, pr_valid = True, pr_overflow = False,
      pr_version = \<lparr>p_major = Some (major w), p_minor = Some (minor w), p_patch = Some (patch w), p_tag = vtag w\<rparr>,
      pr_len = length (ss_slice ?sub)\<rparr>" and k: "version_key (w, ?s) = version_key (c_version c, b)"
    using version_parse_fmt [OF assms(1,2) sub(2) pfx sub(1)] sub(3) by auto
  have l: "i + length (ss_slice ?sub) = length ?s" using sub(1) i d(1) by (metis add_diff_inverse_nat drop_eq_Nil2 length_drop linorder_not_less nat_less_le)
  let ?st = "initial_state\<lparr>qs_i := i, qs_token := \<lparr>t_tag = op_tag (c_op c), t_wildcard = WNone\<rparr>\<rparr>"
  let ?r = "default_range\<lparr>r_left := \<lparr>c_op = c_op c, c_version = w\<rparr>\<rparr>"
  obtain st' where st': "read_comparator ?sl default_tag no_op ?st = Continue st'" "alternatives (qs_list st') = [[?r]]"
    "length (ss_slice ?sl) < qs_i st'"
    using read_last_comparator [of _ ?sl ?st default_tag ?r no_op] p l sl to_range_op [OF assms(3)]
    by (auto simp: default_group_def partial_min_def)
  have "0 < length ?s" using d(1) comparator_fmt_op [OF assms(3)] by simp
  then have "query_parse ?sl = Some (qs_list st')"
    using query_loop_last [of ?sl initial_state ?st no_op default_tag st'] t st' sl(2)
    by (simp add: query_parse_def parse_with_def)
  then show thesis using that st'(2) k by blast
qed

text \<open>C7: parsing the printed form of a comparator (\<^verbatim>\<open>==\<close>, \<^verbatim>\<open><\<close>, \<^verbatim>\<open><=\<close>, \<^verbatim>\<open>>\<close> or \<^verbatim>\<open>>=\<close> and a version with
  any tags) gives a group with the meaning of that comparator: the same versions satisfy it, a
  prerelease only where the comparator is a prerelease of the same version.\<close>

theorem parse_comparator_fmt:
  assumes "bstr_keeps_ascii bstr" "tag_chars_ok (c_version c) b" "c_op c \<noteq> Unset"
    and "length (comparator_fmt bstr c b) < 2 ^ 31"
  shows "\<exists>g. query_parse (sliced_init (comparator_fmt bstr c b)) = Some g \<and>
    (\<forall>u ub. group_satisfies g u (comparator_fmt bstr c b) ub \<longleftrightarrow> comparator_satisfies c u b ub \<and>
       (has_pre (vtag u) \<longrightarrow> has_pre (vtag (c_version c)) \<and> same_core u (c_version c)))"
proof -
  let ?s = "comparator_fmt bstr c b"
  obtain g w where g: "query_parse (sliced_init ?s) = Some g"
    "alternatives g = [[default_range\<lparr>r_left := \<lparr>c_op = c_op c, c_version = w\<rparr>\<rparr>]]"
    and k: "version_key (w, ?s) = version_key (c_version c, b)"
    by (rule parse_comparator [OF assms])
  have c: "\<lparr>c_op = c_op c, c_version = c_version c\<rparr> = c" by simp
  have "major w = major (c_version c)" "minor w = minor (c_version c)" "patch w = patch (c_version c)"
    "has_pre (vtag w) = has_pre (vtag (c_version c))"
    using k by (auto simp: version_key_def pre_key_def split: if_splits)
  then have "group_satisfies g u ?s ub \<longleftrightarrow> comparator_satisfies c u b ub \<and>
       (has_pre (vtag u) \<longrightarrow> has_pre (vtag (c_version c)) \<and> same_core u (c_version c))" for u ub
    using g(2) assms(3) comparator_satisfies_key [OF k, of "c_op c" u ub] c
    by (simp add: group_satisfies_def list_satisfies_ex list_satisfies_pre_ex alternatives_def range_satisfies_def
        has_left_def has_right_def default_range_def default_comparator_def pre_allows_def same_core_def)
  then show ?thesis using g(1) by blast
qed

theorem parse_comparator_fmt_witness:
  "\<exists>g. query_parse (sliced_init ''>=1.2.3-rc.1'') = Some g \<and>
     \<not> group_satisfies g (default_version\<lparr>major := 1, minor := 2, patch := 2\<rparr>) ''>=1.2.3-rc.1'' []"
proof -
  let ?c = "\<lparr>c_op = Gte, c_version = \<lparr>major = 1, minor = 2, patch = 3,
    vtag = \<lparr>pre = external (sliced_init ''rc.1''), build = default_external\<rparr>\<rparr>\<rparr>"
  let ?u = "default_version\<lparr>major := 1, minor := 2, patch := 2\<rparr>"
  have "comparator_fmt bstr_lossy ?c [] = ''>=1.2.3-rc.1''" "tag_chars_ok (c_version ?c) []"
    "\<not> comparator_satisfies ?c ?u [] []" by code_simp+
  then show ?thesis using parse_comparator_fmt [OF bstr_lossy_ascii, of ?c "[]"] by auto
qed

lemma version_parse_overflow:
  assumes "ss_slice sl = pfx @ show_nat n" "pfx = [] \<or> pfx = ''=''" "2 ^ 64 \<le> n"
  shows "pr_overflow (version_parse sl)"
proof -
  let ?s = "ss_slice sl" and ?i = "length pfx"
  have dig: "\<forall>c\<in>set (show_nat n). is_ascii_digit c" using show_nat_digits by blast
  obtain d ds where d: "show_nat n = d # ds" by (cases "show_nat n") auto
  have dd: "is_ascii_digit d" using dig d by simp
  have i: "skip_while is_version_prefix ?s 0 = ?i"
    using skip_while_run [of 0 ?s pfx "show_nat n" is_version_prefix] assms(1,2) d digit_not_special(4) [OF dd]
    by (auto simp: is_version_prefix_def)
  have j: "skip_while is_ascii_digit ?s (?i + 1) = length ?s"
    using skip_while_run [of "?i + 1" ?s ds "[]" is_ascii_digit] assms(1) d dig by simp
  have none: "parse_ascii (range_of ?s ?i (length ?s)) = None"
    using parse_unsigned_show_nat_overflow [OF assms(3)] assms(1) by (simp add: parse_ascii_def range_of_def)
  let ?st = "\<lparr>ps_i = ?i, ps_part_i = 0, ps_result = default_parse_result\<rparr>"
  have at: "?s ! ?i = d" "?i < length ?s" using assms(1) d by simp_all
  have step: "parse_step sl ?st = parse_number_arm ?s ?st"
    using digit_not_special [OF dd] dd at by (simp add: parse_step_def Let_def)
  have "parse_number_arm ?s ?st =
      Inl \<lparr>ps_i = length ?s, ps_part_i = 0, ps_result = default_parse_result\<lparr>pr_valid := False, pr_overflow := True\<rparr>\<rparr>"
    using j none by (simp add: parse_number_arm_def Let_def default_parse_result_def)
  then have "parse_loop sl ?st =
      \<lparr>ps_i = length ?s, ps_part_i = 0, ps_result = default_parse_result\<lparr>pr_valid := False, pr_overflow := True\<rparr>\<rparr>"
    using step at by (subst parse_loop.simps) simp
  then show ?thesis using i at by (auto simp: version_parse_def Let_def)
qed

text \<open>A comparator whose number does not fit 64 bits makes the whole range empty: the parser returns the
  null set, as node-semver rejects such a range.\<close>

theorem parse_overflow_empty:
  assumes "2 ^ 64 \<le> n" "op \<noteq> Unset"
  shows "query_parse (sliced_init (op_text op @ show_nat n)) = Some group_null_set"
proof -
  let ?s = "op_text op @ show_nat n" and ?sl = "sliced_init (op_text op @ show_nat n)"
  obtain d ds where d: "show_nat n = d # ds" "is_ascii_digit d"
    using show_nat_digits [of "hd (show_nat n)" n] by (cases "show_nat n") auto
  obtain i no_op where t: "read_token ?s initial_state =
      (initial_state\<lparr>qs_i := i, qs_token := \<lparr>t_tag = op_tag op, t_wildcard = WNone\<rparr>\<rparr>, False, no_op)"
    and i: "drop i ?s = (if op = Eql then ''='' else []) @ d # ds" "i \<le> length ?s"
    using read_op_text [OF _ d(2) assms(2), of ?s ds] d(1) by auto
  have sl: "ss_slice ?sl = ?s" "ss_len ?sl = length ?s" by (simp_all add: sliced_init_def ss_slice_def)
  have "range_of ?s i (length ?s) = drop i ?s"
    unfolding range_of_def by (rule take_all) (simp only: length_drop order_refl)
  then have "ss_slice (sub_range ?sl i (ss_len ?sl)) = (if op = Eql then ''='' else []) @ show_nat n"
    using sub_range_slice [of i "length ?s" ?sl] i d(1) sl by (simp only:)
  from version_parse_overflow [OF this _ assms(1)]
  have "pr_overflow (version_parse (sub_range ?sl i (ss_len ?sl)))" by simp
  then have "query_round ?sl default_tag initial_state = Return group_null_set"
    using t sl(1) by (simp add: query_round_def read_comparator_def Let_def)
  moreover have "0 < length ?s" using d(1) by simp
  ultimately show ?thesis
    using sl(1) by (simp add: query_parse_def parse_with_def query_loop.simps [of ?sl default_tag initial_state])
qed

theorem parse_overflow_empty_witness:
  "query_parse (sliced_init (''>='' @ show_nat 18446744073709551616)) = Some group_null_set"
  using parse_overflow_empty [of 18446744073709551616 Gte] by (simp add: op_text_def)

text \<open>\<^verbatim>\<open>Group::from\<close>: the group of one version is satisfied exactly by the versions equal to it, build
  metadata aside, prereleases included.\<close>

theorem group_from_exact:
  "group_satisfies (group_from v) u b ub \<longleftrightarrow> version_order_without_build u v ub b = Equal"
proof -
  have s: "range_satisfies (default_range\<lparr>r_left := \<lparr>c_op = Eql, c_version = v\<rparr>\<rparr>) u b ub \<longleftrightarrow>
      version_order_without_build u v ub b = Equal"
    by (simp add: range_satisfies_def has_left_def has_right_def default_range_def default_comparator_def
        comparator_satisfies_def split: ordering.split)
  have "same_core u v \<and> has_pre (vtag v) = has_pre (vtag u)" if "version_order_without_build u v ub b = Equal"
    using that by (auto simp: version_order_without_build_key precedence_core same_core_def pre_key_def split: if_splits)
  then show ?thesis using s
    by (auto simp: group_satisfies_def group_from_def from_comparator_def list_satisfies_ex list_satisfies_pre_ex
        pre_allows_def has_left_def has_right_def default_range_def default_comparator_def)
qed


lemma query_clone_id [simp]: "query_clone q = q"
  by (induction q rule: query_clone.induct) simp_all

lemma list_clone_ok:
  "list_alts (list_clone l) = list_alts l" "list_ok (list_clone l)" "list_last (list_clone l) = list_last l"
  by (induction l rule: list_clone.induct) (auto simp: clone_tail_def tail_ok_def query_last_0)

text \<open>A clone of any group, whatever its cached tails, has the same alternatives, and its own tails are on the
  last nodes of the copied chains.\<close>

theorem group_clone_ok: "alternatives (group_clone g) = alternatives g \<and> group_ok (group_clone g)"
  using list_clone_ok [of "g_head g"] list_last_0 [of "list_clone (g_head g)"]
  by (auto simp: group_clone_def alternatives_def group_ok_def tail_ok_def Let_def)

text \<open>Adding a range to a well-formed group: \<^verbatim>\<open>and_range\<close> adds it to the last alternative, or fills it when it
  is still unset; the group stays well formed.\<close>

theorem and_range_adds:
  assumes "group_ok g"
  shows "alternatives (group_and_range g r) = last_and (alternatives g) r \<and> group_ok (group_and_range g r)"
  using group_and_range_spec [OF assms] by simp

theorem and_range_adds_witness:
  "alternatives (group_and_range (group_or_range (group_from default_version) default_range) default_range) =
   last_and [[default_range\<lparr>r_left := \<lparr>c_op = Eql, c_version = default_version\<rparr>\<rparr>], [default_range]] default_range"
proof -
  have "group_ok (group_from default_version)"
    by (simp add: group_ok_def group_from_def from_comparator_def default_group_def tail_ok_def)
  moreover have "alternatives (group_or_range (group_from default_version) default_range) =
      [[default_range\<lparr>r_left := \<lparr>c_op = Eql, c_version = default_version\<rparr>\<rparr>], [default_range]]"
    by (simp add: group_or_range_def group_from_def from_comparator_def default_group_def alternatives_def
        set_l_next_def has_left_def)
  ultimately show ?thesis
    using and_range_adds [of "group_or_range (group_from default_version) default_range" default_range]
      group_or_range_spec(1) by simp
qed

end
