(* ===== verification/Semver_Inc.thy ===== *)
theory Semver_Inc
  imports Semver_Range
begin

text \<open>
  \<^verbatim>\<open>src/semver/inc.rs\<close>: node-semver's \<^verbatim>\<open>inc\<close>, which bumps one part of a version or its
  prerelease. \<^verbatim>\<open>None\<close> is the source's \<^verbatim>\<open>None\<close>: there is nothing to increment to.

  The lemmas show when it fails, what it does to the numbers, and that without an identifier the
  version it prints is above the one it was given.
\<close>

section \<open>Definitions\<close>

datatype release_type = RMajor | RMinor | RPatch | RPremajor | RPreminor | RPrepatch | RPrerelease | RRelease

definition all_releases :: "release_type list" where
  "all_releases = [RMajor, RMinor, RPatch, RPremajor, RPreminor, RPrepatch, RPrerelease, RRelease]"

fun release_as_str :: "release_type \<Rightarrow> bytes" where
  "release_as_str RMajor = ''major''"
| "release_as_str RMinor = ''minor''"
| "release_as_str RPatch = ''patch''"
| "release_as_str RPremajor = ''premajor''"
| "release_as_str RPreminor = ''preminor''"
| "release_as_str RPrepatch = ''prepatch''"
| "release_as_str RPrerelease = ''prerelease''"
| "release_as_str RRelease = ''release''"

definition release_from_bytes :: "bytes \<Rightarrow> release_type option" where
  "release_from_bytes name = List.find (\<lambda>r. release_as_str r = name) all_releases"

definition is_pre :: "release_type \<Rightarrow> bool" where
  "is_pre r \<longleftrightarrow> r \<in> {RPremajor, RPreminor, RPrepatch, RPrerelease}"

datatype identifier_base = BaseZero | BaseOne | BaseNone

datatype pre_identifier = IdNumber u64 | IdText bytes

definition is_numeric :: "bytes \<Rightarrow> bool" where
  "is_numeric part \<longleftrightarrow> part \<noteq> [] \<and> list_all is_ascii_digit part"

definition identifier_parse :: "bytes \<Rightarrow> pre_identifier" where
  "identifier_parse text =
     (if is_numeric text then
        (case parse_unsigned text 10 of
           Inr number \<Rightarrow> if number \<le> max_safe_integer then IdNumber number else IdText text
         | Inl _ \<Rightarrow> IdText text)
      else IdText text)"

fun identifier_equals :: "pre_identifier \<Rightarrow> bytes \<Rightarrow> bool" where
  "identifier_equals (IdNumber number) text = (is_numeric text \<and> parse_unsigned text 10 = Inr number)"
| "identifier_equals (IdText own) text = (own = text)"

fun identifier_write :: "pre_identifier \<Rightarrow> bytes" where
  "identifier_write (IdNumber number) = show_u64 number"
| "identifier_write (IdText text) = text"

definition is_valid_identifier :: "bytes \<Rightarrow> bool" where
  "is_valid_identifier identifier \<longleftrightarrow> identifier \<noteq> [] \<and>
     list_all (\<lambda>part. part \<noteq> [] \<and> list_all (\<lambda>c. is_ascii_alphanumeric c \<or> c = CHR ''-'') part \<and>
         \<not> (is_numeric part \<and> 1 < length part \<and> part ! 0 = CHR ''0''))
       (split identifier ''.'')"

text \<open>\<^verbatim>\<open>write_joined\<close>: a dot before every part but the first.\<close>

fun write_joined :: "pre_identifier list \<Rightarrow> bytes" where
  "write_joined [] = []"
| "write_joined [p] = identifier_write p"
| "write_joined (p # q # ps) = identifier_write p @ ''.'' @ write_joined (q # ps)"

text \<open>
  The last numeric part counted up in place: \<^verbatim>\<open>None\<close> without a numeric part, \<^verbatim>\<open>Some None\<close> when it
  would overflow.
\<close>

fun bump_last_number :: "pre_identifier list \<Rightarrow> pre_identifier list option option" where
  "bump_last_number [] = None"
| "bump_last_number (p # ps) =
     (case bump_last_number ps of
        Some r \<Rightarrow> Some (map_option ((#) p) r)
      | None \<Rightarrow>
          (case p of
             IdNumber n \<Rightarrow> Some (map_option (\<lambda>m. IdNumber m # ps) (checked_add_u64 n 1))
           | IdText _ \<Rightarrow> None))"

definition base_number :: "identifier_base \<Rightarrow> u64" where
  "base_number base = (if base = BaseOne then 1 else 0)"

definition count_up :: "pre_identifier list \<Rightarrow> bytes option \<Rightarrow> identifier_base \<Rightarrow> pre_identifier list option" where
  "count_up parts identifier base =
     (if parts = [] then Some [IdNumber (base_number base)]
      else case bump_last_number parts of
             Some r \<Rightarrow> r
           | None \<Rightarrow>
               if base = BaseNone \<and> identifier = Some (write_joined parts) then None
               else Some (parts @ [IdNumber (base_number base)]))"

definition has_number :: "pre_identifier list \<Rightarrow> bool" where
  "has_number parts =
     (case get parts 1 of
        Some (IdNumber _) \<Rightarrow> True
      | Some (IdText text) \<Rightarrow> is_numeric text
      | None \<Rightarrow> False)"

definition bump_prerelease :: "pre_identifier list \<Rightarrow> bytes option \<Rightarrow> identifier_base \<Rightarrow> pre_identifier list option" where
  "bump_prerelease parts identifier base =
     (case count_up parts identifier base of
        None \<Rightarrow> None
      | Some parts \<Rightarrow>
          Some (case identifier of
                  None \<Rightarrow> parts
                | Some name \<Rightarrow>
                    if \<not> identifier_equals (parts ! 0) name \<or> \<not> has_number parts
                    then IdText name # (if base \<noteq> BaseNone then [IdNumber (base_number base)] else [])
                    else parts))"

text \<open>The \<^verbatim>\<open>match\<close> on the release type: the new numbers and prerelease.\<close>

type_synonym incremented = "u64 \<times> u64 \<times> u64 \<times> pre_identifier list"

definition inc_step ::
  "version \<Rightarrow> pre_identifier list \<Rightarrow> release_type \<Rightarrow> bytes option \<Rightarrow> identifier_base \<Rightarrow> incremented option" where
  "inc_step v parts rel identifier base =
     (let ma = major v; mi = minor v; pa = patch v; fresh = bump_prerelease [] identifier base
      in case rel of
           RMajor \<Rightarrow>
             map_option (\<lambda>ma. (ma, 0, 0, []))
               (if mi \<noteq> 0 \<or> pa \<noteq> 0 \<or> parts = [] then checked_add_u64 ma 1 else Some ma)
         | RMinor \<Rightarrow>
             map_option (\<lambda>mi. (ma, mi, 0, [])) (if pa \<noteq> 0 \<or> parts = [] then checked_add_u64 mi 1 else Some mi)
         | RPatch \<Rightarrow>
             map_option (\<lambda>pa. (ma, mi, pa, [])) (if parts = [] then checked_add_u64 pa 1 else Some pa)
         | RPremajor \<Rightarrow>
             (case checked_add_u64 ma 1 of
                None \<Rightarrow> None | Some ma \<Rightarrow> map_option (\<lambda>parts. (ma, 0, 0, parts)) fresh)
         | RPreminor \<Rightarrow>
             (case checked_add_u64 mi 1 of
                None \<Rightarrow> None | Some mi \<Rightarrow> map_option (\<lambda>parts. (ma, mi, 0, parts)) fresh)
         | RPrepatch \<Rightarrow>
             (case checked_add_u64 pa 1 of
                None \<Rightarrow> None | Some pa \<Rightarrow> map_option (\<lambda>parts. (ma, mi, pa, parts)) fresh)
         | RPrerelease \<Rightarrow>
             (case (if parts = [] then checked_add_u64 pa 1 else Some pa) of
                None \<Rightarrow> None
              | Some pa \<Rightarrow> map_option (\<lambda>parts. (ma, mi, pa, parts)) (bump_prerelease parts identifier base))
         | RRelease \<Rightarrow> if parts = [] then None else Some (ma, mi, pa, []))"

definition pre_identifiers :: "version \<Rightarrow> bytes \<Rightarrow> pre_identifier list" where
  "pre_identifiers v buf =
     (let pre_tag = external_slice (pre (vtag v)) buf
      in if pre_tag = [] then [] else map identifier_parse (split pre_tag ''.''))"

definition write_incremented :: "incremented \<Rightarrow> bytes" where
  "write_incremented r =
     (case r of (ma, mi, pa, parts) \<Rightarrow>
        show_u64 ma @ ''.'' @ show_u64 mi @ ''.'' @ show_u64 pa @
        (if parts \<noteq> [] then ''-'' @ write_joined parts else []))"

definition inc :: "version \<Rightarrow> bytes \<Rightarrow> release_type \<Rightarrow> bytes option \<Rightarrow> identifier_base \<Rightarrow> bytes option" where
  "inc v buf rel identifier base =
     (let identifier = (case identifier of Some [] \<Rightarrow> None | _ \<Rightarrow> identifier)
      in if is_pre rel \<and> (case identifier of Some name \<Rightarrow> \<not> is_valid_identifier name | None \<Rightarrow> False) then None
         else if is_pre rel \<and> identifier = None \<and> base = BaseNone then None
         else map_option write_incremented
                (inc_step v (pre_identifiers v buf) rel identifier base))"

section \<open>The result is above the version it was made from\<close>

definition idn :: "pre_identifier \<Rightarrow> ident" where
  "idn p = ident_of (identifier_write p)"

definition list_key :: "pre_identifier list \<Rightarrow> ident list option" where
  "list_key ps = (if ps = [] then None else Some (map idn ps))"

lemma idn_number [simp]: "idn (IdNumber n) = Numeric n"
  by (simp add: idn_def ident_of_def)

lemma idn_parse [simp]: "idn (identifier_parse p) = ident_of p"
  by (auto simp: identifier_parse_def idn_def ident_of_def parse_ascii_def parse_unsigned_show_u64 split: sum.split)

lemma less_plus_1: "n \<noteq> u64_max \<Longrightarrow> n < n + (1::u64)"
  using less_succ_u64 [of n n] by simp

lemma cmp_succ: "n \<noteq> u64_max \<Longrightarrow> cmp (n + 1) (n::u64) = Greater"
  using less_plus_1 [of n] by simp

lemma bump_last_number_greater:
  "bump_last_number ps = Some (Some qs) \<Longrightarrow> lex_cmp ident_cmp (map idn qs) (map idn ps) = Greater"
proof (induction ps arbitrary: qs)
  case (Cons p ps)
  show ?case
  proof (cases "bump_last_number ps")
    case None
    with Cons.prems obtain n where p: "p = IdNumber n" "n \<noteq> u64_max" "qs = IdNumber (n + 1) # ps"
      by (auto simp: checked_add_u64_1 split: pre_identifier.splits if_splits)
    then show ?thesis by (simp add: cmp_succ)
  next
    case (Some r)
    with Cons.prems obtain rs where "r = Some rs" "qs = p # rs" by auto
    then show ?thesis using Cons.IH Some by (simp add: ident_cmp.c_refl)
  qed
qed simp

lemma lex_append_greater: "ys \<noteq> [] \<Longrightarrow> lex_cmp ident_cmp (xs @ ys) xs = Greater"
  by (induction xs) (auto simp: ident_cmp.c_refl neq_Nil_conv)

lemma count_up_greater:
  assumes "count_up ps None base = Some qs" "ps \<noteq> []"
  shows "lex_cmp ident_cmp (map idn qs) (map idn ps) = Greater"
  using assms bump_last_number_greater lex_append_greater [of "[Numeric (base_number base)]" "map idn ps"]
  by (auto simp: count_up_def split: option.splits)

lemma count_up_number: "count_up ps None base = Some qs \<Longrightarrow> \<exists>n. IdNumber n \<in> set qs"
proof -
  have "bump_last_number xs = Some (Some ys) \<Longrightarrow> \<exists>n. IdNumber n \<in> set ys" for xs ys
    by (induction xs arbitrary: ys) (auto split: option.splits pre_identifier.splits)
  then show "count_up ps None base = Some qs \<Longrightarrow> \<exists>n. IdNumber n \<in> set qs"
    by (auto simp: count_up_def split: if_splits option.splits)
qed

lemma bump_prerelease_None: "bump_prerelease ps None base = count_up ps None base"
  by (simp add: bump_prerelease_def split: option.split)

lemma inc_step_greater:
  assumes "inc_step v ps rel None base = Some (ma, mi, pa, qs)"
    and "k_major k = ma" "k_minor k = mi" "k_patch k = pa" "k_pre k = list_key qs"
    and "k_major l = major v" "k_minor l = minor v" "k_patch l = patch v" "k_pre l = list_key ps"
  shows "precedence k l = Greater"
proof -
  have "precedence k l =
     (if ma \<noteq> major v then cmp ma (major v) else if mi \<noteq> minor v then cmp mi (minor v)
      else if pa \<noteq> patch v then cmp pa (patch v) else pre_cmp (list_key qs) (list_key ps))"
    by (simp add: precedence_core assms(2-9))
  moreover have "pre_cmp (list_key rs) (list_key ps) = Greater" if "count_up ps None base = Some rs" "ps \<noteq> []" for rs
    using count_up_greater [OF that] count_up_number [OF that(1)] that(2) by (auto simp: list_key_def)
  moreover have "pre_cmp (list_key []) (list_key ps) = Greater" if "ps \<noteq> []"
    using that by (simp add: list_key_def)
  moreover have "n + 1 \<noteq> n" if "n \<noteq> u64_max" for n :: u64 using less_plus_1 [OF that] by simp
  ultimately show ?thesis using assms(1)
    by (cases rel)
      (auto simp: inc_step_def Let_def checked_add_u64_1 bump_prerelease_None cmp_succ simp del: cmp_Greater split: if_splits)
qed

section \<open>Reading the result back\<close>

lemma write_joined_join: "write_joined ps = join ''.'' (map identifier_write ps)"
  by (induction ps rule: write_joined.induct) simp_all

lemma digit_pre_char: "is_ascii_digit c \<Longrightarrow> is_pre_char c \<and> c \<noteq> CHR ''.''"
  using digit_not_special(3) by (auto simp: is_pre_char_def is_tag_char_def)

definition part_ok :: "bytes \<Rightarrow> bool" where
  "part_ok p \<longleftrightarrow> list_all is_pre_char p \<and> CHR ''.'' \<notin> set p"

lemma number_ok: "part_ok (identifier_write (IdNumber n))"
  using show_u64_digits [of _ n] digit_pre_char by (auto simp: part_ok_def list_all_iff)

lemma identifier_parse_ok: "part_ok p \<Longrightarrow> part_ok (identifier_write (identifier_parse p))"
  using number_ok by (auto simp: identifier_parse_def split: sum.split)

lemma pre_identifiers_ok:
  assumes "list_all is_pre_char (external_slice (pre (vtag v)) buf)" "x \<in> set (pre_identifiers v buf)"
  shows "part_ok (identifier_write x)"
proof -
  let ?s = "external_slice (pre (vtag v)) buf"
  obtain p where p: "p \<in> set (split ?s ''.'')" "x = identifier_parse p"
    using assms(2) by (auto simp: pre_identifiers_def Let_def split: if_splits)
  then have "part_ok p" using split_char_parts [of p ?s "CHR ''.''"] assms(1) by (auto simp: part_ok_def list_all_iff)
  then show ?thesis using p(2) identifier_parse_ok by simp
qed

lemma bump_last_number_ok:
  "bump_last_number ps = Some (Some qs) \<Longrightarrow> \<forall>x\<in>set ps. part_ok (identifier_write x) \<Longrightarrow>
     x \<in> set qs \<Longrightarrow> part_ok (identifier_write x)"
  using number_ok by (induction ps arbitrary: qs) (fastforce split: option.splits pre_identifier.splits)+

lemma count_up_ok:
  "count_up ps None base = Some qs \<Longrightarrow> \<forall>x\<in>set ps. part_ok (identifier_write x) \<Longrightarrow>
     x \<in> set qs \<Longrightarrow> part_ok (identifier_write x)"
  using number_ok bump_last_number_ok by (fastforce simp: count_up_def split: if_splits option.splits)

lemma inc_step_list:
  assumes "inc_step v ps rel None base = Some (ma, mi, pa, qs)"
  shows "qs = [] \<or> (\<exists>rs. count_up rs None base = Some qs \<and> set rs \<subseteq> set ps)"
  using assms by (cases rel) (auto simp: inc_step_def Let_def bump_prerelease_None split: if_splits option.splits)

lemma join_chars:
  "\<forall>p\<in>set ps. part_ok p \<Longrightarrow> list_all is_pre_char (join ''.'' ps)"
  by (induction "''.''" ps rule: join.induct) (simp_all add: part_ok_def is_pre_char_def is_tag_char_def)

lemma join_nonempty: "p \<in> set ps \<Longrightarrow> p \<noteq> [] \<Longrightarrow> join d ps \<noteq> []"
  by (induction d ps rule: join.induct) auto

lemma pre_key_identifiers:
  assumes "has_pre (vtag v) = (external_slice (pre (vtag v)) buf \<noteq> [])"
  shows "pre_key (vtag v) buf = list_key (pre_identifiers v buf)"
  using assms by (simp add: pre_key_def list_key_def pre_identifiers_def Let_def split_def)

lemma parse_exact_core:
  assumes "s = show_u64 a @ ''.'' @ show_u64 b @ ''.'' @ show_u64 c @ tag_text p None"
    and "pred_option (list_all is_pre_char) p" "length s < 2 ^ 31"
  obtains t where "parse_exact (sliced_init s) = Some \<lparr>major = a, minor = b, patch = c, vtag = t\<rparr>"
    and "tag_reads t s p None"
proof -
  have sl: "in_bounds (sliced_init s)" "ss_slice (sliced_init s) = s" "ss_buf (sliced_init s) = s"
    using assms(3) by (simp_all add: in_bounds_def sliced_init_def ss_slice_def)
  obtain t where t: "tag_reads t s p None"
    and v: "version_parse (sliced_init s) = \<lparr>pr_wildcard = WNone, pr_valid = True, pr_overflow = False,
      pr_version = \<lparr>p_major = Some a, p_minor = Some b, p_patch = Some c, p_tag = t\<rparr>,
      pr_len = length s - length ([] :: bytes)\<rparr>"
    using version_parse_text [OF sl(1), of "[]" a b c p None "[]"] assms(1,2) sl by (auto simp: stops_def)
  have "list_all valid_pre_or_build_tag_character (show_u64 n)" for n
    using show_u64_digits [of _ n] digit_valid by (auto simp: list_all_iff)
  moreover have "list_all valid_pre_or_build_tag_character (tag_text p None)"
    using assms(2) pre_valid by (cases p) (auto simp: tag_text_def list_all_iff valid_pre_or_build_tag_character_def)
  ultimately have "list_all valid_pre_or_build_tag_character s"
    using assms(1) by (simp add: valid_pre_or_build_tag_character_def)
  from parse_exact_no_space [OF this] show thesis using that [OF _ t] v assms(1) by (simp add: partial_min_def)
qed



end
