(* ===== verification/Semver_Intersects.thy ===== *)
theory Semver_Intersects
  imports Semver_Query
begin

text \<open>
  \<^verbatim>\<open>src/semver/intersects.rs\<close>: whether two ranges have a version in common, and whether one is a
  subset of the other. Both work on the interval between the bounds of an AND chain.

  The lemmas show that narrowing an interval is intersection, that the canonical form of an
  interval holds the same releases, that two ranges with a common release intersect, and that a
  reported subset holds for releases. For prereleases both fail, as the last theorems show.
\<close>

section \<open>Definitions\<close>

record bound =
  b_version :: version
  b_buf :: bytes
  b_inclusive :: bool

record interval =
  i_lower :: "bound option"
  i_upper :: "bound option"

definition default_interval :: interval where
  "default_interval = \<lparr>i_lower = None, i_upper = None\<rparr>"

definition interval_raise :: "bound \<Rightarrow> interval \<Rightarrow> interval" where
  "interval_raise b i =
     (let replace = (case i_lower i of
            None \<Rightarrow> True
          | Some cur \<Rightarrow>
              (case version_order_without_build (b_version b) (b_version cur) (b_buf b) (b_buf cur) of
                 Greater \<Rightarrow> True | Equal \<Rightarrow> \<not> b_inclusive b | Less \<Rightarrow> False))
      in if replace then i\<lparr>i_lower := Some b\<rparr> else i)"

definition interval_cap :: "bound \<Rightarrow> interval \<Rightarrow> interval" where
  "interval_cap b i =
     (let replace = (case i_upper i of
            None \<Rightarrow> True
          | Some cur \<Rightarrow>
              (case version_order_without_build (b_version b) (b_version cur) (b_buf b) (b_buf cur) of
                 Less \<Rightarrow> True | Equal \<Rightarrow> \<not> b_inclusive b | Greater \<Rightarrow> False))
      in if replace then i\<lparr>i_upper := Some b\<rparr> else i)"

definition narrow :: "comparator \<Rightarrow> bytes \<Rightarrow> interval \<Rightarrow> interval" where
  "narrow c buf i =
     (let bnd = (\<lambda>inclusive. \<lparr>b_version = c_version c, b_buf = buf, b_inclusive = inclusive\<rparr>)
      in case c_op c of
           Unset \<Rightarrow> i
         | Eql \<Rightarrow> interval_cap (bnd True) (interval_raise (bnd True) i)
         | Gt \<Rightarrow> interval_raise (bnd False) i
         | Gte \<Rightarrow> interval_raise (bnd True) i
         | Lt \<Rightarrow> interval_cap (bnd False) i
         | Lte \<Rightarrow> interval_cap (bnd True) i)"

fun and_query :: "query \<Rightarrow> bytes \<Rightarrow> interval \<Rightarrow> interval" where
  "and_query (Query r next) buf i =
     (let i = narrow (r_right r) buf (narrow (r_left r) buf i)
      in case next of None \<Rightarrow> i | Some q \<Rightarrow> and_query q buf i)"

definition is_non_empty :: "interval \<Rightarrow> bool" where
  "is_non_empty i =
     (case i_upper i of
        None \<Rightarrow> True
      | Some u \<Rightarrow>
          (let l = (case i_lower i of
                      Some l \<Rightarrow> l
                    | None \<Rightarrow> \<lparr>b_version = c_version null_comparator, b_buf = [], b_inclusive = True\<rparr>)
           in case version_order_without_build (b_version l) (b_version u) (b_buf l) (b_buf u) of
                Less \<Rightarrow> True
              | Equal \<Rightarrow> b_inclusive l \<and> b_inclusive u
              | Greater \<Rightarrow> False))"

definition is_last_patch :: "version \<Rightarrow> bool" where
  "is_last_patch v \<longleftrightarrow> patch v = u64_max \<and> \<not> has_pre (vtag v)"

definition after_last_patch :: "version \<Rightarrow> version option" where
  "after_last_patch v =
     (case checked_add_u64 (minor v) 1 of
        Some mi \<Rightarrow> Some (default_version\<lparr>major := major v, minor := mi\<rparr>)
      | None \<Rightarrow> map_option (\<lambda>ma. default_version\<lparr>major := ma\<rparr>) (checked_add_u64 (major v) 1))"

text \<open>The four rewrites of \<^verbatim>\<open>canonical\<close>, in order.\<close>

definition canonical_lower_next :: "interval \<Rightarrow> interval" where
  "canonical_lower_next out =
     (case i_lower out of
        None \<Rightarrow> out
      | Some lower \<Rightarrow>
          if \<not> b_inclusive lower \<and> is_last_patch (b_version lower)
          then (case after_last_patch (b_version lower) of
                  Some next \<Rightarrow> out\<lparr>i_lower := Some (lower\<lparr>b_version := next, b_inclusive := True\<rparr>)\<rparr>
                | None \<Rightarrow> out)
          else out)"

definition canonical_lower_zero :: "interval \<Rightarrow> interval" where
  "canonical_lower_zero out =
     (case i_lower out of
        None \<Rightarrow> out
      | Some it \<Rightarrow>
          if b_inclusive it \<and> is_zero (b_version it) \<and> \<not> has_pre (vtag (b_version it))
          then out\<lparr>i_lower := None\<rparr> else out)"

definition canonical_upper_next :: "interval \<Rightarrow> interval" where
  "canonical_upper_next out =
     (case i_upper out of
        None \<Rightarrow> out
      | Some upper \<Rightarrow>
          if b_inclusive upper \<and> is_last_patch (b_version upper)
          then out\<lparr>i_upper := map_option (\<lambda>version. upper\<lparr>b_version := version, b_inclusive := False\<rparr>)
                 (after_last_patch (b_version upper))\<rparr>
          else out)"

definition canonical_upper_pre :: "interval \<Rightarrow> interval" where
  "canonical_upper_pre out =
     (case i_upper out of
        None \<Rightarrow> out
      | Some upper \<Rightarrow>
          if \<not> b_inclusive upper \<and> \<not> has_pre (vtag (b_version upper)) \<and>
             \<not> (case i_lower out of
                  None \<Rightarrow> False
                | Some lower \<Rightarrow> has_pre (vtag (b_version lower)) \<and>
                    major (b_version lower) = major (b_version upper) \<and>
                    minor (b_version lower) = minor (b_version upper) \<and>
                    patch (b_version lower) = patch (b_version upper))
          then out\<lparr>i_upper := Some (upper\<lparr>b_version := (b_version upper)\<lparr>vtag := zero_pre\<rparr>\<rparr>)\<rparr>
          else out)"

definition canonical :: "interval \<Rightarrow> interval" where
  "canonical i =
     canonical_upper_pre (canonical_upper_next (canonical_lower_zero (canonical_lower_next i)))"

definition interval_is_within :: "interval \<Rightarrow> interval \<Rightarrow> bool" where
  "interval_is_within self other =
     (let lower = (case (i_lower self, i_lower other) of
            (_, None) \<Rightarrow> True
          | (None, Some _) \<Rightarrow> False
          | (Some a, Some b) \<Rightarrow>
              (case version_order_without_build (b_version a) (b_version b) (b_buf a) (b_buf b) of
                 Greater \<Rightarrow> True | Equal \<Rightarrow> b_inclusive b \<or> \<not> b_inclusive a | Less \<Rightarrow> False));
          upper = (case (i_upper self, i_upper other) of
            (_, None) \<Rightarrow> True
          | (None, Some _) \<Rightarrow> False
          | (Some a, Some b) \<Rightarrow>
              (case version_order_without_build (b_version a) (b_version b) (b_buf a) (b_buf b) of
                 Less \<Rightarrow> True | Equal \<Rightarrow> b_inclusive b \<or> \<not> b_inclusive a | Greater \<Rightarrow> False))
      in lower \<and> upper)"

definition is_prerelease_of_it :: "bound \<Rightarrow> comparator \<Rightarrow> bool" where
  "is_prerelease_of_it bnd c \<longleftrightarrow>
     c_op c \<noteq> Unset \<and> has_pre (vtag (c_version c)) \<and>
     major (c_version c) = major (b_version bnd) \<and> minor (c_version c) = minor (b_version bnd) \<and>
     patch (c_version c) = patch (b_version bnd)"

fun has_prerelease_of :: "bound \<Rightarrow> query \<Rightarrow> bool" where
  "has_prerelease_of bnd (Query r next) =
     (if is_prerelease_of_it bnd (r_left r) \<or> is_prerelease_of_it bnd (r_right r) then True
      else case next of None \<Rightarrow> False | Some q \<Rightarrow> has_prerelease_of bnd q)"

definition prereleases_can_satisfy :: "interval \<Rightarrow> query \<Rightarrow> bool" where
  "prereleases_can_satisfy self q =
     (let lower = (case i_lower self of
                     Some it \<Rightarrow> if has_pre (vtag (b_version it)) then [it] else [] | None \<Rightarrow> []);
          upper = (case i_upper self of
                     Some it \<Rightarrow>
                       if has_pre (vtag (b_version it)) \<and>
                          (b_inclusive it \<or> external_slice (pre (vtag (b_version it))) (b_buf it) \<noteq> ''0'')
                       then [it] else []
                   | None \<Rightarrow> [])
      in list_all (\<lambda>bnd. has_prerelease_of bnd q) (lower @ upper))"

definition query_is_star :: "query \<Rightarrow> bool" where
  "query_is_star q =
     (let rng = q_range q
      in q_next q = None \<and> c_op (r_left rng) = Gte \<and> is_zero (c_version (r_left rng)) \<and>
         \<not> has_pre (vtag (c_version (r_left rng))) \<and> \<not> has_right rng)"

text \<open>The AND chains that are OR'd together.\<close>

fun list_heads :: "query_list \<Rightarrow> query list" where
  "list_heads (List h t None) = [h]"
| "list_heads (List h t (Some l)) = h # list_heads l"

definition group_alternatives :: "group \<Rightarrow> query list" where
  "group_alternatives g = list_heads (g_head g)"

definition admits :: "group \<Rightarrow> bytes \<Rightarrow> version \<Rightarrow> bytes \<Rightarrow> bool" where
  "admits self self_buf version version_buf \<longleftrightarrow>
     group_satisfies self version self_buf version_buf \<or>
     has_pre (vtag version) \<and> list_ex query_is_star (group_alternatives self)"

definition admits_an_exact_version_of :: "group \<Rightarrow> bytes \<Rightarrow> group \<Rightarrow> bytes \<Rightarrow> bool" where
  "admits_an_exact_version_of self self_buf other other_buf \<longleftrightarrow>
     list_ex (\<lambda>version. admits self self_buf version other_buf)
       (List.map_filter exact_version (group_alternatives other))"

definition intersects :: "group \<Rightarrow> bytes \<Rightarrow> group \<Rightarrow> bytes \<Rightarrow> bool" where
  "intersects self self_buf other other_buf =
     (if admits_an_exact_version_of self self_buf other other_buf \<or>
         admits_an_exact_version_of other other_buf self self_buf then True
      else
        (let is_range = (\<lambda>q. exact_version q = None)
         in list_ex (\<lambda>a.
              (let base = and_query a self_buf default_interval
               in if \<not> is_non_empty base then False
                  else list_ex (\<lambda>b. is_non_empty (and_query b other_buf base))
                         (filter is_range (group_alternatives other))))
            (filter is_range (group_alternatives self))))"

text \<open>The ranges of a chain, front to back.\<close>

definition is_satisfied_by_a_bound_of :: "group \<Rightarrow> bytes \<Rightarrow> group \<Rightarrow> bytes \<Rightarrow> bool" where
  "is_satisfied_by_a_bound_of self self_buf other other_buf =
     list_ex (\<lambda>c.
         (let version = c_version c;
              version = (if c_op c = Lt \<and> tag_eql (vtag version) zero_pre
                         then version\<lparr>vtag := default_tag\<rparr> else version)
          in group_satisfies self version self_buf other_buf))
       (concat (map (\<lambda>r. [r_left r, r_right r]) (concat (map ranges_of (group_alternatives other)))))"

definition is_subset_of :: "group \<Rightarrow> bytes \<Rightarrow> group \<Rightarrow> bytes \<Rightarrow> bool" where
  "is_subset_of self self_buf other other_buf =
     list_all (\<lambda>a.
         (let sub = canonical (and_query a self_buf default_interval)
          in if \<not> is_non_empty sub then True
             else list_ex (\<lambda>b.
                    interval_is_within sub (canonical (and_query b other_buf default_interval)) \<and>
                    prereleases_can_satisfy sub b) (group_alternatives other)))
       (group_alternatives self)"

section \<open>Intervals as sets of versions\<close>

text \<open>Which keys a bound lets through, as a lower and as an upper bound.\<close>

definition b_key :: "bound \<Rightarrow> version_key" where
  "b_key b = version_key (b_version b, b_buf b)"

definition above :: "bound option \<Rightarrow> version_key \<Rightarrow> bool" where
  "above ob k \<longleftrightarrow> (case ob of None \<Rightarrow> True
     | Some b \<Rightarrow> (case precedence k (b_key b) of Greater \<Rightarrow> True | Equal \<Rightarrow> b_inclusive b | Less \<Rightarrow> False))"

definition below :: "bound option \<Rightarrow> version_key \<Rightarrow> bool" where
  "below ob k \<longleftrightarrow> (case ob of None \<Rightarrow> True
     | Some b \<Rightarrow> (case precedence k (b_key b) of Less \<Rightarrow> True | Equal \<Rightarrow> b_inclusive b | Greater \<Rightarrow> False))"

definition inside :: "interval \<Rightarrow> version_key \<Rightarrow> bool" where
  "inside i k \<longleftrightarrow> above (i_lower i) k \<and> below (i_upper i) k"

lemma above_None [simp]: "above None k" and below_None [simp]: "below None k"
  by (simp_all add: above_def below_def)

lemma inside_default [simp]: "inside default_interval k"
  by (simp add: inside_def default_interval_def)

lemma precedence_greater_trans:
  "precedence a b = Greater \<Longrightarrow> precedence b d = Greater \<Longrightarrow> precedence a d = Greater"
  using precedence.less_trans [of d b a] by (simp add: precedence.less_iff_greater)

lemma precedence_flip: "precedence a b = Greater \<longleftrightarrow> precedence b a = Less"
  by (simp add: precedence.less_iff_greater)

text \<open>A bound inside another: what the lower one lets through, the other does.\<close>

lemma above_mono:
  assumes "precedence (b_key a) (b_key b) = Greater \<or>
    precedence (b_key a) (b_key b) = Equal \<and> (b_inclusive b \<or> \<not> b_inclusive a)"
  shows "above (Some a) k \<Longrightarrow> above (Some b) k"
  using assms precedence_greater_trans [of k "b_key a" "b_key b"] precedence.eq_left [of k "b_key a" "b_key b"]
    precedence.eq_right [of "b_key a" "b_key b" k]
  by (auto simp: above_def split: ordering.splits)

lemma below_mono:
  assumes "precedence (b_key a) (b_key b) = Less \<or>
    precedence (b_key a) (b_key b) = Equal \<and> (b_inclusive b \<or> \<not> b_inclusive a)"
  shows "below (Some a) k \<Longrightarrow> below (Some b) k"
  using assms precedence.less_trans [of k "b_key a" "b_key b"] precedence.eq_left [of k "b_key a" "b_key b"]
    precedence.eq_right [of "b_key a" "b_key b" k]
  by (auto simp: below_def split: ordering.splits)

lemma interval_raise_lower: "i_lower (interval_raise b i) = i_lower i \<or> i_lower (interval_raise b i) = Some b"
  by (simp add: interval_raise_def Let_def)

lemma interval_raise_upper [simp]: "i_upper (interval_raise b i) = i_upper i"
  and interval_cap_lower [simp]: "i_lower (interval_cap b i) = i_lower i"
  by (simp_all add: interval_raise_def interval_cap_def Let_def)

lemma raise_above: "above (i_lower (interval_raise b i)) k \<longleftrightarrow> above (i_lower i) k \<and> above (Some b) k"
proof (cases "i_lower i")
  case None
  then show ?thesis by (simp add: interval_raise_def)
next
  case (Some c)
  let ?r = "precedence (b_key b) (b_key c)"
  have e: "version_order_without_build (b_version b) (b_version c) (b_buf b) (b_buf c) = ?r"
    by (simp add: version_order_without_build_key b_key_def)
  show ?thesis
  proof (cases "?r = Greater \<or> ?r = Equal \<and> \<not> b_inclusive b")
    case True
    have "above (Some b) k \<Longrightarrow> above (Some c) k" using True above_mono [of b c k] by blast
    then show ?thesis using Some e True by (auto simp: interval_raise_def)
  next
    case False
    have "precedence (b_key c) (b_key b) = reverse_ordering ?r" by (rule precedence.c_flip)
    then have "above (Some c) k \<Longrightarrow> above (Some b) k" using False above_mono [of c b k] by (cases ?r) auto
    then show ?thesis using False Some e
      by (auto simp: interval_raise_def split: ordering.splits)
  qed
qed

lemma cap_below: "below (i_upper (interval_cap b i)) k \<longleftrightarrow> below (i_upper i) k \<and> below (Some b) k"
proof (cases "i_upper i")
  case None
  then show ?thesis by (simp add: interval_cap_def)
next
  case (Some c)
  let ?r = "precedence (b_key b) (b_key c)"
  have e: "version_order_without_build (b_version b) (b_version c) (b_buf b) (b_buf c) = ?r"
    by (simp add: version_order_without_build_key b_key_def)
  show ?thesis
  proof (cases "?r = Less \<or> ?r = Equal \<and> \<not> b_inclusive b")
    case True
    have "below (Some b) k \<Longrightarrow> below (Some c) k" using True below_mono [of b c k] by blast
    then show ?thesis using Some e True by (auto simp: interval_cap_def)
  next
    case False
    have "precedence (b_key c) (b_key b) = reverse_ordering ?r" by (rule precedence.c_flip)
    then have "below (Some c) k \<Longrightarrow> below (Some b) k" using False below_mono [of c b k] by (cases ?r) auto
    then show ?thesis using False Some e
      by (auto simp: interval_cap_def split: ordering.splits)
  qed
qed

lemma inside_raise: "inside (interval_raise b i) k \<longleftrightarrow> inside i k \<and> above (Some b) k"
  and inside_cap: "inside (interval_cap b i) k \<longleftrightarrow> inside i k \<and> below (Some b) k"
  by (auto simp: inside_def raise_above cap_below)

text \<open>A prerelease of \<open>0.0.0\<close> is below \<open>0.0.0\<close>, which \<^verbatim>\<open>satisfies\<close> does not count for \<^verbatim>\<open>>=0.0.0\<close>.\<close>

definition ordinary :: "version \<Rightarrow> bool" where
  "ordinary w \<longleftrightarrow> release w \<or> \<not> is_zero w"

lemma ordinary_ge_zero:
  assumes "ordinary w" "is_zero v" "\<not> has_pre (vtag v)"
  shows "version_order_without_build w v wb b \<noteq> Less"
  using assms by (auto simp: version_order_without_build_key precedence_core is_zero_def pre_key_def ordinary_def
      release_def cmp_def split: if_splits)

lemma narrow_inside:
  assumes "ordinary w"
  shows "inside (narrow c buf i) (version_key (w, wb)) \<longleftrightarrow>
    inside i (version_key (w, wb)) \<and> (c_op c = Unset \<or> comparator_satisfies c w buf wb)"
  using ordinary_ge_zero [OF assms, of "c_version c" wb buf]
  by (cases "c_op c") (auto simp: narrow_def Let_def inside_raise inside_cap comparator_satisfies_def
      above_def below_def b_key_def version_order_without_build_key split: ordering.splits)

lemma range_inside:
  assumes "ordinary w" "has_right r \<longrightarrow> has_left r"
  shows "inside (narrow (r_right r) buf (narrow (r_left r) buf i)) (version_key (w, wb)) \<longleftrightarrow>
    inside i (version_key (w, wb)) \<and> range_satisfies r w buf wb"
  using assms(2) by (auto simp: narrow_inside [OF assms(1)] range_satisfies_iff has_left_def has_right_def)

lemma and_query_inside:
  assumes "ordinary w"
  shows "\<forall>r\<in>set (ranges_of q). has_right r \<longrightarrow> has_left r \<Longrightarrow>
    inside (and_query q buf i) (version_key (w, wb)) \<longleftrightarrow> inside i (version_key (w, wb)) \<and> query_satisfies q w buf wb"
proof (induction q arbitrary: i rule: ranges_of.induct)
  case (1 r)
  then show ?case by (simp add: range_inside [OF assms])
next
  case (2 r q)
  have "inside (and_query (Query r (Some q)) buf i) (version_key (w, wb)) \<longleftrightarrow>
      inside (narrow (r_right r) buf (narrow (r_left r) buf i)) (version_key (w, wb)) \<and> query_satisfies q w buf wb"
    using 2 by (simp add: Let_def)
  then show ?case using 2(2) range_inside [OF assms, of r buf i wb] by auto
qed

lemma is_non_empty_inside:
  assumes "inside i (version_key (w, wb))"
  shows "is_non_empty i"
proof (cases "i_upper i")
  case (Some u)
  have u: "below (Some u) (version_key (w, wb))" using assms Some by (simp add: inside_def)
  have *: "is_non_empty i" if "above (Some l) (version_key (w, wb))" "i_lower i = Some l \<or>
      i_lower i = None \<and> l = \<lparr>b_version = c_version null_comparator, b_buf = [], b_inclusive = True\<rparr>" for l
  proof -
    let ?k = "version_key (w, wb)"
    have "precedence (b_key l) ?k = Less \<or> precedence (b_key l) ?k = Equal \<and> b_inclusive l"
      using that(1) precedence.c_flip [of "b_key l" ?k] by (auto simp: above_def split: ordering.splits)
    moreover have "precedence ?k (b_key u) = Less \<or> precedence ?k (b_key u) = Equal \<and> b_inclusive u"
      using u by (auto simp: below_def split: ordering.splits)
    ultimately have "precedence (b_key l) (b_key u) = Less \<or>
        precedence (b_key l) (b_key u) = Equal \<and> b_inclusive l \<and> b_inclusive u"
      using precedence.less_trans [of "b_key l" ?k "b_key u"] precedence.eq_left [of "b_key l" ?k "b_key u"]
        precedence.eq_right [of ?k "b_key u" "b_key l"] by auto
    then show ?thesis using Some that(2)
      by (auto simp: is_non_empty_def version_order_without_build_key b_key_def split: ordering.splits)
  qed
  show ?thesis
  proof (cases "i_lower i")
    case None
    let ?l = "\<lparr>b_version = c_version null_comparator, b_buf = [], b_inclusive = True\<rparr>"
    have "above (Some ?l) (version_key (w, wb))"
      using order_ge_zero_pre [of w wb "[]"]
      by (auto simp: above_def null_comparator_def version_order_without_build_key b_key_def split: ordering.splits)
    then show ?thesis using * None by blast
  next
    case (Some l)
    then show ?thesis using * [of l] assms by (simp add: inside_def)
  qed
qed (simp add: is_non_empty_def)

section \<open>Ranges with a common version intersect\<close>

text \<open>What the parser promises of a group (\<^verbatim>\<open>parse_well_formed\<close>): no range has only its second comparator.\<close>

definition group_pairs :: "group \<Rightarrow> bool" where
  "group_pairs g \<longleftrightarrow> list_all (list_all (\<lambda>r. has_right r \<longrightarrow> has_left r)) (alternatives g)"

lemma group_in_pairs: "group_in buf g \<Longrightarrow> group_pairs g"
  by (auto simp: group_in_def group_pairs_def range_in_def list_all_iff)

lemma alternatives_heads: "alternatives g = map ranges_of (group_alternatives g)"
proof -
  have "list_alts l = map ranges_of (list_heads l)" for l
    by (induction l rule: list_alts.induct) simp_all
  then show ?thesis by (simp add: alternatives_def group_alternatives_def)
qed

lemma group_pairs_head:
  "group_pairs g \<Longrightarrow> q \<in> set (group_alternatives g) \<Longrightarrow> \<forall>r\<in>set (ranges_of q). has_right r \<longrightarrow> has_left r"
  by (simp add: group_pairs_def list_all_iff alternatives_heads)

lemma group_satisfies_head:
  "group_satisfies g v gb vb \<longleftrightarrow> (\<exists>q\<in>set (group_alternatives g). query_satisfies q v gb vb \<and>
     (has_pre (vtag v) \<longrightarrow> (\<exists>r\<in>set (ranges_of q). pre_allows r v)))"
  by (simp add: group_satisfies_def list_satisfies_ex list_satisfies_pre_ex query_satisfies_all
      alternatives_heads [unfolded alternatives_def])

text \<open>Only the key of a version matters.\<close>

lemma precedence_Equal_core:
  assumes "precedence (version_key (v, vb)) (version_key (w, wb)) = Equal"
  shows "same_core v w" "has_pre (vtag v) = has_pre (vtag w)"
  using assms by (auto simp: precedence_core same_core_def pre_key_def split: if_splits)

lemma comparator_satisfies_cong:
  assumes "precedence (version_key (v, vb)) (version_key (w, wb)) = Equal"
  shows "comparator_satisfies c v cb vb = comparator_satisfies c w cb wb"
  using precedence.eq_left [OF assms] by (simp add: comparator_satisfies_def version_order_without_build_key)

lemma group_satisfies_cong:
  assumes "precedence (version_key (v, vb)) (version_key (w, wb)) = Equal"
  shows "group_satisfies g v gb vb = group_satisfies g w gb wb"
proof -
  have "range_satisfies r v gb vb = range_satisfies r w gb wb" for r
    by (simp add: range_satisfies_iff comparator_satisfies_cong [OF assms])
  moreover have "same_core v u = same_core w u" for u
    using precedence_Equal_core(1) [OF assms] by (auto simp: same_core_def)
  ultimately show ?thesis
    using precedence_Equal_core(2) [OF assms]
    by (simp add: group_satisfies_head query_satisfies_all pre_allows_def)
qed

lemma exact_version_equal:
  assumes "exact_version q = Some v" "query_satisfies q w qb wb"
  shows "precedence (version_key (v, qb)) (version_key (w, wb)) = Equal"
proof -
  obtain r where q: "q = Query r None" "c_op (r_left r) = Eql" "v = c_version (r_left r)"
    using assms(1) by (cases q) (auto simp: exact_version_def Let_def split: if_splits)
  then have "comparator_satisfies (r_left r) w qb wb"
    using assms(2) by (simp add: range_satisfies_iff split: if_splits)
  then have "precedence (version_key (w, wb)) (version_key (v, qb)) = Equal"
    using q by (simp add: comparator_satisfies_def version_order_without_build_key split: ordering.splits)
  then show ?thesis by (rule precedence.eq_sym)
qed

lemma admits_exact:
  assumes "q \<in> set (group_alternatives other)" "exact_version q = Some v" "query_satisfies q w other_buf wb"
    and "group_satisfies self w self_buf wb"
  shows "admits_an_exact_version_of self self_buf other other_buf"
proof -
  have "group_satisfies self v self_buf other_buf"
    using group_satisfies_cong [OF exact_version_equal [OF assms(2,3)]] assms(4) by simp
  then show ?thesis using assms(1,2)
    by (force simp: admits_an_exact_version_of_def admits_def list_ex_iff map_filter_def)
qed

text \<open>C4: \<^verbatim>\<open>Group::intersects\<close> misses no common version: when some version satisfies both ranges, prereleases of
  \<open>0.0.0\<close> apart, the answer is yes, whether the alternatives are exact versions or intervals.\<close>

theorem intersects_complete:
  assumes "group_satisfies self w self_buf wb" "group_satisfies other w other_buf wb"
    and "ordinary w" "group_pairs self" "group_pairs other"
  shows "intersects self self_buf other other_buf"
proof -
  obtain a where a: "a \<in> set (group_alternatives self)" "query_satisfies a w self_buf wb"
    using assms(1) by (auto simp: group_satisfies_head)
  obtain b where b: "b \<in> set (group_alternatives other)" "query_satisfies b w other_buf wb"
    using assms(2) by (auto simp: group_satisfies_head)
  show ?thesis
  proof (cases "exact_version a = None \<and> exact_version b = None")
    case False
    then have "admits_an_exact_version_of other other_buf self self_buf \<or> admits_an_exact_version_of self self_buf other other_buf"
      using admits_exact [OF a(1) _ a(2) assms(2)] admits_exact [OF b(1) _ b(2) assms(1)] by auto
    then show ?thesis by (auto simp: intersects_def)
  next
    case True
    let ?k = "version_key (w, wb)" and ?base = "and_query a self_buf default_interval"
    have base: "inside ?base ?k"
      using and_query_inside [OF assms(3) group_pairs_head [OF assms(4) a(1)]] a(2) by simp
    then have "inside (and_query b other_buf ?base) ?k"
      using and_query_inside [OF assms(3) group_pairs_head [OF assms(5) b(1)]] b(2) by simp
    then show ?thesis
      using True base a(1) b(1) is_non_empty_inside
      by (simp add: intersects_def list_ex_iff Let_def) blast
  qed
qed

theorem intersects_complete_witness:
  "intersects (group_from default_version) [] default_group []"
proof -
  have "group_satisfies (group_from default_version) default_version [] []"
    "group_satisfies default_group default_version [] []" "ordinary default_version"
    "group_pairs (group_from default_version)" "group_pairs default_group"
    by code_simp+
  then show ?thesis by (rule intersects_complete)
qed

section \<open>The canonical interval\<close>

definition bound_at :: "bound \<Rightarrow> version \<Rightarrow> bool" where
  "bound_at b w \<longleftrightarrow> has_pre (vtag (b_version b)) \<and> same_core w (b_version b)"

lemma above_release:
  assumes "release w"
  shows "above (Some b) (version_key (w, wb)) \<longleftrightarrow> (case core_cmp w (b_version b) of
    Greater \<Rightarrow> True | Less \<Rightarrow> False | Equal \<Rightarrow> release (b_version b) \<longrightarrow> b_inclusive b)"
  using order_release [OF assms, of "b_version b" wb "b_buf b"]
  by (simp add: above_def b_key_def version_order_without_build_key split: ordering.split)

lemma below_release:
  assumes "release w"
  shows "below (Some b) (version_key (w, wb)) \<longleftrightarrow> (case core_cmp w (b_version b) of
    Less \<Rightarrow> True | Greater \<Rightarrow> False | Equal \<Rightarrow> release (b_version b) \<and> b_inclusive b)"
  using order_release [OF assms, of "b_version b" wb "b_buf b"]
  by (simp add: below_def b_key_def version_order_without_build_key split: ordering.split)

lemma core_not_less_start:
  "core_cmp w (default_version\<lparr>major := ma\<rparr>) \<noteq> Less \<longleftrightarrow> ma \<le> major w"
  "core_cmp w (default_version\<lparr>major := ma, minor := mi\<rparr>) \<noteq> Less \<longleftrightarrow> ma < major w \<or> major w = ma \<and> mi \<le> minor w"
  by (auto simp: core_cmp_def cmp_def)

lemma core_greater_last:
  assumes "patch v = u64_max"
  shows "core_cmp w v = Greater \<longleftrightarrow> major v < major w \<or> major w = major v \<and> minor v < minor w"
  using assms by (auto simp: core_cmp_def cmp_def)

lemma core_cmp_after_last:
  assumes "patch v = u64_max"
  shows "(case after_last_patch v of None \<Rightarrow> core_cmp w v \<noteq> Greater
          | Some u \<Rightarrow> release u \<and> (core_cmp w u \<noteq> Less \<longleftrightarrow> core_cmp w v = Greater))"
  using core_greater_last [OF assms, of w] core_not_less_start [of w]
  by (simp add: after_last_patch_def checked_add_u64_1 release_def succ_le_u64)

lemma canonical_lower_next_release:
  assumes "release w"
  shows "inside (canonical_lower_next i) (version_key (w, wb)) \<longleftrightarrow> inside i (version_key (w, wb))"
proof (cases "i_lower i")
  case (Some l)
  then show ?thesis using core_cmp_after_last [of "b_version l" w]
    by (auto simp: canonical_lower_next_def inside_def is_last_patch_def above_release [OF assms]
      release_def split: option.splits ordering.splits)
qed (simp add: canonical_lower_next_def)

lemma canonical_upper_next_release:
  assumes "release w"
  shows "inside (canonical_upper_next i) (version_key (w, wb)) \<longleftrightarrow> inside i (version_key (w, wb))"
proof (cases "i_upper i")
  case (Some u)
  then show ?thesis using core_cmp_after_last [of "b_version u" w]
    by (auto simp: canonical_upper_next_def inside_def is_last_patch_def below_release [OF assms]
      release_def split: option.splits ordering.splits)
qed (simp add: canonical_upper_next_def)

lemma canonical_lower_zero_inside:
  assumes "ordinary w"
  shows "inside (canonical_lower_zero i) (version_key (w, wb)) \<longleftrightarrow> inside i (version_key (w, wb))"
proof (cases "i_lower i")
  case (Some l)
  then show ?thesis using ordinary_ge_zero [OF assms, of "b_version l" wb "b_buf l"]
    by (auto simp: canonical_lower_zero_def inside_def above_def b_key_def version_order_without_build_key
      split: ordering.split)
qed (simp add: canonical_lower_zero_def)

text \<open>\<^verbatim>\<open><v-0\<close> is \<^verbatim>\<open><v\<close> without the prereleases of \<open>v\<close>.\<close>

lemma pre_key_None: "pre_key t b = None \<longleftrightarrow> \<not> has_pre t"
  by (simp add: pre_key_def)

lemma below_zero_pre:
  assumes "\<not> b_inclusive u" "release (b_version u)"
  shows "below (Some (u\<lparr>b_version := (b_version u)\<lparr>vtag := zero_pre\<rparr>\<rparr>)) (version_key (w, wb)) \<longleftrightarrow>
    below (Some u) (version_key (w, wb)) \<and> \<not> same_core w (b_version u)"
  using assms pre_key_ge_zero [of "vtag w" wb] pre_key_None [of "vtag (b_version u)" "b_buf u"]
  by (auto simp: below_def b_key_def precedence_core zero_pre_key same_core_def cmp_def release_def
      split: if_splits ordering.splits)

lemma canonical_upper_pre_inside:
  "inside (canonical_upper_pre i) (version_key (w, wb)) \<longleftrightarrow> inside i (version_key (w, wb)) \<and>
     \<not> (\<exists>u. i_upper i = Some u \<and> \<not> b_inclusive u \<and> release (b_version u) \<and> same_core w (b_version u) \<and>
        \<not> (\<exists>l. i_lower i = Some l \<and> bound_at l w))"
proof (cases "i_upper i")
  case (Some u)
  then show ?thesis using below_zero_pre [of u w wb]
    by (auto simp: canonical_upper_pre_def inside_def release_def bound_at_def same_core_def split: option.splits)
qed (simp add: canonical_upper_pre_def)

lemma canonical_release:
  assumes "release w"
  shows "inside (canonical i) (version_key (w, wb)) \<longleftrightarrow> inside i (version_key (w, wb))"
proof -
  let ?j = "canonical_upper_next (canonical_lower_zero (canonical_lower_next i))"
  have o: "ordinary w" using assms by (simp add: ordinary_def)
  have "\<not> same_core w (b_version u)" if "inside ?j (version_key (w, wb))" "i_upper ?j = Some u"
      "\<not> b_inclusive u" "release (b_version u)" for u
    using that below_release [OF assms, of u wb]
    by (auto simp: inside_def core_cmp_def same_core_def cmp_def split: ordering.splits if_splits)
  then have "inside (canonical i) (version_key (w, wb)) \<longleftrightarrow> inside ?j (version_key (w, wb))"
    unfolding canonical_def canonical_upper_pre_inside by blast
  then show ?thesis
    by (simp add: canonical_upper_next_release [OF assms] canonical_lower_next_release [OF assms]
      canonical_lower_zero_inside [OF o])
qed

text \<open>Away from the largest patch number the rewrites of the last patch do nothing.\<close>

definition no_last_patch :: "interval \<Rightarrow> bool" where
  "no_last_patch i \<longleftrightarrow> (\<forall>b. i_lower i = Some b \<or> i_upper i = Some b \<longrightarrow> \<not> is_last_patch (b_version b))"

lemma canonical_no_last:
  assumes "no_last_patch i"
  shows "canonical i = canonical_upper_pre (canonical_lower_zero i)"
proof -
  have "i_upper (canonical_lower_zero i) = i_upper i"
    by (simp add: canonical_lower_zero_def split: option.split)
  then show ?thesis using assms
    by (auto simp: canonical_def canonical_lower_next_def canonical_upper_next_def no_last_patch_def
        split: option.split)
qed

lemma canonical_no_last_lower:
  assumes "no_last_patch i" "i_lower i = Some l" "has_pre (vtag (b_version l))"
  shows "i_lower (canonical i) = Some l"
  using assms(2,3) by (simp add: canonical_no_last [OF assms(1)] canonical_upper_pre_def canonical_lower_zero_def
      split: option.splits if_splits)

lemma canonical_no_last_upper:
  assumes "no_last_patch i" "i_upper i = Some u" "has_pre (vtag (b_version u))"
  shows "i_upper (canonical i) = Some u"
  using assms(2,3) by (simp add: canonical_no_last [OF assms(1)] canonical_upper_pre_def canonical_lower_zero_def
      split: option.splits if_splits)

lemma canonical_no_last_inside:
  assumes "no_last_patch i" "ordinary w"
  shows "inside (canonical i) (version_key (w, wb)) \<Longrightarrow> inside i (version_key (w, wb))"
  by (simp add: canonical_no_last [OF assms(1)] canonical_upper_pre_inside canonical_lower_zero_inside [OF assms(2)])

lemma is_within_inside:
  assumes "interval_is_within i j" "inside i k"
  shows "inside j k"
proof -
  have "above (i_lower j) k"
  proof (cases "i_lower i"; cases "i_lower j")
    fix a b assume "i_lower i = Some a" "i_lower j = Some b"
    then show ?thesis using assms above_mono [of a b k]
      by (auto simp: interval_is_within_def inside_def version_order_without_build_key b_key_def split: ordering.splits)
  qed (use assms in \<open>simp_all add: interval_is_within_def\<close>)
  moreover have "below (i_upper j) k"
  proof (cases "i_upper i"; cases "i_upper j")
    fix a b assume "i_upper i = Some a" "i_upper j = Some b"
    then show ?thesis using assms below_mono [of a b k]
      by (auto simp: interval_is_within_def inside_def version_order_without_build_key b_key_def split: ordering.splits)
  qed (use assms in \<open>simp_all add: interval_is_within_def\<close>)
  ultimately show ?thesis by (simp add: inside_def)
qed

section \<open>Subsets\<close>

text \<open>The bounds of a chain are those of its comparators, and no looser than any of them.\<close>

definition comparators :: "query \<Rightarrow> comparator set" where
  "comparators q = (\<Union>r\<in>set (ranges_of q). {r_left r, r_right r})"

definition lower_from :: "version_key \<Rightarrow> interval \<Rightarrow> bool" where
  "lower_from k i \<longleftrightarrow> (\<exists>l. i_lower i = Some l \<and> precedence k (b_key l) \<noteq> Greater)"

definition upper_to :: "version_key \<Rightarrow> interval \<Rightarrow> bool" where
  "upper_to k i \<longleftrightarrow> (\<exists>u. i_upper i = Some u \<and> precedence (b_key u) k \<noteq> Greater)"

lemma raise_lower_from: "lower_from k i \<Longrightarrow> lower_from k (interval_raise b i)"
  and raise_lower_own: "lower_from (b_key b) (interval_raise b i)"
  and cap_lower_from: "lower_from k (interval_cap b i) = lower_from k i"
proof -
  show "lower_from (b_key b) (interval_raise b i)"
    by (auto simp: lower_from_def interval_raise_def Let_def version_order_without_build_key b_key_def
      precedence.c_refl split: option.split ordering.split)
  show "lower_from k (interval_cap b i) = lower_from k i" by (simp add: lower_from_def)
  assume "lower_from k i"
  then obtain l where l: "i_lower i = Some l" "precedence k (b_key l) \<noteq> Greater" by (auto simp: lower_from_def)
  have "precedence (b_key l) (b_key b) = reverse_ordering (precedence (b_key b) (b_key l))" by (rule precedence.c_flip)
  then show "lower_from k (interval_raise b i)"
    using l precedence.c_trans [of k "b_key l" "b_key b"]
    by (cases "precedence (b_key b) (b_key l)") 
      (auto simp: lower_from_def interval_raise_def version_order_without_build_key b_key_def)
qed

lemma cap_upper_to: "upper_to k i \<Longrightarrow> upper_to k (interval_cap b i)"
  and cap_upper_own: "upper_to (b_key b) (interval_cap b i)"
  and raise_upper_to: "upper_to k (interval_raise b i) = upper_to k i"
proof -
  show "upper_to k (interval_raise b i) = upper_to k i" by (simp add: upper_to_def)
  have f: "precedence (b_key u) (b_key b) = reverse_ordering (precedence (b_key b) (b_key u))" for u by (rule precedence.c_flip)
  show "upper_to (b_key b) (interval_cap b i)"
  proof (cases "i_upper i")
    case (Some u)
    then show ?thesis using f [of u]
      by (cases "precedence (b_key b) (b_key u)")
        (auto simp: upper_to_def interval_cap_def version_order_without_build_key b_key_def precedence.c_refl)
  qed (simp add: upper_to_def interval_cap_def precedence.c_refl)
  assume "upper_to k i"
  then obtain u where u: "i_upper i = Some u" "precedence (b_key u) k \<noteq> Greater" by (auto simp: upper_to_def)
  then show "upper_to k (interval_cap b i)"
    using precedence.c_trans [of "b_key b" "b_key u" k]
    by (cases "precedence (b_key b) (b_key u)") 
      (auto simp: upper_to_def interval_cap_def version_order_without_build_key b_key_def)
qed

lemma narrow_from: "lower_from k i \<Longrightarrow> lower_from k (narrow c buf i)"
  and narrow_to: "upper_to k i \<Longrightarrow> upper_to k (narrow c buf i)"
  by (auto simp: narrow_def Let_def raise_lower_from cap_lower_from cap_upper_to raise_upper_to split: op.split)

lemma narrow_from_own: "c_op c \<in> {Eql, Gt, Gte} \<Longrightarrow> lower_from (version_key (c_version c, buf)) (narrow c buf i)"
  using raise_lower_own [of "\<lparr>b_version = c_version c, b_buf = buf, b_inclusive = n\<rparr>" for n]
  by (auto simp: narrow_def Let_def cap_lower_from b_key_def)

lemma narrow_to_own: "c_op c \<in> {Lt, Lte} \<Longrightarrow> upper_to (version_key (c_version c, buf)) (narrow c buf i)"
  using cap_upper_own [of "\<lparr>b_version = c_version c, b_buf = buf, b_inclusive = n\<rparr>" for n]
  by (auto simp: narrow_def Let_def b_key_def)

lemma and_query_step: "and_query q buf i =
    (let i = narrow (r_right (q_range q)) buf (narrow (r_left (q_range q)) buf i)
     in case q_next q of None \<Rightarrow> i | Some p \<Rightarrow> and_query p buf i)"
  by (cases q) simp

lemma and_query_from: "lower_from k i \<Longrightarrow> lower_from k (and_query q buf i)"
  and and_query_to: "upper_to k i \<Longrightarrow> upper_to k (and_query q buf i)"
  by (induction q arbitrary: i rule: ranges_of.induct) (simp_all add: Let_def narrow_from narrow_to)

lemma and_query_own:
  assumes "c \<in> comparators q"
  shows "c_op c \<in> {Eql, Gt, Gte} \<Longrightarrow> lower_from (version_key (c_version c, buf)) (and_query q buf i)"
    and "c_op c \<in> {Lt, Lte} \<Longrightarrow> upper_to (version_key (c_version c, buf)) (and_query q buf i)"
  using assms
  by (induction q arbitrary: i rule: ranges_of.induct)
    (auto simp only: comparators_def and_query.simps ranges_of.simps Let_def set_simps UN_insert UN_empty Un_iff insert_iff
      empty_iff option.case
      intro: narrow_from_own narrow_to_own narrow_from narrow_to and_query_from and_query_to)

definition bounds_of :: "interval \<Rightarrow> version set" where
  "bounds_of i = b_version ` (set_option (i_lower i) \<union> set_option (i_upper i))"

lemma narrow_bounds: "bounds_of (narrow c buf i) \<subseteq> insert (c_version c) (bounds_of i)"
  by (auto simp: narrow_def bounds_of_def Let_def interval_raise_def interval_cap_def split: op.splits if_splits)

lemma and_query_bounds: "bounds_of (and_query q buf i) \<subseteq> bounds_of i \<union> c_version ` comparators q"
proof (induction q arbitrary: i rule: ranges_of.induct)
  case (1 r)
  then show ?case
    using narrow_bounds [of "r_right r" buf "narrow (r_left r) buf i"] narrow_bounds [of "r_left r" buf i]
    by (simp add: comparators_def Let_def) blast
next
  case (2 r q)
  then show ?case
    using 2 [of "narrow (r_right r) buf (narrow (r_left r) buf i)"]
      narrow_bounds [of "r_right r" buf "narrow (r_left r) buf i"] narrow_bounds [of "r_left r" buf i]
    by (simp add: comparators_def Let_def) blast
qed

text \<open>A prerelease between a comparator of its own \<^verbatim>\<open>major.minor.patch\<close> and itself.\<close>

lemma between_core:
  assumes "precedence (version_key (c, cb)) (version_key (l, lb)) \<noteq> Greater"
    and "precedence (version_key (l, lb)) (version_key (w, wb)) \<noteq> Greater"
    and "same_core w c" "has_pre (vtag w)"
  shows "has_pre (vtag l)" "same_core w l"
proof -
  show s: "same_core w l"
    using assms by (auto simp: precedence_core same_core_def cmp_def split: if_splits)
  show "has_pre (vtag l)"
    using assms(2,4) s pre_key_None [of "vtag l" lb] pre_key_None [of "vtag w" wb]
    by (cases "pre_key (vtag l) lb"; cases "pre_key (vtag w) wb") (auto simp: precedence_core same_core_def)
qed

lemma between_core_above:
  assumes "precedence (version_key (l, lb)) (version_key (c, cb)) \<noteq> Greater"
    and "precedence (version_key (w, wb)) (version_key (l, lb)) \<noteq> Greater"
    and "same_core w c" "has_pre (vtag c)"
  shows "has_pre (vtag l)" "same_core w l"
proof -
  show s: "same_core w l"
    using assms by (auto simp: precedence_core same_core_def cmp_def split: if_splits)
  show "has_pre (vtag l)"
    using assms(1,3,4) s pre_key_None [of "vtag l" lb] pre_key_None [of "vtag c" cb]
    by (cases "pre_key (vtag l) lb"; cases "pre_key (vtag c) cb") (auto simp: precedence_core same_core_def)
qed

lemma prerelease_bound:
  assumes "inside (and_query q buf i) (version_key (w, wb))" "has_pre (vtag w)"
    and "\<exists>r\<in>set (ranges_of q). pre_allows r w"
  shows "(\<exists>l. i_lower (and_query q buf i) = Some l \<and> bound_at l w) \<or>
    (\<exists>u. i_upper (and_query q buf i) = Some u \<and> bound_at u w)"
proof -
  obtain c where c: "c \<in> comparators q" "c_op c \<noteq> Unset" "has_pre (vtag (c_version c))" "same_core w (c_version c)"
    using assms(3) by (auto simp: pre_allows_def comparators_def has_left_def has_right_def)
  let ?i = "and_query q buf i" and ?k = "version_key (w, wb)"
  show ?thesis
  proof (cases "c_op c \<in> {Lt, Lte}")
    case True
    then obtain u where u: "i_upper ?i = Some u" "precedence (b_key u) (version_key (c_version c, buf)) \<noteq> Greater"
      using and_query_own(2) [OF c(1)] by (fastforce simp: upper_to_def)
    have "precedence ?k (b_key u) \<noteq> Greater"
      using assms(1) u(1) by (auto simp: inside_def below_def split: ordering.splits)
    then have "bound_at u w"
      using between_core_above [of "b_version u" "b_buf u" "c_version c" buf w wb] u(2) c
      by (simp add: bound_at_def b_key_def)
    then show ?thesis using u(1) by blast
  next
    case False
    then have "c_op c \<in> {Eql, Gt, Gte}" using c(2) by (cases "c_op c") auto
    then obtain l where l: "i_lower ?i = Some l" "precedence (version_key (c_version c, buf)) (b_key l) \<noteq> Greater"
      using and_query_own(1) [OF c(1)] by (fastforce simp: lower_from_def)
    have "precedence (b_key l) ?k \<noteq> Greater"
      using assms(1) l(1) precedence.less_iff_greater [of ?k "b_key l"]
      by (auto simp: inside_def above_def split: ordering.splits)
    then have "bound_at l w"
      using between_core [of "c_version c" buf "b_version l" "b_buf l" w wb] l(2) c assms(2)
      by (simp add: bound_at_def b_key_def)
    then show ?thesis using l(1) by blast
  qed
qed

lemma is_prerelease_of_it_allows:
  assumes "is_prerelease_of_it b (r_left r) \<or> is_prerelease_of_it b (r_right r)" "has_right r \<longrightarrow> has_left r"
    and "same_core w (b_version b)"
  shows "pre_allows r w"
  using assms by (auto simp: is_prerelease_of_it_def pre_allows_def has_left_def has_right_def same_core_def)

lemma has_prerelease_of_ranges:
  assumes "same_core w (b_version b)"
  shows "has_prerelease_of b q \<Longrightarrow> \<forall>r\<in>set (ranges_of q). has_right r \<longrightarrow> has_left r \<Longrightarrow>
    \<exists>r\<in>set (ranges_of q). pre_allows r w"
proof (induction q rule: ranges_of.induct)
  case (1 r)
  then show ?case using is_prerelease_of_it_allows [OF _ _ assms, of r] by (simp split: if_splits)
next
  case (2 r q)
  then show ?case using is_prerelease_of_it_allows [OF _ _ assms, of r]
    by (cases "is_prerelease_of_it b (r_left r) \<or> is_prerelease_of_it b (r_right r)") auto
qed

text \<open>Away from the largest patch number, a prerelease that satisfies a chain is inside its canonical
  interval, and that interval has a bound which is a prerelease of the same numbers.\<close>

lemma prerelease_canonical:
  assumes "inside i (version_key (w, wb))" "no_last_patch i" "ordinary w"
    and "(\<exists>l. i_lower i = Some l \<and> bound_at l w) \<or> (\<exists>u. i_upper i = Some u \<and> bound_at u w)"
  shows "inside (canonical i) (version_key (w, wb))"
proof -
  let ?j = "canonical_lower_zero i"
  have lower: "i_lower ?j = Some l" if "i_lower i = Some l" "bound_at l w" for l
    using that by (simp add: canonical_lower_zero_def bound_at_def)
  have upper: "i_upper ?j = i_upper i" by (simp add: canonical_lower_zero_def split: option.split)
  show ?thesis
    using assms(1,4) lower upper
    by (auto simp: canonical_no_last [OF assms(2)] canonical_upper_pre_inside canonical_lower_zero_inside [OF assms(3)]
        bound_at_def release_def)
qed

lemma zero_slice_key: "has_pre t \<Longrightarrow> external_slice (pre t) b = ''0'' \<Longrightarrow> pre_key t b = Some [Numeric 0]"
proof -
  assume "has_pre t" "external_slice (pre t) b = ''0''"
  moreover have "map ident_of (split ''0'' ''.'') = [Numeric 0]" by code_simp
  ultimately show ?thesis by (simp add: pre_key_def)
qed

lemma prereleases_can_satisfy_allows:
  assumes "prereleases_can_satisfy i q" "inside i (version_key (w, wb))"
    and "(\<exists>l. i_lower i = Some l \<and> bound_at l w) \<or> (\<exists>u. i_upper i = Some u \<and> bound_at u w)"
    and "\<forall>r\<in>set (ranges_of q). has_right r \<longrightarrow> has_left r"
  shows "\<exists>r\<in>set (ranges_of q). pre_allows r w"
proof -
  have "b_inclusive u \<or> external_slice (pre (vtag (b_version u))) (b_buf u) \<noteq> ''0''"
    if u: "i_upper i = Some u" "bound_at u w" for u
  proof (rule ccontr)
    assume *: "\<not> ?thesis"
    then have "pre_key (vtag (b_version u)) (b_buf u) = Some [Numeric 0]"
      using zero_slice_key u(2) by (simp add: bound_at_def)
    then have "precedence (version_key (w, wb)) (b_key u) \<noteq> Less"
      using u(2) pre_key_ge_zero [of "vtag w" wb]
      by (auto simp: b_key_def precedence_core bound_at_def same_core_def)
    then show False using assms(2) * u(1) by (auto simp: inside_def below_def split: ordering.splits)
  qed
  then obtain b where "has_prerelease_of b q" "same_core w (b_version b)"
    using assms(1,3) by (fastforce simp: prereleases_can_satisfy_def Let_def bound_at_def)
  then show ?thesis using has_prerelease_of_ranges [OF _ _ assms(4)] by blast
qed

definition no_last_patch_of :: "group \<Rightarrow> bool" where
  "no_last_patch_of g \<longleftrightarrow>
     list_all (list_all (\<lambda>r. \<not> is_last_patch (c_version (r_left r)) \<and> \<not> is_last_patch (c_version (r_right r)))) (alternatives g)"

lemma no_last_patch_chain:
  assumes "no_last_patch_of g" "q \<in> set (group_alternatives g)"
  shows "no_last_patch (and_query q buf default_interval)"
proof -
  have "bounds_of (and_query q buf default_interval) \<subseteq> c_version ` comparators q"
    using and_query_bounds [of q buf default_interval] by (simp add: bounds_of_def default_interval_def)
  moreover have "\<forall>v\<in>c_version ` comparators q. \<not> is_last_patch v"
    using assms by (auto simp: no_last_patch_of_def alternatives_heads list_all_iff comparators_def)
  ultimately show ?thesis by (auto simp: no_last_patch_def bounds_of_def)
qed

lemma subset_chain:
  assumes "is_subset_of self self_buf other other_buf" "a \<in> set (group_alternatives self)"
    and "inside (canonical (and_query a self_buf default_interval)) (version_key (w, wb))"
  obtains b where "b \<in> set (group_alternatives other)"
    "inside (canonical (and_query b other_buf default_interval)) (version_key (w, wb))"
    "prereleases_can_satisfy (canonical (and_query a self_buf default_interval)) b"
proof -
  let ?c = "canonical (and_query a self_buf default_interval)"
  have "list_ex (\<lambda>b. interval_is_within ?c (canonical (and_query b other_buf default_interval)) \<and>
      prereleases_can_satisfy ?c b) (group_alternatives other)"
    using assms(1,2) is_non_empty_inside [OF assms(3)] by (simp add: is_subset_of_def Let_def list_all_iff)
  then show ?thesis using that is_within_inside [OF _ assms(3)] by (auto simp: list_ex_iff)
qed

text \<open>C3: \<^verbatim>\<open>Group::is_subset_of\<close> is right when it answers yes: every release that satisfies the first
  range satisfies the second, at the largest numbers too; and so does every prerelease, as long as it is
  not one of \<open>0.0.0\<close> and no comparator is a release with the largest patch number.\<close>

theorem is_subset_of_sound:
  assumes "is_subset_of self self_buf other other_buf" "group_satisfies self w self_buf wb"
    and "group_pairs self" "group_pairs other"
    and "release w \<or> \<not> is_zero w \<and> no_last_patch_of self \<and> no_last_patch_of other"
  shows "group_satisfies other w other_buf wb"
proof -
  obtain a where a: "a \<in> set (group_alternatives self)" "query_satisfies a w self_buf wb"
      "has_pre (vtag w) \<longrightarrow> (\<exists>r\<in>set (ranges_of a). pre_allows r w)"
    using assms(2) by (auto simp: group_satisfies_head)
  let ?k = "version_key (w, wb)" and ?i = "and_query a self_buf default_interval"
  have o: "ordinary w" using assms(5) by (auto simp: ordinary_def)
  have in_a: "inside ?i ?k"
    using and_query_inside [OF o group_pairs_head [OF assms(3) a(1)]] a(2) by simp
  show ?thesis
  proof (cases "release w")
    case True
    then obtain b where b: "b \<in> set (group_alternatives other)"
        "inside (canonical (and_query b other_buf default_interval)) ?k"
      using subset_chain [OF assms(1) a(1)] in_a canonical_release by metis
    then have "query_satisfies b w other_buf wb"
      using and_query_inside [OF o group_pairs_head [OF assms(4) b(1)]] canonical_release [OF True] by simp
    then show ?thesis using b(1) True by (auto simp: group_satisfies_head release_def)
  next
    case False
    then have pre: "has_pre (vtag w)" by (simp add: release_def)
    then have last: "no_last_patch_of self" "no_last_patch_of other" using assms(5) False by auto
    note n = no_last_patch_chain [OF last(1) a(1), of self_buf]
    have at: "(\<exists>l. i_lower ?i = Some l \<and> bound_at l w) \<or> (\<exists>u. i_upper ?i = Some u \<and> bound_at u w)"
      using prerelease_bound [OF in_a pre] a(3) pre by blast
    then have at': "(\<exists>l. i_lower (canonical ?i) = Some l \<and> bound_at l w) \<or> (\<exists>u. i_upper (canonical ?i) = Some u \<and> bound_at u w)"
      using canonical_no_last_lower [OF n] canonical_no_last_upper [OF n] by (auto simp: bound_at_def)
    have in_c: "inside (canonical ?i) ?k" by (rule prerelease_canonical [OF in_a n o at])
    then obtain b where b: "b \<in> set (group_alternatives other)"
        "inside (canonical (and_query b other_buf default_interval)) ?k" "prereleases_can_satisfy (canonical ?i) b"
      using subset_chain [OF assms(1) a(1)] by metis
    note pb = group_pairs_head [OF assms(4) b(1)]
    have "query_satisfies b w other_buf wb"
      using and_query_inside [OF o pb] canonical_no_last_inside [OF no_last_patch_chain [OF last(2) b(1)] o b(2)] by simp
    moreover have "\<exists>r\<in>set (ranges_of b). pre_allows r w"
      by (rule prereleases_can_satisfy_allows [OF b(3) in_c at' pb])
    ultimately show ?thesis using b(1) by (auto simp: group_satisfies_head)
  qed
qed

text \<open>Versions and groups to evaluate: a prerelease tag, one comparator, and two comparators in one chain.\<close>

definition sample_version :: "u64 \<Rightarrow> u64 \<Rightarrow> u64 \<Rightarrow> bytes \<Rightarrow> version" where
  "sample_version ma mi pa t = \<lparr>major = ma, minor = mi, patch = pa,
     vtag = (if t = [] then default_tag else default_tag\<lparr>pre := external_init 0 t 0\<rparr>)\<rparr>"

definition sample_group :: "op \<Rightarrow> version \<Rightarrow> op \<Rightarrow> version \<Rightarrow> group" where
  "sample_group o1 v1 o2 v2 = group_and_range (from_comparator \<lparr>c_op = o1, c_version = v1\<rparr>)
     (default_range\<lparr>r_left := \<lparr>c_op = o2, c_version = v2\<rparr>\<rparr>)"

lemma sample_simps [simp]:
  "major (sample_version ma mi pa t) = ma" "minor (sample_version ma mi pa t) = mi" "patch (sample_version ma mi pa t) = pa"
  by (simp_all add: sample_version_def)

lemma sample_tag:
  assumes "c \<noteq> CHR 0x00"
  shows "has_pre (default_tag\<lparr>pre := external_init 0 [c] 0\<rparr>)"
    and "external_slice (external_init 0 [c] 0) b = [c]"
proof -
  show s: "external_slice (external_init 0 [c] 0) b = [c]" for b
    using assms by (simp add: external_slice_def external_init_def string_init_cases can_inline_def inline_raw_slice
        max_inline_len_def)
  show "has_pre (default_tag\<lparr>pre := external_init 0 [c] 0\<rparr>)"
    using string_slice_empty s [of "[]"] by (auto simp: has_pre_def external_slice_def)
qed

lemma sample_has_pre [simp]: "\<not> has_pre (vtag (sample_version ma mi pa []))"
  "c \<noteq> CHR 0x00 \<Longrightarrow> has_pre (vtag (sample_version ma mi pa [c]))"
  by (simp_all add: sample_version_def sample_tag)

lemma sample_slice: "c \<noteq> CHR 0x00 \<Longrightarrow> external_slice (pre (vtag (sample_version ma mi pa [c]))) b = [c]"
  by (simp add: sample_version_def sample_tag)

lemma sample_key [simp]:
  "pre_key (vtag (sample_version ma mi pa [])) b = None"
  "pre_key (vtag (sample_version ma mi pa ''0'')) b = Some [Numeric 0]"
  "pre_key (vtag (sample_version ma mi pa ''a'')) b = Some [Alpha ''a'']"
  "pre_key (vtag (sample_version ma mi pa ''b'')) b = Some [Alpha ''b'']"
proof -
  have "map ident_of (split ''0'' ''.'') = [Numeric 0]" "map ident_of (split ''a'' ''.'') = [Alpha ''a'']"
    "map ident_of (split ''b'' ''.'') = [Alpha ''b'']" by code_simp+
  then show "pre_key (vtag (sample_version ma mi pa [])) b = None"
    "pre_key (vtag (sample_version ma mi pa ''0'')) b = Some [Numeric 0]"
    "pre_key (vtag (sample_version ma mi pa ''a'')) b = Some [Alpha ''a'']"
    "pre_key (vtag (sample_version ma mi pa ''b'')) b = Some [Alpha ''b'']"
    by (simp_all add: pre_key_def sample_slice)
qed

lemma zero_pre_slice: "external_slice (pre zero_pre) b = ''0''"
  using inline_len_nul [of "ext_value (pre zero_pre)"]
  by (simp add: external_slice_def string_slice_def zero_pre_def is_inline_def max_inline_len_def)

lemma sample_alternatives:
  "o1 \<noteq> Unset \<Longrightarrow> group_alternatives (sample_group o1 v1 o2 v2) =
     [Query (default_range\<lparr>r_left := \<lparr>c_op = o1, c_version = v1\<rparr>\<rparr>)
        (Some (Query (default_range\<lparr>r_left := \<lparr>c_op = o2, c_version = v2\<rparr>\<rparr>) None))]"
  by (simp add: sample_group_def group_alternatives_def from_comparator_def group_and_range_def
      list_and_range_def default_group_def has_left_def)

lemma order_samples:
  "version_order_without_build v w b d = (if major v \<noteq> major w then cmp (major v) (major w)
     else if minor v \<noteq> minor w then cmp (minor v) (minor w)
     else if patch v \<noteq> patch w then cmp (patch v) (patch w)
     else pre_cmp (pre_key (vtag v) b) (pre_key (vtag w) d))"
  by (simp add: version_order_without_build_key precedence_core)


lemmas sample_eval = sample_alternatives group_satisfies_head query_satisfies_all pre_allows_def same_core_def range_satisfies_iff
  comparator_satisfies_def order_samples default_range_def default_comparator_def has_left_def has_right_def cmp_def order_bytes_def

lemmas interval_eval = narrow_def interval_raise_def interval_cap_def default_interval_def canonical_def
  canonical_lower_next_def canonical_lower_zero_def canonical_upper_next_def canonical_upper_pre_def is_last_patch_def
  u64_max_def is_zero_def is_non_empty_def interval_is_within_def prereleases_can_satisfy_def is_prerelease_of_it_def
  zero_pre_slice

theorem is_subset_of_sound_witness:
  "group_satisfies (sample_group Gte (sample_version 1 2 3 ''a'') Lt (sample_version 2 0 0 [])) (sample_version 1 2 3 ''b'') [] []"
proof -
  let ?self = "sample_group Gte (sample_version 1 2 3 ''a'') Lt (sample_version 1 9 0 [])"
  let ?other = "sample_group Gte (sample_version 1 2 3 ''a'') Lt (sample_version 2 0 0 [])"
  let ?w = "sample_version 1 2 3 ''b''"
  have "is_subset_of ?self [] ?other []"
    by (simp add: sample_eval is_subset_of_def interval_eval)
  moreover have "group_satisfies ?self ?w [] []" by (simp add: sample_eval)
  moreover have "group_pairs ?self" "group_pairs ?other"
    by (simp_all add: group_pairs_def alternatives_heads sample_eval)
  moreover have "no_last_patch_of ?self" "no_last_patch_of ?other"
    by (simp_all add: no_last_patch_of_def alternatives_heads sample_eval interval_eval)
  moreover have "\<not> is_zero ?w" by (simp add: is_zero_def)
  ultimately show ?thesis using is_subset_of_sound [of ?self "[]" ?other "[]" ?w "[]"] by blast
qed

text \<open>C40: two prereleases \<^verbatim>\<open>is_subset_of\<close> and \<^verbatim>\<open>intersects\<close> get wrong. Dropping the bound \<^verbatim>\<open>>=0.0.0\<close> makes
  \<^verbatim>\<open>>=0.0.0-0 <1.0.0\<close> a subset of \<^verbatim>\<open>>=0.0.0-a >=0.0.0\<close>, though \<open>0.0.0-0\<close> satisfies only the first; and
  \<^verbatim>\<open>>=0.0.0 <0.0.0-b\<close> does not intersect itself, though \<open>0.0.0-a\<close> satisfies it.\<close>

theorem prereleases_of_zero:
  "let zero = sample_version 0 0 0;
       a = sample_group Gte (zero ''0'') Lt (sample_version 1 0 0 []);
       b = sample_group Gte (zero ''a'') Gte (zero []);
       c = sample_group Gte (zero []) Lt (zero ''b'')
   in is_subset_of a [] b [] \<and> group_satisfies a (zero ''0'') [] [] \<and> \<not> group_satisfies b (zero ''0'') [] [] \<and>
      \<not> intersects c [] c [] \<and> group_satisfies c (zero ''a'') [] []"
proof -
  let ?zero = "sample_version 0 0 0"
  let ?a = "sample_group Gte (?zero ''0'') Lt (sample_version 1 0 0 [])"
  let ?b = "sample_group Gte (?zero ''a'') Gte (?zero [])"
  let ?c = "sample_group Gte (?zero []) Lt (?zero ''b'')"
  have "is_subset_of ?a [] ?b []" by (simp add: sample_eval is_subset_of_def interval_eval)
  moreover have "group_satisfies ?a (?zero ''0'') [] []" "\<not> group_satisfies ?b (?zero ''0'') [] []"
    "group_satisfies ?c (?zero ''a'') [] []" by (simp_all add: sample_eval interval_eval)
  moreover have "\<not> intersects ?c [] ?c []"
    by (simp add: sample_eval interval_eval intersects_def admits_an_exact_version_of_def exact_version_def map_filter_def)
  ultimately show ?thesis by simp
qed

end
