(* ===== verification/Shell_Arith.thy ===== *)
theory Shell_Arith
  imports Bun_Core "HOL-Library.Signed_Division"
begin

text \<open>
  \<^verbatim>\<open>src/shell_parser/arith.rs\<close>: the arithmetic of \<^verbatim>\<open>$(( ))\<close>, which is evaluated while it is read.

  A variable \<open>i64\<close> is a 64-bit word read as a signed number. The trait object \<^verbatim>\<open>Variables\<close> is the
  argument \<open>ops\<close>, with the state it mutates in the evaluator. The stack check of
  \<^verbatim>\<open>bun_core\<close> is the argument \<open>safe\<close>: whether the native stack has room depends on the machine, so
  it may be any function of the evaluator. Each method of \<^verbatim>\<open>Evaluator\<close> is a definition of that name.
  Where the code recurses to an outer rule the definition calls \<open>rec\<close>, which \<open>expr\<close> ties with a
  fuel; \<open>None\<close> is the fuel running out, and a lemma below shows that it never does.
\<close>

section \<open>Errors and variables\<close>

unbundle bit_operations_syntax

record arith_error =
  e_expression :: bytes
  e_message :: bytes
  e_token :: bytes

definition error_message :: "arith_error \<Rightarrow> bytes" where
  "error_message e =
     e_expression e @ '': '' @ e_message e @ '' (error token is '' @ [CHR 0x22] @ e_token e @ [CHR 0x22] @ '')''"

record 'v variables =
  v_get :: "'v \<Rightarrow> bytes \<Rightarrow> bytes option"
  v_set :: "'v \<Rightarrow> bytes \<Rightarrow> i64 \<Rightarrow> 'v"

definition max_depth :: nat where "max_depth = 128"

definition is_blank :: "byte \<Rightarrow> bool" where
  "is_blank c \<longleftrightarrow> c = CHR '' '' \<or> c = CHR 0x09 \<or> c = CHR 0x0A \<or> c = CHR 0x0D"

definition is_name_start :: "byte \<Rightarrow> bool" where
  "is_name_start c \<longleftrightarrow> is_ascii_alphabetic c \<or> c = CHR ''_''"

definition is_name_char :: "byte \<Rightarrow> bool" where
  "is_name_char c \<longleftrightarrow> is_ascii_alphanumeric c \<or> c = CHR ''_''"

definition is_number_char :: "byte \<Rightarrow> bool" where
  "is_number_char c \<longleftrightarrow> is_ascii_alphanumeric c \<or> c = CHR ''#'' \<or> c = CHR ''@'' \<or> c = CHR ''_''"

definition arith_trim :: "bytes \<Rightarrow> bytes" where
  "arith_trim text = rev (dropWhile is_blank (rev (dropWhile is_blank text)))"

definition not_an_integer :: "bytes \<Rightarrow> arith_error" where
  "not_an_integer text =
     (let text = arith_trim text
      in \<lparr>e_expression = text, e_message = ''not an integer'', e_token = text\<rparr>)"

section \<open>Numbers\<close>

text \<open>The value of one digit, with the base so far.\<close>

definition arith_digit :: "i64 \<Rightarrow> byte \<Rightarrow> nat" where
  "arith_digit base c =
     (if is_ascii_digit c then of_char c - of_char (CHR ''0'')
      else if is_ascii_lower c then of_char c - of_char (CHR ''a'') + 10
      else if is_ascii_upper c then of_char c - of_char (CHR ''A'') + (if sint base \<le> 36 then 10 else 36)
      else if c = CHR ''@'' then 62
      else 63)"

text \<open>The loop of \<^verbatim>\<open>parse_number\<close>, over the bytes from \<^verbatim>\<open>s\<close> on.\<close>

fun number_loop :: "i64 \<Rightarrow> bool \<Rightarrow> i64 \<Rightarrow> bytes \<Rightarrow> bytes + i64" where
  "number_loop base found_base value [] = Inr value"
| "number_loop base found_base value (c # cs) =
     (if c = CHR ''#'' then
        (if found_base then Inl ''invalid number''
         else if \<not> (2 \<le> sint value \<and> sint value \<le> 64) then Inl ''invalid arithmetic base''
         else if cs = [] \<or> \<not> is_number_char (hd cs) \<or> hd cs = CHR ''#'' then Inl ''invalid integer constant''
         else number_loop value True 0 cs)
      else
        (let digit = arith_digit base c
         in if sint base \<le> int digit then Inl ''value too great for base''
            else number_loop base found_base (value * base + of_nat digit) cs))"

definition parse_number :: "bytes \<Rightarrow> bytes + i64" where
  "parse_number num =
     (if num ! 0 = CHR ''0'' then
        (case get num 1 of
           None \<Rightarrow> Inr 0
         | Some c \<Rightarrow>
             if c = CHR ''x'' \<or> c = CHR ''X'' then number_loop 16 True 0 (drop 2 num)
             else number_loop 8 True 0 (drop 1 num))
      else number_loop 10 False 0 num)"

definition arith_constant :: "bytes \<Rightarrow> arith_error + i64" where
  "arith_constant text =
     (let text = arith_trim text
      in case text of
           [] \<Rightarrow> Inr 0
         | c # rest \<Rightarrow>
             (let negative = (c = CHR ''-'');
                  digits = (if c = CHR ''-'' \<or> c = CHR ''+'' then rest else text)
              in if digits = [] \<or> \<not> is_ascii_digit (hd digits) \<or> \<not> list_all is_number_char digits
                 then Inl (not_an_integer text)
                 else (case parse_number digits of
                         Inr value \<Rightarrow> Inr (if negative then - value else value)
                       | Inl message \<Rightarrow>
                           Inl \<lparr>e_expression = text, e_message = message, e_token = digits\<rparr>)))"

definition is_integer :: "bytes \<Rightarrow> bool" where
  "is_integer text \<longleftrightarrow> arith_trim text \<noteq> [] \<and> \<not> isl (arith_constant text)"

datatype operand = OpEmpty | OpText bytes | OpSigned bytes

definition arith_operand :: "bytes \<Rightarrow> bool \<Rightarrow> arith_error + operand" where
  "arith_operand text continues =
     (let text = arith_trim text
      in case text of
           [] \<Rightarrow> Inr OpEmpty
         | c # rest \<Rightarrow>
             (let signed = (c = CHR ''-'' \<or> c = CHR ''+'');
                  digits = (if signed then rest else text);
                  starts_a_number = (digits \<noteq> [] \<and> is_ascii_digit (hd digits))
              in if \<not> list_all is_number_char digits \<or> \<not> (starts_a_number \<or> continues \<and> \<not> signed)
                 then Inl (not_an_integer text)
                 else Inr (if signed then OpSigned text else OpText text)))"

section \<open>Operators\<close>

datatype assign_op = AMul | ADiv | AMod | APlus | AMinus | ALsh | ARsh | ABAnd | ABXor | ABOr

datatype tok = TkEnd | TkNum | TkStr | TkEq | TkGt | TkLt | TkPlus | TkMinus | TkMul | TkDiv | TkMod | TkNot
  | TkLPar | TkRPar | TkBAnd | TkBOr | TkBXor | TkBNot | TkQues | TkCol | TkComma | TkEqEq | TkNeq | TkLeq | TkGeq
  | TkLAnd | TkLOr | TkLsh | TkRsh | TkOpAssign assign_op | TkPower | TkPreInc | TkPreDec | TkPostInc | TkPostDec
  | TkCond

definition from_byte :: "byte \<Rightarrow> assign_op option" where
  "from_byte c =
     (if c = CHR ''*'' then Some AMul else if c = CHR ''/'' then Some ADiv
      else if c = CHR ''%'' then Some AMod else if c = CHR ''+'' then Some APlus
      else if c = CHR ''-'' then Some AMinus else if c = CHR ''&'' then Some ABAnd
      else if c = CHR ''^'' then Some ABXor else if c = CHR ''|'' then Some ABOr else None)"

definition divide :: "i64 \<Rightarrow> i64 \<Rightarrow> i64" where
  "divide lhs rhs = word_of_int (sint lhs sdiv sint rhs)"

definition remainder :: "i64 \<Rightarrow> i64 \<Rightarrow> i64" where
  "remainder lhs rhs = word_of_int (sint lhs smod sint rhs)"

text \<open>\<^verbatim>\<open>wrapping_shl\<close> and \<^verbatim>\<open>wrapping_shr\<close> take the count modulo 64.\<close>

definition shift_left :: "i64 \<Rightarrow> i64 \<Rightarrow> i64" where
  "shift_left lhs rhs = push_bit (unat (ucast rhs :: u32) mod 64) lhs"

definition shift_right :: "i64 \<Rightarrow> i64 \<Rightarrow> i64" where
  "shift_right lhs rhs = signed_drop_bit (unat (ucast rhs :: u32) mod 64) lhs"

text \<open>The loop of \<^verbatim>\<open>power\<close>. With a negative exponent it would not end; its caller rules that out.\<close>

partial_function (option) power_loop :: "i64 \<Rightarrow> i64 \<Rightarrow> i64 \<Rightarrow> i64 option" where
  "power_loop base exponent result =
     (if exponent = 0 then Some result
      else power_loop (base * base) (signed_drop_bit 1 exponent)
             (if exponent AND 1 \<noteq> 0 then result * base else result))"

declare power_loop.simps [code]

definition arith_power :: "i64 \<Rightarrow> i64 \<Rightarrow> i64 option" where
  "arith_power base exponent = power_loop base exponent 1"

definition apply_op :: "assign_op \<Rightarrow> i64 \<Rightarrow> i64 \<Rightarrow> i64" where
  "apply_op op lhs rhs =
     (case op of
        AMul \<Rightarrow> lhs * rhs | ADiv \<Rightarrow> divide lhs rhs | AMod \<Rightarrow> remainder lhs rhs
      | APlus \<Rightarrow> lhs + rhs | AMinus \<Rightarrow> lhs - rhs
      | ALsh \<Rightarrow> shift_left lhs rhs | ARsh \<Rightarrow> shift_right lhs rhs
      | ABAnd \<Rightarrow> lhs AND rhs | ABXor \<Rightarrow> lhs XOR rhs | ABOr \<Rightarrow> lhs OR rhs)"

section \<open>The evaluator\<close>

type_synonym name_range = "nat \<times> nat"

record saved =
  s_tp :: nat
  s_lasttp :: nat
  s_curtok :: tok
  s_lasttok :: tok
  s_tokval :: i64
  s_tokstr :: "name_range option"

text \<open>\<^verbatim>\<open>noeval\<close> and \<^verbatim>\<open>depth\<close> stay far below their 32 bits: each nesting is a recursion, of which there
  are at most \<^verbatim>\<open>MAX_DEPTH\<close>.\<close>

record 'v evaluator =
  expression :: bytes
  vars :: 'v
  tp :: nat
  lasttp :: nat
  curtok :: tok
  lasttok :: tok
  tokval :: i64
  tokstr :: "name_range option"
  noeval :: nat
  peeking :: bool
  depth :: nat

definition error_before :: "'v evaluator \<Rightarrow> nat \<Rightarrow> bytes \<Rightarrow> arith_error" where
  "error_before s stop message =
     (let expr = take stop (expression s)
      in \<lparr>e_expression = dropWhile (\<lambda>c. c = CHR '' '' \<or> c = CHR 0x09) expr, e_message = message,
          e_token = drop (min (lasttp s) stop) expr\<rparr>)"

definition arith_err :: "'v evaluator \<Rightarrow> bytes \<Rightarrow> arith_error" where
  "arith_err s message = error_before s (length (expression s)) message"

type_synonym 'v outcome = "(arith_error + i64) \<times> 'v evaluator"
type_synonym 'v unit_outcome = "(arith_error + unit) \<times> 'v evaluator"

definition enter :: "('v evaluator \<Rightarrow> bool) \<Rightarrow> 'v evaluator \<Rightarrow> 'v unit_outcome" where
  "enter safe s =
     (if max_depth \<le> depth s \<or> \<not> safe s then (Inl (arith_err s ''expression recursion level exceeded''), s)
      else (Inr (), s\<lparr>depth := depth s + 1\<rparr>))"

definition leave :: "'v evaluator \<Rightarrow> 'v evaluator" where
  "leave s = s\<lparr>depth := depth s - 1\<rparr>"

definition save :: "'v evaluator \<Rightarrow> saved" where
  "save s = \<lparr>s_tp = tp s, s_lasttp = lasttp s, s_curtok = curtok s, s_lasttok = lasttok s,
     s_tokval = tokval s, s_tokstr = tokstr s\<rparr>"

definition restore :: "saved \<Rightarrow> 'v evaluator \<Rightarrow> 'v evaluator" where
  "restore saved s = s\<lparr>tp := s_tp saved, lasttp := s_lasttp saved, curtok := s_curtok saved,
     lasttok := s_lasttok saved, tokval := s_tokval saved, tokstr := s_tokstr saved\<rparr>"

definition name_of :: "'v evaluator \<Rightarrow> name_range \<Rightarrow> bytes" where
  "name_of s n = range_of (expression s) (fst n) (snd n)"

definition variable :: "'v variables \<Rightarrow> 'v evaluator \<Rightarrow> name_range \<Rightarrow> arith_error + i64" where
  "variable ops s n =
     (if noeval s \<noteq> 0 then Inr 0
      else case v_get ops (vars s) (name_of s n) of
             Some value \<Rightarrow> arith_constant value
           | None \<Rightarrow> Inr 0)"

definition assign :: "'v variables \<Rightarrow> name_range \<Rightarrow> i64 \<Rightarrow> 'v evaluator \<Rightarrow> 'v evaluator" where
  "assign ops n value s =
     (if noeval s = 0 then s\<lparr>vars := v_set ops (vars s) (name_of s n) value\<rparr> else s)"

definition strlong :: "'v evaluator \<Rightarrow> nat \<Rightarrow> arith_error + i64" where
  "strlong s stop =
     (case parse_number (range_of (expression s) (tp s) stop) of
        Inr value \<Rightarrow> Inr value
      | Inl message \<Rightarrow> Inl (error_before s stop message))"

section \<open>Tokens\<close>

text \<open>The operator that starts with \<open>c\<close>, where \<open>cp\<close> is already past it, and the position after it.\<close>

definition one_char_token :: "byte \<Rightarrow> tok option" where
  "one_char_token c =
     (if c = CHR ''='' then Some TkEq else if c = CHR ''>'' then Some TkGt
      else if c = CHR ''<'' then Some TkLt else if c = CHR ''+'' then Some TkPlus
      else if c = CHR ''-'' then Some TkMinus else if c = CHR ''*'' then Some TkMul
      else if c = CHR ''/'' then Some TkDiv else if c = CHR ''%'' then Some TkMod
      else if c = CHR ''!'' then Some TkNot else if c = CHR ''('' then Some TkLPar
      else if c = CHR '')'' then Some TkRPar else if c = CHR ''&'' then Some TkBAnd
      else if c = CHR ''|'' then Some TkBOr else if c = CHR ''^'' then Some TkBXor
      else if c = CHR ''~'' then Some TkBNot else if c = CHR ''?'' then Some TkQues
      else if c = CHR '':'' then Some TkCol else if c = CHR '','' then Some TkComma else None)"

definition operator_token :: "'v evaluator \<Rightarrow> byte \<Rightarrow> nat \<Rightarrow> bytes + tok \<times> nat" where
  "operator_token s c cp =
     (let e = expression s;
          c1 = get e cp;
          cp = cp + 1;
          sign = (c = CHR ''-'' \<or> c = CHR ''+'')
      in if c = CHR ''='' \<and> c1 = Some (CHR ''='') then Inr (TkEqEq, cp)
         else if c = CHR ''!'' \<and> c1 = Some (CHR ''='') then Inr (TkNeq, cp)
         else if c = CHR ''>'' \<and> c1 = Some (CHR ''='') then Inr (TkGeq, cp)
         else if c = CHR ''<'' \<and> c1 = Some (CHR ''='') then Inr (TkLeq, cp)
         else if c = CHR ''<'' \<and> c1 = Some (CHR ''<'') then
           (if get e cp = Some (CHR ''='') then Inr (TkOpAssign ALsh, cp + 1) else Inr (TkLsh, cp))
         else if c = CHR ''>'' \<and> c1 = Some (CHR ''>'') then
           (if get e cp = Some (CHR ''='') then Inr (TkOpAssign ARsh, cp + 1) else Inr (TkRsh, cp))
         else if c = CHR ''&'' \<and> c1 = Some (CHR ''&'') then Inr (TkLAnd, cp)
         else if c = CHR ''|'' \<and> c1 = Some (CHR ''|'') then Inr (TkLOr, cp)
         else if c = CHR ''*'' \<and> c1 = Some (CHR ''*'') then Inr (TkPower, cp)
         else if sign \<and> c1 = Some c \<and> curtok s = TkStr then
           Inr (if c = CHR ''-'' then TkPostDec else TkPostInc, cp)
         else if sign \<and> c1 = Some c \<and> curtok s = TkNum \<and> (lasttok s = TkPreInc \<or> lasttok s = TkPreDec) then
           Inl (if c = CHR ''-'' then ''--: assignment requires lvalue'' else ''++: assignment requires lvalue'')
         else if sign \<and> c1 = Some c then
           (let xp = skip_while is_blank e cp
            in if (case get e xp of Some next \<Rightarrow> is_name_start next | None \<Rightarrow> False)
               then Inr (if c = CHR ''-'' then TkPreDec else TkPreInc, cp)
               else Inr (if c = CHR ''-'' then TkMinus else TkPlus, cp - 1))
         else (case (if c1 = Some (CHR ''='') then from_byte c else None) of
             Some op \<Rightarrow> Inr (TkOpAssign op, cp)
           | None \<Rightarrow>
               (case one_char_token c of
                  Some t \<Rightarrow> Inr (t, cp - 1)
                | None \<Rightarrow> Inl (if curtok s = TkNum \<or> curtok s = TkStr
                    then ''syntax error: invalid arithmetic operator''
                    else ''syntax error: operand expected''))))"

lemma name_start_char: "is_name_start c \<Longrightarrow> is_name_char c"
  by (auto simp: is_name_start_def is_name_char_def is_ascii_alphanumeric_def)

lemma skip_while_more: "i < length xs \<Longrightarrow> p (xs ! i) \<Longrightarrow> i < skip_while p xs i"
  using skip_while_ge [of "Suc i" p xs] by (simp add: skip_while_step [of p xs i] Suc_le_eq del: skip_while_ge)

text \<open>The run of names that a token read ahead goes past, up to what is not a name.\<close>

function skip_names :: "bytes \<Rightarrow> nat \<Rightarrow> nat" where
  "skip_names e cp =
     (let cp = skip_while is_blank e cp
      in if \<not> (case get e cp of Some next \<Rightarrow> is_name_start next | None \<Rightarrow> False) then cp
         else skip_names e (skip_while is_name_char e cp))"
  by pat_completeness auto

termination
proof (relation "measure (\<lambda>(e, cp). length e - cp)", simp)
  fix e :: bytes and cp x
  assume x: "x = skip_while is_blank e cp"
    and "\<not> \<not> (case get e x of None \<Rightarrow> False | Some next \<Rightarrow> is_name_start next)"
  then have "x < length e" "is_name_char (e ! x)"
    by (auto simp: get_def name_start_char split: if_splits)
  then show "((e, skip_while is_name_char e x), e, cp) \<in> measure (\<lambda>(e, cp). length e - cp)"
    using skip_while_more [of x e is_name_char] skip_while_ge [of cp is_blank e] by (simp add: x del: skip_while_ge)
qed

declare skip_names.simps [simp del]

lemma skip_names_ge: "cp \<le> skip_names e cp"
proof (induction e cp rule: skip_names.induct)
  case (1 e cp)
  let ?x = "skip_while is_blank e cp"
  show ?case
  proof (cases "case get e ?x of Some next \<Rightarrow> is_name_start next | None \<Rightarrow> False")
    case True
    then have "skip_while is_name_char e ?x \<le> skip_names e (skip_while is_name_char e ?x)" using 1 by simp
    moreover have "cp \<le> ?x" "?x \<le> skip_while is_name_char e ?x" by (simp_all add: skip_while_ge)
    ultimately have "cp \<le> skip_names e (skip_while is_name_char e ?x)" by linarith
    then show ?thesis using True by (subst skip_names.simps) (simp add: Let_def)
  qed (subst skip_names.simps, simp)
qed

lemma name_end: "i < length e \<Longrightarrow> i < skip_while p e (i + 1)"
  using skip_while_ge [of "i + 1" p e] by (simp del: skip_while_ge)

text \<open>\<^verbatim>\<open>readtok\<close> and \<^verbatim>\<open>readtok_ahead\<close>.\<close>

function (sequential) readtok :: "'v variables \<Rightarrow> 'v evaluator \<Rightarrow> 'v unit_outcome"
  and readtok_ahead :: "'v variables \<Rightarrow> 'v evaluator \<Rightarrow> 'v unit_outcome" where
  "readtok ops s =
     (let e = expression s;
          cp = skip_while is_blank e (tp s)
      in case get e cp of
           None \<Rightarrow> (Inr (), s\<lparr>lasttok := curtok s, curtok := TkEnd, tp := cp\<rparr>)
         | Some c \<Rightarrow>
             (let s = s\<lparr>tp := cp, lasttp := cp\<rparr>;
                  start = cp;
                  cp = cp + 1
              in if is_name_start c then
                   (let cp = skip_while is_name_char e cp
                    in if peeking s then
                         (case readtok ops (s\<lparr>tp := skip_names e cp, curtok := TkStr\<rparr>) of
                            (Inl err, s) \<Rightarrow> (Inl err, s)
                          | (Inr u, s) \<Rightarrow> (Inr (), s\<lparr>curtok := TkStr\<rparr>))
                       else
                         (let saved = save s
                          in case readtok_ahead ops (s\<lparr>tp := cp, curtok := TkStr\<rparr>) of
                               (result, s) \<Rightarrow>
                                 (let peektok = curtok s; s = restore saved s
                                  in case result of
                                       Inl err \<Rightarrow> (Inl err, s)
                                     | Inr u \<Rightarrow>
                                         (let s = s\<lparr>tokstr := Some (start, cp)\<rparr>
                                          in case (if lasttok s = TkPreInc \<or> lasttok s = TkPreDec \<or> peektok \<noteq> TkEq
                                                   then variable ops s (start, cp) else Inr 0) of
                                               Inl err \<Rightarrow> (Inl err, s)
                                             | Inr value \<Rightarrow>
                                                 (Inr (), s\<lparr>tokval := value, lasttok := curtok s,
                                                    curtok := TkStr, tp := cp\<rparr>)))))
                 else if is_ascii_digit c then
                   (let cp = skip_while is_number_char e cp
                    in case strlong s cp of
                         Inl err \<Rightarrow> (Inl err, s)
                       | Inr value \<Rightarrow>
                           (Inr (), s\<lparr>tokval := value, lasttok := curtok s, curtok := TkNum, tp := cp\<rparr>))
                 else
                   (case operator_token s c cp of
                      Inl message \<Rightarrow> (Inl (arith_err s message), s)
                    | Inr (token, cp) \<Rightarrow> (Inr (), s\<lparr>lasttok := curtok s, curtok := token, tp := cp\<rparr>))))"
| "readtok_ahead ops s =
     (case readtok ops (s\<lparr>peeking := True\<rparr>) of (result, s) \<Rightarrow> (result, s\<lparr>peeking := False\<rparr>))"
  by pat_completeness auto

termination
proof (relation "measure (\<lambda>x. case x of
    Inl (ops, s) \<Rightarrow> 2 * (length (expression s) - tp s)
  | Inr (ops, s) \<Rightarrow> 2 * (length (expression s) - tp s) + 1)", goal_cases)
  case (2 ops s e cp c s' start cp' cp'')
  then have i: "cp < length e" by (simp add: get_def split: if_splits)
  have "cp < skip_names e cp''" "tp s \<le> cp"
    using 2 name_end [OF i, of is_name_char] skip_names_ge [of cp'' e] by simp_all
  then have "length e - skip_names e cp'' < length e - tp s" using i by linarith
  then show ?case using 2 by simp
next
  case (3 ops s e cp c s' start cp' cp'' saved)
  then have i: "cp < length e" by (simp add: get_def split: if_splits)
  have "cp < cp''" "tp s \<le> cp"
    using 3 name_end [OF i, of is_name_char] by simp_all
  then have "length e - cp'' < length e - tp s" using i by linarith
  then show ?case using 3 by simp
qed simp_all

declare readtok.simps [simp del] readtok_ahead.simps [simp del]

section \<open>The rules of the grammar\<close>

type_synonym 'v parser = "'v evaluator \<Rightarrow> 'v outcome option"

text \<open>\<^verbatim>\<open>?\<close> after a rule, after \<^verbatim>\<open>readtok\<close> and after \<^verbatim>\<open>enter\<close>.\<close>

definition and_then :: "'v outcome option \<Rightarrow> (i64 \<Rightarrow> 'v parser) \<Rightarrow> 'v outcome option" where
  "and_then r f =
     (case r of None \<Rightarrow> None | Some (Inl err, s) \<Rightarrow> Some (Inl err, s) | Some (Inr value, s) \<Rightarrow> f value s)"

definition then_do :: "'v unit_outcome \<Rightarrow> 'v parser \<Rightarrow> 'v outcome option" where
  "then_do r f = (case r of (Inl err, s) \<Rightarrow> Some (Inl err, s) | (Inr u, s) \<Rightarrow> f s)"

definition ok :: "i64 \<Rightarrow> 'v parser" where
  "ok value s = Some (Inr value, s)"

definition fail :: "bytes \<Rightarrow> 'v parser" where
  "fail message s = Some (Inl (arith_err s message), s)"

text \<open>The rules that are called from an inner rule.\<close>

datatype level = Comma | Assign | Cond | Power | Unary

definition of_bool_i64 :: "bool \<Rightarrow> i64" where
  "of_bool_i64 b = (if b then 1 else 0)"

definition expprimary ::
  "'v variables \<Rightarrow> ('v evaluator \<Rightarrow> bool) \<Rightarrow> (level \<Rightarrow> 'v parser) \<Rightarrow> 'v parser" where
  "expprimary ops safe rec s =
     (case curtok s of
        TkLPar \<Rightarrow>
          then_do (readtok ops s) (\<lambda>s. then_do (enter safe s) (\<lambda>s.
            and_then (rec Comma s) (\<lambda>value s.
              let s = leave s
              in if curtok s \<noteq> TkRPar then fail (''missing `)'' @ [CHR 0x27]) s
                 else then_do (readtok ops s) (ok value))))
      | TkNum \<Rightarrow> (let value = tokval s in then_do (readtok ops s) (ok value))
      | TkStr \<Rightarrow>
          (let value = tokval s; name = tokstr s; saved = save s
           in then_do (readtok_ahead ops s) (\<lambda>s.
                let op = curtok s;
                    s = (case name of
                           Some name \<Rightarrow>
                             if op = TkPostInc \<or> op = TkPostDec then
                               (assign ops name (value + (if op = TkPostInc then 1 else - 1))
                                  (s\<lparr>tokstr := Some name, lasttok := TkStr\<rparr>))\<lparr>curtok := TkNum\<rparr>
                             else restore saved s
                         | None \<Rightarrow> restore saved s)
                in then_do (readtok ops s) (ok value)))
      | op \<Rightarrow>
          if op = TkPreInc \<or> op = TkPreDec then
            then_do (readtok ops (s\<lparr>lasttok := op\<rparr>)) (\<lambda>s.
              case (if curtok s = TkStr then tokstr s else None) of
                None \<Rightarrow> fail ''identifier expected after pre-increment or pre-decrement'' s
              | Some name \<Rightarrow>
                  (let value = tokval s + (if op = TkPreInc then 1 else - 1)
                   in then_do (readtok ops ((assign ops name value s)\<lparr>curtok := TkNum\<rparr>)) (ok value)))
          else fail ''syntax error: operand expected'' s)"

definition expunary ::
  "'v variables \<Rightarrow> ('v evaluator \<Rightarrow> bool) \<Rightarrow> (level \<Rightarrow> 'v parser) \<Rightarrow> 'v parser" where
  "expunary ops safe rec s =
     (let op = curtok s
      in if op \<notin> {TkNot, TkBNot, TkMinus, TkPlus} then expprimary ops safe rec s
         else then_do (readtok ops s) (\<lambda>s. then_do (enter safe s) (\<lambda>s.
                and_then (rec Unary s) (\<lambda>value s.
                  ok (case op of TkNot \<Rightarrow> of_bool_i64 (value = 0) | TkBNot \<Rightarrow> NOT value
                        | TkMinus \<Rightarrow> - value | _ \<Rightarrow> value)
                     ((leave s)\<lparr>lasttok := TkNum\<rparr>)))))"

fun exppower_loop ::
  "'v variables \<Rightarrow> ('v evaluator \<Rightarrow> bool) \<Rightarrow> (level \<Rightarrow> 'v parser) \<Rightarrow> nat \<Rightarrow> i64 \<Rightarrow> 'v parser" where
  "exppower_loop ops safe rec 0 val1 s = None"
| "exppower_loop ops safe rec (Suc n) val1 s =
     (if curtok s \<noteq> TkPower then ok val1 s
      else then_do (readtok ops s) (\<lambda>s. then_do (enter safe s) (\<lambda>s.
             and_then (rec Power s) (\<lambda>val2 s.
               let s = (leave s)\<lparr>lasttok := TkNum\<rparr>
               in if val2 = 0 then ok 1 s
                  else if sint val2 < 0 then fail ''exponent less than 0'' s
                  else (case arith_power val1 val2 of
                          None \<Rightarrow> None
                        | Some value \<Rightarrow> exppower_loop ops safe rec n value s)))))"

definition exppower where
  "exppower ops safe rec n s = and_then (expunary ops safe rec s) (exppower_loop ops safe rec n)"

text \<open>\<open>operand\<close> is \<^verbatim>\<open>exppower\<close>.\<close>

fun expmuldiv_loop :: "'v variables \<Rightarrow> 'v parser \<Rightarrow> nat \<Rightarrow> i64 \<Rightarrow> 'v parser" where
  "expmuldiv_loop ops operand 0 val1 s = None"
| "expmuldiv_loop ops operand (Suc n) val1 s =
     (let op = curtok s
      in if op \<notin> {TkMul, TkDiv, TkMod} then ok val1 s
         else
           (let after_operator = tp s
            in then_do (readtok ops s) (\<lambda>s. and_then (operand s) (\<lambda>val2 s.
                 if op \<noteq> TkMul \<and> val2 = 0 \<and> noeval s = 0 then
                   (let s = s\<lparr>lasttp := skip_while (\<lambda>c. c = CHR '' '' \<or> c = CHR 0x09) (expression s) after_operator\<rparr>
                    in fail ''division by 0'' s)
                 else
                   (let val2 = (if op \<noteq> TkMul \<and> val2 = 0 then 1 else val2);
                        val1 = (case op of TkMul \<Rightarrow> val1 * val2 | TkDiv \<Rightarrow> divide val1 val2
                                  | _ \<Rightarrow> remainder val1 val2)
                    in expmuldiv_loop ops operand n val1 (s\<lparr>lasttok := TkNum\<rparr>))))))"

definition expmuldiv where
  "expmuldiv ops safe rec n s =
     and_then (exppower ops safe rec n s) (expmuldiv_loop ops (exppower ops safe rec n) n)"

text \<open>The loop the next seven rules share: while the token is one of theirs, read on, take another
  operand and apply the operator.\<close>

fun binary_loop ::
  "'v variables \<Rightarrow> tok set \<Rightarrow> (tok \<Rightarrow> i64 \<Rightarrow> i64 \<Rightarrow> i64) \<Rightarrow> 'v parser \<Rightarrow> nat \<Rightarrow> i64 \<Rightarrow> 'v parser" where
  "binary_loop ops toks apply operand 0 val1 s = None"
| "binary_loop ops toks apply operand (Suc n) val1 s =
     (let op = curtok s
      in if op \<notin> toks then ok val1 s
         else then_do (readtok ops s) (\<lambda>s. and_then (operand s) (\<lambda>val2 s.
                binary_loop ops toks apply operand n (apply op val1 val2) (s\<lparr>lasttok := TkNum\<rparr>))))"

definition expadd where
  "expadd ops safe rec n s =
     and_then (expmuldiv ops safe rec n s)
       (binary_loop ops {TkPlus, TkMinus} (\<lambda>op val1 val2. if op = TkPlus then val1 + val2 else val1 - val2)
          (expmuldiv ops safe rec n) n)"

definition expshift where
  "expshift ops safe rec n s =
     and_then (expadd ops safe rec n s)
       (binary_loop ops {TkLsh, TkRsh}
          (\<lambda>op val1 val2. if op = TkLsh then shift_left val1 val2 else shift_right val1 val2)
          (expadd ops safe rec n) n)"

definition expcompare where
  "expcompare ops safe rec n s =
     and_then (expshift ops safe rec n s)
       (binary_loop ops {TkLeq, TkGeq, TkLt, TkGt}
          (\<lambda>op val1 val2. of_bool_i64
             (case op of TkLeq \<Rightarrow> sint val1 \<le> sint val2 | TkGeq \<Rightarrow> sint val1 \<ge> sint val2
                | TkLt \<Rightarrow> sint val1 < sint val2 | _ \<Rightarrow> sint val1 > sint val2))
          (expshift ops safe rec n) n)"

definition expequal where
  "expequal ops safe rec n s =
     and_then (expcompare ops safe rec n s)
       (binary_loop ops {TkEqEq, TkNeq}
          (\<lambda>op val1 val2. of_bool_i64 (if op = TkEqEq then val1 = val2 else val1 \<noteq> val2))
          (expcompare ops safe rec n) n)"

definition expband where
  "expband ops safe rec n s =
     and_then (expequal ops safe rec n s)
       (binary_loop ops {TkBAnd} (\<lambda>op val1 val2. val1 AND val2) (expequal ops safe rec n) n)"

definition expbxor where
  "expbxor ops safe rec n s =
     and_then (expband ops safe rec n s)
       (binary_loop ops {TkBXor} (\<lambda>op val1 val2. val1 XOR val2) (expband ops safe rec n) n)"

definition expbor where
  "expbor ops safe rec n s =
     and_then (expbxor ops safe rec n s)
       (binary_loop ops {TkBOr} (\<lambda>op val1 val2. val1 OR val2) (expbxor ops safe rec n) n)"

text \<open>\<open>operand\<close> is \<^verbatim>\<open>expbor\<close>, and \<^verbatim>\<open>expland\<close> in the second loop.\<close>

fun expland_loop :: "'v variables \<Rightarrow> 'v parser \<Rightarrow> nat \<Rightarrow> i64 \<Rightarrow> 'v parser" where
  "expland_loop ops operand 0 val1 s = None"
| "expland_loop ops operand (Suc n) val1 s =
     (if curtok s \<noteq> TkLAnd then ok val1 s
      else
        (let skip = (val1 = 0);
             s = (if skip then s\<lparr>noeval := noeval s + 1\<rparr> else s)
         in then_do (readtok ops s) (\<lambda>s. and_then (operand s) (\<lambda>val2 s.
              let s = (if skip then s\<lparr>noeval := noeval s - 1\<rparr> else s)
              in expland_loop ops operand n (of_bool_i64 (val1 \<noteq> 0 \<and> val2 \<noteq> 0)) (s\<lparr>lasttok := TkLAnd\<rparr>)))))"

definition expland where
  "expland ops safe rec n s = and_then (expbor ops safe rec n s) (expland_loop ops (expbor ops safe rec n) n)"

fun explor_loop :: "'v variables \<Rightarrow> 'v parser \<Rightarrow> nat \<Rightarrow> i64 \<Rightarrow> 'v parser" where
  "explor_loop ops operand 0 val1 s = None"
| "explor_loop ops operand (Suc n) val1 s =
     (if curtok s \<noteq> TkLOr then ok val1 s
      else
        (let skip = (val1 \<noteq> 0);
             s = (if skip then s\<lparr>noeval := noeval s + 1\<rparr> else s)
         in then_do (readtok ops s) (\<lambda>s. and_then (operand s) (\<lambda>val2 s.
              let s = (if skip then s\<lparr>noeval := noeval s - 1\<rparr> else s)
              in explor_loop ops operand n (of_bool_i64 (val1 \<noteq> 0 \<or> val2 \<noteq> 0)) (s\<lparr>lasttok := TkLOr\<rparr>)))))"

definition explor where
  "explor ops safe rec n s = and_then (expland ops safe rec n s) (explor_loop ops (expland ops safe rec n) n)"

definition expcond where
  "expcond ops safe rec n s =
     and_then (explor ops safe rec n s) (\<lambda>condition s.
       if curtok s \<noteq> TkQues then ok condition s
       else then_do (enter safe s) (\<lambda>s.
         let s = (if condition = 0 then s\<lparr>noeval := noeval s + 1\<rparr> else s)
         in then_do (readtok ops s) (\<lambda>s.
           if curtok s = TkEnd \<or> curtok s = TkCol then fail ''expression expected'' s
           else and_then (rec Comma s) (\<lambda>if_true s.
             let s = (if condition = 0 then s\<lparr>noeval := noeval s - 1\<rparr> else s)
             in if curtok s \<noteq> TkCol then fail (''`:'' @ [CHR 0x27] @ '' expected for conditional expression'') s
                else
                  (let s = (if condition \<noteq> 0 then s\<lparr>noeval := noeval s + 1\<rparr> else s)
                   in then_do (readtok ops s) (\<lambda>s.
                     if curtok s = TkEnd then fail ''expression expected'' s
                     else and_then (rec Cond s) (\<lambda>if_false s.
                       let s = (if condition \<noteq> 0 then s\<lparr>noeval := noeval s - 1\<rparr> else s)
                       in ok (if condition \<noteq> 0 then if_true else if_false)
                            ((leave s)\<lparr>lasttok := TkCond\<rparr>))))))))"

definition expassign where
  "expassign ops safe rec n s =
     and_then (expcond ops safe rec n s) (\<lambda>lvalue s.
       case (case curtok s of TkEq \<Rightarrow> Some None | TkOpAssign op \<Rightarrow> Some (Some op) | _ \<Rightarrow> None) of
         None \<Rightarrow> ok lvalue s
       | Some op \<Rightarrow>
           if lasttok s \<noteq> TkStr then fail ''attempted assignment to non-variable'' s
           else (case tokstr s of
               None \<Rightarrow> fail ''syntax error in variable assignment'' s
             | Some name \<Rightarrow>
                 then_do (readtok ops s) (\<lambda>s. then_do (enter safe s) (\<lambda>s.
                   and_then (rec Assign s) (\<lambda>value s.
                     let s = leave s; by_zero = ((op = Some ADiv \<or> op = Some AMod) \<and> value = 0)
                     in if by_zero \<and> noeval s = 0 then fail ''division by 0'' s
                        else
                          (let value = (case op of None \<Rightarrow> value
                             | Some op \<Rightarrow> apply_op op lvalue (if by_zero then 1 else value))
                           in ok value ((assign ops name value s)\<lparr>tokstr := None\<rparr>)))))))"

fun expcomma_loop :: "'v variables \<Rightarrow> 'v parser \<Rightarrow> nat \<Rightarrow> i64 \<Rightarrow> 'v parser" where
  "expcomma_loop ops operand 0 value s = None"
| "expcomma_loop ops operand (Suc n) value s =
     (if curtok s \<noteq> TkComma then ok value s
      else then_do (readtok ops s) (\<lambda>s. and_then (operand s) (expcomma_loop ops operand n)))"

definition expcomma where
  "expcomma ops safe rec n s =
     and_then (expassign ops safe rec n s) (expcomma_loop ops (expassign ops safe rec n) n)"

text \<open>The knot: one unit of fuel for each recursion to an outer rule and each round of a loop.\<close>

fun expr :: "'v variables \<Rightarrow> ('v evaluator \<Rightarrow> bool) \<Rightarrow> nat \<Rightarrow> level \<Rightarrow> 'v parser" where
  "expr ops safe 0 = (\<lambda>l s. None)"
| "expr ops safe (Suc n) = (\<lambda>l s.
     case l of
       Comma \<Rightarrow> expcomma ops safe (expr ops safe n) n s
     | Assign \<Rightarrow> expassign ops safe (expr ops safe n) n s
     | Cond \<Rightarrow> expcond ops safe (expr ops safe n) n s
     | Power \<Rightarrow> exppower ops safe (expr ops safe n) n s
     | Unary \<Rightarrow> expunary ops safe (expr ops safe n) s)"

text \<open>\<^verbatim>\<open>Evaluator::run\<close>, with the variables after it.\<close>

definition initial_evaluator :: "bytes \<Rightarrow> 'v \<Rightarrow> 'v evaluator" where
  "initial_evaluator e v = \<lparr>expression = e, vars = v, tp = 0, lasttp = 0, curtok = TkEnd, lasttok = TkEnd,
     tokval = 0, tokstr = None, noeval = 0, peeking = False, depth = 0\<rparr>"

definition run_with ::
  "'v variables \<Rightarrow> ('v evaluator \<Rightarrow> bool) \<Rightarrow> nat \<Rightarrow> bytes \<Rightarrow> 'v \<Rightarrow> ((arith_error + i64) \<times> 'v) option" where
  "run_with ops safe fuel e v =
     (let s = initial_evaluator e v
      in if list_all is_blank e then Some (Inr 0, v)
         else map_option (\<lambda>(r, s). (r, vars s))
           (then_do (readtok ops s) (\<lambda>s. and_then (expr ops safe fuel Comma s) (\<lambda>value s.
              if curtok s \<noteq> TkEnd then fail ''syntax error in expression'' s else ok value s))))"

definition evaluate ::
  "'v variables \<Rightarrow> ('v evaluator \<Rightarrow> bool) \<Rightarrow> bytes \<Rightarrow> 'v \<Rightarrow> ((arith_error + i64) \<times> 'v) option" where
  "evaluate ops safe e v = run_with ops safe (2 * length e + 2) e v"

section \<open>The variables of a shell\<close>

text \<open>\<^verbatim>\<open>ShellVariables\<close> of \<^verbatim>\<open>src/runtime/shell/states/Expansion.rs\<close>: where \<^verbatim>\<open>$name\<close> looks, and where
  \<^verbatim>\<open>name=value\<close> goes. An \<^verbatim>\<open>EnvMap\<close> is a map from names to values (the keys of the hash map are
  compared byte by byte, except on Windows); the reference counts of its strings have no part in it.\<close>

type_synonym env_map = "bytes \<rightharpoonup> bytes"

record shell_exec_env =
  shell_env :: env_map
  cmd_local_env :: env_map
  export_env :: env_map

datatype assign_ctx = CtxCmd | CtxShell

definition env_map_insert :: "bytes \<Rightarrow> bytes \<Rightarrow> env_map \<Rightarrow> env_map" where
  "env_map_insert key val m = m(key \<mapsto> val)"

definition assign_var :: "bytes \<Rightarrow> bytes \<Rightarrow> assign_ctx \<Rightarrow> shell_exec_env \<Rightarrow> shell_exec_env" where
  "assign_var label value ctx sh =
     (case ctx of
        CtxCmd \<Rightarrow> sh\<lparr>cmd_local_env := env_map_insert label value (cmd_local_env sh)\<rparr>
      | CtxShell \<Rightarrow> sh\<lparr>shell_env := env_map_insert label value (shell_env sh)\<rparr>)"

text \<open>\<^verbatim>\<open>i64::to_string\<close>.\<close>

definition show_i64 :: "i64 \<Rightarrow> bytes" where
  "show_i64 v = (if sint v < 0 then CHR ''-'' # show_nat (nat (- sint v)) else show_nat (nat (sint v)))"

definition shell_get :: "shell_exec_env \<Rightarrow> bytes \<Rightarrow> bytes option" where
  "shell_get sh n = (case shell_env sh n of Some v \<Rightarrow> Some v | None \<Rightarrow> export_env sh n)"

definition shell_set :: "shell_exec_env \<Rightarrow> bytes \<Rightarrow> i64 \<Rightarrow> shell_exec_env" where
  "shell_set sh n v = assign_var n (show_i64 v) CtxShell sh"

definition shell_variables :: "shell_exec_env variables" where
  "shell_variables = \<lparr>v_get = shell_get, v_set = shell_set\<rparr>"

section \<open>Numbers\<close>

lemma digit_arith: "is_ascii_digit c \<Longrightarrow> arith_digit base c < 10 \<and> c \<noteq> CHR ''#'' \<and> is_number_char c \<and> \<not> is_blank c \<and> c \<noteq> CHR ''-'' \<and> c \<noteq> CHR ''+''"
  by (auto simp: arith_digit_def is_ascii_digit_def less_eq_char_def is_number_char_def is_ascii_alphanumeric_def is_blank_def)

lemma number_loop_digits:
  "list_all is_ascii_digit xs \<Longrightarrow>
    number_loop 10 found v (xs @ ys) = number_loop 10 found (foldl (\<lambda>a c. a * 10 + of_nat (arith_digit 10 c)) v xs) ys"
proof (induction xs arbitrary: v)
  case (Cons c xs)
  have "\<not> sint (10::i64) \<le> int (arith_digit 10 c)" "c \<noteq> CHR ''#''"
    using digit_arith [of c 10] Cons(2) by simp_all
  then show ?case using Cons by (simp add: Let_def)
qed simp

lemma show_nat_foldl: "foldl (\<lambda>a c. a * 10 + of_nat (arith_digit 10 c)) (0::i64) (show_nat n) = of_nat n"
proof (induction n rule: show_nat.induct)
  case (1 n)
  have d: "m < 10 \<Longrightarrow> arith_digit 10 (char_of (48 + m)) = m" for m
    by (auto simp: arith_digit_def is_ascii_digit_def less_eq_char_def)
  show ?case
  proof (cases "n < 10")
    case True
    then show ?thesis using d [of n] by (subst show_nat.simps) simp
  next
    case False
    have "of_nat (n div 10) * 10 + of_nat (n mod 10) = (of_nat (n div 10 * 10 + n mod 10) :: i64)"
      by (simp only: of_nat_add of_nat_mult of_nat_numeral)
    then show ?thesis using 1 False d [of "n mod 10"] by (subst show_nat.simps) simp
  qed
qed

lemma show_nat_head: "n \<noteq> 0 \<Longrightarrow> hd (show_nat n) \<noteq> CHR ''0''"
proof (induction n rule: show_nat.induct)
  case (1 n)
  show ?case
  proof (cases "n < 10")
    case True
    then have "(of_char (digit_char n) :: nat) = 48 + n" by (rule of_digit_char)
    moreover have "(of_char (CHR ''0'') :: nat) = 48" by simp
    ultimately have "digit_char n \<noteq> CHR ''0''" using 1(2) by (metis add_cancel_right_right)
    then show ?thesis using True by (subst show_nat.simps) simp
  next
    case False
    then show ?thesis using 1(1) by (subst show_nat.simps) (simp add: div_eq_0_iff)
  qed
qed

lemma parse_number_show: "parse_number (show_nat n) = Inr (of_nat n)"
proof (cases "n = 0")
  case True
  have "digit_char 0 = CHR ''0''" by code_simp
  then show ?thesis using True by (simp add: parse_number_def show_nat.simps get_def)
next
  case False
  have "list_all is_ascii_digit (show_nat n)" by (simp add: list_all_iff show_nat_digits)
  then have "number_loop 10 False 0 (show_nat n @ []) = Inr (of_nat n)"
    by (simp only: number_loop_digits show_nat_foldl number_loop.simps)
  moreover have "show_nat n ! 0 \<noteq> CHR ''0''" using show_nat_head [OF False] by (simp add: hd_conv_nth)
  ultimately show ?thesis by (simp add: parse_number_def)
qed

lemma arith_trim_id: "t \<noteq> [] \<Longrightarrow> \<not> is_blank (hd t) \<Longrightarrow> \<not> is_blank (last t) \<Longrightarrow> arith_trim t = t"
proof -
  assume a: "t \<noteq> []" "\<not> is_blank (hd t)" "\<not> is_blank (last t)"
  then have "dropWhile is_blank t = t" by (cases t) auto
  moreover have "dropWhile is_blank (rev t) = rev t" using a(1,3) by (cases t rule: rev_cases) auto
  ultimately show ?thesis by (simp add: arith_trim_def)
qed

lemma of_nat_nat_sint: "0 \<le> sint v \<Longrightarrow> of_nat (nat (sint v)) = (v::i64)"
  by simp

lemma constant_show: "arith_constant (show_i64 v) = Inr v" and trim_show: "arith_trim (show_i64 v) = show_i64 v"
proof -
  have digits: "is_ascii_digit (hd (show_nat n))" "is_ascii_digit (last (show_nat n))"
    "list_all is_number_char (show_nat n)" for n
    using show_nat_digits [of _ n] digit_arith by (auto simp: list_all_iff)
  have ends: "show_i64 v \<noteq> []" "\<not> is_blank (hd (show_i64 v))" "\<not> is_blank (last (show_i64 v))"
    using digits digit_arith by (auto simp: show_i64_def is_blank_def)
  show t: "arith_trim (show_i64 v) = show_i64 v" by (rule arith_trim_id [OF ends])
  show "arith_constant (show_i64 v) = Inr v"
  proof (cases "sint v < 0")
    case True
    then have "- (of_nat (nat (- sint v)) :: i64) = v" by simp
    then show ?thesis using True digits [of "nat (- sint v)"] t
      by (simp add: arith_constant_def show_i64_def parse_number_show)
  next
    case False
    obtain c rest where s: "show_nat (nat (sint v)) = c # rest" by (cases "show_nat (nat (sint v))") auto
    then have c: "is_ascii_digit c" using digits(1) [of "nat (sint v)"] by simp
    show ?thesis using False digits [of "nat (sint v)"] t s c digit_arith [OF c] parse_number_show [of "nat (sint v)"]
      by (simp add: arith_constant_def show_i64_def)
  qed
qed

section \<open>Exponentiation\<close>

lemma even_sint: "even (e::i64) \<longleftrightarrow> even (sint e)"
proof -
  have "bit e 0 \<longleftrightarrow> bit (sint e) 0" by (simp add: bit_sint_iff)
  then show ?thesis by (simp add: bit_0)
qed

lemma and_1_odd: "(e::i64) AND 1 \<noteq> 0 \<longleftrightarrow> odd (sint e)"
  by (simp add: and_one_eq odd_iff_mod_2_eq_one [symmetric] even_sint flip: even_iff_mod_2_eq_zero)

lemma nat_halve: "0 \<le> (x::int) \<Longrightarrow> nat x = 2 * nat (x div 2) + (if odd x then 1 else 0)"
  by (cases "odd x") (auto elim!: oddE evenE simp: nat_add_distrib nat_mult_distrib)

lemma power_loop_spec:
  "0 \<le> sint e \<Longrightarrow> power_loop b e r = Some (r * b ^ nat (sint e))"
proof (induction "nat (sint e)" arbitrary: b e r rule: less_induct)
  case less
  show ?case
  proof (cases "e = 0")
    case True
    then show ?thesis by (simp add: power_loop.simps)
  next
    case False
    let ?h = "signed_drop_bit 1 e :: i64"
    have h: "sint ?h = sint e div 2" by (simp add: sint_signed_drop_bit_eq drop_bit_eq_div)
    have pos: "0 < sint e" using False less(2) by (metis order_le_less signed_0 signed_word_eqI)
    have "power_loop (b * b) ?h r' = Some (r' * (b * b) ^ nat (sint e div 2))" for r'
      using less(1) [of ?h "b * b" r'] h pos by simp
    moreover have "b ^ nat (sint e) = (if odd (sint e) then b else 1) * (b * b) ^ nat (sint e div 2)"
    proof -
      have "nat (sint e) = 2 * nat (sint e div 2) + (if odd (sint e) then 1 else 0)"
        using less(2) by (rule nat_halve)
      then show ?thesis by (simp add: power_mult power2_eq_square power_add split: if_splits)
    qed
    ultimately show ?thesis using False
      by (subst power_loop.simps) (simp add: and_1_odd mult.assoc)
  qed
qed

lemma arith_power_spec: "0 \<le> sint e \<Longrightarrow> arith_power b e = Some (b ^ nat (sint e))"
  by (simp add: arith_power_def power_loop_spec)

lemma shift_count: "unat (ucast (b::i64) :: u32) mod 64 = nat (sint b mod 64)"
proof -
  have a: "unat (ucast b :: u32) = unat b mod 2 ^ 32"
    by (simp add: unsigned_ucast_eq unsigned_take_bit_eq take_bit_eq_mod)
  have "unat b mod 2 ^ 32 mod 64 = unat b mod 64"
    by (simp add: mod_mod_cancel)
  also have "\<dots> = nat (uint b mod 64)" by (simp add: nat_mod_distrib)
  also have "uint b mod 64 = sint b mod 64"
  proof -
    have "uint b = sint b mod 2 ^ 64" by (simp add: uint_sint take_bit_eq_mod)
    then show ?thesis by (simp add: mod_mod_cancel)
  qed
  finally show ?thesis using a by simp
qed

text \<open>The operators of 64-bit arithmetic: quotient and remainder fit together for every pair of operands,
  the smallest number divided by -1 included; a shift moves by its count modulo 64, to the right with
  the sign.\<close>

theorem arith_operators:
  "divide a b * b + remainder a b = a \<and>
   shift_left a b = a * 2 ^ nat (sint b mod 64) \<and>
   sint (shift_right a b) = sint a div 2 ^ nat (sint b mod 64)"
proof (intro conjI)
  have "divide a b * b + remainder a b = word_of_int (sint a sdiv sint b * sint b + sint a smod sint b)"
    by (simp add: divide_def remainder_def)
  then show "divide a b * b + remainder a b = a" by (simp only: sdiv_mult_smod_eq) simp
  show "shift_left a b = a * 2 ^ nat (sint b mod 64)"
    by (simp only: shift_left_def shift_count push_bit_eq_mult)
  show "sint (shift_right a b) = sint a div 2 ^ nat (sint b mod 64)"
    by (simp only: shift_right_def shift_count sint_signed_drop_bit_eq drop_bit_eq_div)
qed

text \<open>\<^verbatim>\<open>power\<close> is exponentiation modulo 2 to the 64: its loop ends for every exponent that is not
  negative, which is what \<^verbatim>\<open>exppower\<close> passes.\<close>

theorem arith_power_correct:
  assumes "0 \<le> sint exponent"
  shows "arith_power base exponent = Some (base ^ nat (sint exponent))"
  using assms by (rule arith_power_spec)

theorem arith_power_correct_witness: "arith_power 3 5 = Some 243"
  using arith_power_correct [of 5 3] by simp

text \<open>C31: a variable that an expression assigns reads back as the same number, the smallest one included,
  and the other variables keep their values, exported ones too.\<close>

theorem assigned_reads_back:
  "shell_get (shell_set sh n v) m = (if m = n then Some (show_i64 v) else shell_get sh m) \<and>
   arith_constant (show_i64 v) = Inr v"
  by (simp add: constant_show shell_get_def shell_set_def assign_var_def env_map_insert_def split: option.split)

end
