(* ===== verification/Shell_Arith_Run.thy ===== *)
theory Shell_Arith_Run
  imports Shell_Arith
begin

text \<open>
  The evaluator of \<^verbatim>\<open>src/shell_parser/arith.rs\<close> as a whole: reading a token moves on inside the
  expression and changes neither the variables nor the counters; every rule returns with the fuel
  it has, leaves a well-formed evaluator with the counters restored, and assigns nothing in an
  operand that is only read. The weight of an evaluator, two for each byte left and one for a token
  already read, falls with every token, which bounds the recursion and the loops.
\<close>

section \<open>Tokens\<close>

text \<open>\<^verbatim>\<open>readtok\<close>, one equation for each kind of token.\<close>

definition at_token :: "'v evaluator \<Rightarrow> nat" where
  "at_token s = skip_while is_blank (expression s) (tp s)"

lemma readtok_end:
  "get (expression s) (at_token s) = None \<Longrightarrow>
    readtok ops s = (Inr (), s\<lparr>lasttok := curtok s, curtok := TkEnd, tp := at_token s\<rparr>)"
  by (subst readtok.simps) (simp add: at_token_def)

lemma readtok_peek:
  "get (expression s) (at_token s) = Some c \<Longrightarrow> is_name_start c \<Longrightarrow> peeking s \<Longrightarrow>
    readtok ops s =
      (case readtok ops (s\<lparr>lasttp := at_token s,
          tp := skip_names (expression s) (skip_while is_name_char (expression s) (at_token s + 1)), curtok := TkStr\<rparr>) of
         (Inl err, s) \<Rightarrow> (Inl err, s) | (Inr u, s) \<Rightarrow> (Inr (), s\<lparr>curtok := TkStr\<rparr>))"
  by (subst readtok.simps) (simp add: at_token_def Let_def)

lemma readtok_name:
  assumes "get (expression s) (at_token s) = Some c" "is_name_start c" "\<not> peeking s"
    and "e = skip_while is_name_char (expression s) (at_token s + 1)"
  shows "readtok ops s =
      (case readtok_ahead ops (s\<lparr>lasttp := at_token s, tp := e, curtok := TkStr\<rparr>) of
         (result, s1) \<Rightarrow>
           (let s2 = restore (save (s\<lparr>tp := at_token s, lasttp := at_token s\<rparr>)) s1
            in case result of Inl err \<Rightarrow> (Inl err, s2)
               | Inr u \<Rightarrow>
                   (let s3 = s2\<lparr>tokstr := Some (at_token s, e)\<rparr>
                    in case (if lasttok s3 = TkPreInc \<or> lasttok s3 = TkPreDec \<or> curtok s1 \<noteq> TkEq
                             then variable ops s3 (at_token s, e) else Inr 0) of
                         Inl err \<Rightarrow> (Inl err, s3)
                       | Inr value \<Rightarrow>
                           (Inr (), s3\<lparr>tokval := value, lasttok := curtok s3, curtok := TkStr, tp := e\<rparr>))))"
  using assms by (subst readtok.simps) (simp add: at_token_def Let_def split: prod.split sum.split)

lemma name_not_digit: "is_name_start c \<Longrightarrow> \<not> is_ascii_digit c"
  by (auto simp: is_name_start_def is_ascii_alphabetic_def is_ascii_lower_def is_ascii_upper_def is_ascii_digit_def
      less_eq_char_def)

lemma readtok_number:
  assumes "get (expression s) (at_token s) = Some c" "is_ascii_digit c"
    and "e = skip_while is_number_char (expression s) (at_token s + 1)"
  shows "readtok ops s =
      (let s1 = s\<lparr>tp := at_token s, lasttp := at_token s\<rparr>
       in case strlong s1 e of
            Inl err \<Rightarrow> (Inl err, s1)
          | Inr value \<Rightarrow> (Inr (), s1\<lparr>tokval := value, lasttok := curtok s, curtok := TkNum, tp := e\<rparr>))"
  using assms name_not_digit [of c] by (subst readtok.simps) (auto simp: at_token_def Let_def split: sum.split)

lemma readtok_operator:
  assumes "get (expression s) (at_token s) = Some c" "\<not> is_ascii_digit c" "\<not> is_name_start c"
  shows "readtok ops s =
      (let s1 = s\<lparr>tp := at_token s, lasttp := at_token s\<rparr>
       in case operator_token s1 c (at_token s + 1) of
            Inl message \<Rightarrow> (Inl (arith_err s1 message), s1)
          | Inr (token, cp) \<Rightarrow> (Inr (), s1\<lparr>lasttok := curtok s, curtok := token, tp := cp\<rparr>))"
  using assms by (subst readtok.simps) (simp add: at_token_def Let_def split: prod.split sum.split)

lemma readtok_cases:
  obtains (End) "get (expression s) (at_token s) = None"
  | (Peek) c where "get (expression s) (at_token s) = Some c" "is_name_start c" "peeking s"
  | (Name) c where "get (expression s) (at_token s) = Some c" "is_name_start c" "\<not> peeking s"
  | (Number) c where "get (expression s) (at_token s) = Some c" "is_ascii_digit c"
  | (Operator) c where "get (expression s) (at_token s) = Some c" "\<not> is_ascii_digit c" "\<not> is_name_start c"
  by (cases "get (expression s) (at_token s)") auto

text \<open>What reading a token leaves alone.\<close>

definition framed :: "'v evaluator \<Rightarrow> 'v evaluator \<Rightarrow> bool" where
  "framed s s' \<longleftrightarrow> expression s' = expression s \<and> vars s' = vars s \<and> noeval s' = noeval s \<and> depth s' = depth s"

lemma restore_simps [simp]:
  "expression (restore sv s) = expression s" "vars (restore sv s) = vars s" "noeval (restore sv s) = noeval s"
  "depth (restore sv s) = depth s" "peeking (restore sv s) = peeking s" "tp (restore sv s) = s_tp sv"
  "lasttp (restore sv s) = s_lasttp sv" "curtok (restore sv s) = s_curtok sv" "lasttok (restore sv s) = s_lasttok sv"
  "tokval (restore sv s) = s_tokval sv" "tokstr (restore sv s) = s_tokstr sv"
  by (simp_all add: restore_def)

lemma save_simps [simp]:
  "s_tp (save s) = tp s" "s_lasttp (save s) = lasttp s" "s_curtok (save s) = curtok s" "s_lasttok (save s) = lasttok s"
  "s_tokval (save s) = tokval s" "s_tokstr (save s) = tokstr s"
  by (simp_all add: save_def)

lemma at_token_ge [simp]: "tp s \<le> at_token s"
  by (simp add: at_token_def)

lemma one_char_not: "one_char_token c = Some t \<Longrightarrow> t \<notin> {TkEnd, TkNum, TkStr}"
  by (simp add: one_char_token_def split: if_splits)

lemma get_Some_le: "get e cp = Some c \<Longrightarrow> cp + 1 \<le> length e"
  by (simp add: get_def split: if_splits)

lemma if_rule: "(b \<Longrightarrow> P x) \<Longrightarrow> P y \<Longrightarrow> P (if b then x else y)"
  by simp

definition token_within :: "nat \<Rightarrow> nat \<Rightarrow> bytes + tok \<times> nat \<Rightarrow> bool" where
  "token_within cp n r \<longleftrightarrow> (\<forall>t cp'. r = Inr (t, cp') \<longrightarrow> cp \<le> cp' \<and> cp' \<le> n \<and> t \<notin> {TkEnd, TkNum, TkStr})"

lemma token_within_Inr [simp]: "token_within cp n (Inr (t, cp')) \<longleftrightarrow> cp \<le> cp' \<and> cp' \<le> n \<and> t \<notin> {TkEnd, TkNum, TkStr}"
  and token_within_Inl [simp]: "token_within cp n (Inl m)"
  by (simp_all add: token_within_def)

lemma operator_token_within:
  assumes "cp \<le> length (expression s)"
  shows "token_within cp (length (expression s)) (operator_token s c cp)"
proof -
  let ?e = "expression s"
  have two: "token_within cp (length ?e) (Inr (t, cp + 1))" if "get ?e cp = Some d" "t \<notin> {TkEnd, TkNum, TkStr}" for d t
    using get_Some_le [OF that(1)] that(2) by simp
  have three: "token_within cp (length ?e) (Inr (t, cp + 1 + 1))" if "get ?e (cp + 1) = Some d" "t \<notin> {TkEnd, TkNum, TkStr}" for d t
    using get_Some_le [OF that(1)] that(2) by simp
  have one: "token_within cp (length ?e) (Inr (t, cp + 1 - 1))" if "t \<notin> {TkEnd, TkNum, TkStr}" for t
    using assms that by simp
  have last: "token_within cp (length ?e)
      (case if get ?e cp = Some (CHR ''='') then from_byte c else None of
         Some op \<Rightarrow> Inr (TkOpAssign op, cp + 1)
       | None \<Rightarrow> (case one_char_token c of Some t \<Rightarrow> Inr (t, cp + 1 - 1) | None \<Rightarrow> Inl m))" for m
    using one one_char_not [of c] two [of "CHR ''=''"] by (auto split: option.split)
  note w = if_rule [of _ "token_within cp (length ?e)"]
  show ?thesis
    unfolding operator_token_def Let_def
    by (rule w, elim conjE, erule two, simp)+
      (rule w, rule w, erule three, simp, elim conjE, erule two, simp,
        rule w, rule w, erule three, simp, elim conjE, erule two, simp,
        (rule w, elim conjE, erule two, simp)+,
        rule w, simp, rule w, rule w, elim conjE, erule two, simp, rule one, simp, rule last)
qed

lemma skip_names_le: "cp \<le> length e \<Longrightarrow> skip_names e cp \<le> length e"
proof (induction e cp rule: skip_names.induct)
  case (1 e cp)
  let ?x = "skip_while is_blank e cp"
  have x: "?x \<le> length e" using 1(2) by (simp add: skip_while_le)
  show ?case
  proof (cases "case get e ?x of Some next \<Rightarrow> is_name_start next | None \<Rightarrow> False")
    case True
    then have "skip_names e (skip_while is_name_char e ?x) \<le> length e"
      using 1(1) x by (simp add: skip_while_le)
    then show ?thesis using True by (subst skip_names.simps) (simp add: Let_def)
  next
    case False
    then show ?thesis using x by (subst skip_names.simps) (simp add: Let_def)
  qed
qed

definition in_text :: "'v evaluator \<Rightarrow> bool" where
  "in_text s \<longleftrightarrow> tp s \<le> length (expression s) \<and> lasttp s \<le> length (expression s) \<and>
     (\<forall>a b. tokstr s = Some (a, b) \<longrightarrow> a \<le> b \<and> b \<le> length (expression s))"

text \<open>Reading a token moves on inside the text and leaves the variables and the counters alone.\<close>

definition token_read :: "'v evaluator \<Rightarrow> 'v unit_outcome \<Rightarrow> bool" where
  "token_read s o' \<longleftrightarrow> framed s (snd o') \<and> peeking (snd o') = peeking s \<and> in_text (snd o') \<and>
     (\<forall>u. fst o' = Inr u \<longrightarrow> tp s \<le> tp (snd o') \<and> (curtok (snd o') \<noteq> TkEnd \<longrightarrow> tp s < tp (snd o')))"

lemma at_token_in:
  assumes "get (expression s) (at_token s) = Some c"
  shows "at_token s < length (expression s)" "tp s < at_token s + 1"
proof -
  show "at_token s < length (expression s)" using assms by (simp add: get_def split: if_splits)
  show "tp s < at_token s + 1" using at_token_ge [of s] by linarith
qed

lemma at_token_skip:
  assumes "get (expression s) (at_token s) = Some c"
  shows "tp s < skip_while p (expression s) (at_token s + 1)"
    "at_token s \<le> skip_while p (expression s) (at_token s + 1)"
    "skip_while p (expression s) (at_token s + 1) \<le> length (expression s)"
proof -
  have i: "at_token s < length (expression s)" by (rule at_token_in(1) [OF assms])
  have "tp s \<le> at_token s" by simp
  moreover have "at_token s < skip_while p (expression s) (at_token s + 1)" by (rule name_end [OF i])
  ultimately show "tp s < skip_while p (expression s) (at_token s + 1)"
    "at_token s \<le> skip_while p (expression s) (at_token s + 1)" by linarith+
  show "skip_while p (expression s) (at_token s + 1) \<le> length (expression s)"
    using i by (intro skip_while_le) simp
qed

lemma readtok_end_read: "in_text s \<Longrightarrow> get (expression s) (at_token s) = None \<Longrightarrow> token_read s (readtok ops s)"
  by (simp add: readtok_end token_read_def in_text_def framed_def at_token_def skip_while_le)

lemma readtok_number_read:
  assumes "in_text s" "get (expression s) (at_token s) = Some c" "is_ascii_digit c"
  shows "token_read s (readtok ops s)"
  unfolding readtok_number [OF assms(2,3) refl]
  using assms(1) at_token_in(1) [OF assms(2)] at_token_skip [OF assms(2), of is_number_char]
  by (auto simp: Let_def token_read_def in_text_def framed_def split: sum.split)

lemma readtok_operator_read:
  assumes "in_text s" "get (expression s) (at_token s) = Some c" "\<not> is_ascii_digit c" "\<not> is_name_start c"
  shows "token_read s (readtok ops s)"
proof -
  have "token_within (at_token s + 1) (length (expression s)) (operator_token (s\<lparr>tp := at_token s, lasttp := at_token s\<rparr>) c (at_token s + 1))"
    using operator_token_within [of "at_token s + 1" "s\<lparr>tp := at_token s, lasttp := at_token s\<rparr>" c] at_token_in(1) [OF assms(2)] by simp
  then show ?thesis
    unfolding readtok_operator [OF assms(2-4)]
    using assms(1) at_token_in(1,2) [OF assms(2)]
    by (fastforce simp: Let_def token_read_def in_text_def framed_def token_within_def split: sum.split prod.split)
qed

lemma readtok_peeking_read: "peeking s \<Longrightarrow> in_text s \<Longrightarrow> token_read s (readtok ops s)"
proof (induction "length (expression s) - tp s" arbitrary: s rule: less_induct)
  case less
  show ?case
  proof (cases rule: readtok_cases [of s])
    case (Peek c)
    let ?e = "skip_names (expression s) (skip_while is_name_char (expression s) (at_token s + 1))"
    let ?s = "s\<lparr>lasttp := at_token s, tp := ?e, curtok := TkStr\<rparr>"
    note i = at_token_skip [OF Peek(1), of is_name_char] and j = at_token_in(1) [OF Peek(1)]
    have e: "tp s < ?e" "?e \<le> length (expression s)"
      using i(1) skip_names_ge [of "skip_while is_name_char (expression s) (at_token s + 1)" "expression s"]
        skip_names_le [OF i(3)] by linarith+
    have "token_read ?s (readtok ops ?s)"
      by (rule less(1)) (use e j less(2,3) in \<open>auto simp: in_text_def\<close>)
    then show ?thesis unfolding readtok_peek [OF Peek] using e
      by (auto simp: token_read_def framed_def in_text_def split: prod.split sum.split)
  qed (use less readtok_end_read readtok_number_read readtok_operator_read in auto)
qed

lemma readtok_ahead_read:
  assumes "\<not> peeking s" "in_text s"
  shows "token_read s (readtok_ahead ops s)"
proof -
  obtain r t where rt: "readtok ops (s\<lparr>peeking := True\<rparr>) = (r, t)" by fastforce
  have "in_text (s\<lparr>peeking := True\<rparr>)" using assms(2) by (simp add: in_text_def)
  then have "token_read (s\<lparr>peeking := True\<rparr>) (r, t)"
    using readtok_peeking_read [of "s\<lparr>peeking := True\<rparr>" ops] by (simp add: rt)
  moreover have "readtok_ahead ops s = (r, t\<lparr>peeking := False\<rparr>)" by (simp add: readtok_ahead.simps rt)
  ultimately show ?thesis using assms(1) by (auto simp: token_read_def framed_def in_text_def)
qed

lemma readtok_read:
  assumes "in_text s"
  shows "token_read s (readtok ops s)"
proof (cases rule: readtok_cases [of s])
  case (Name c)
  let ?e = "skip_while is_name_char (expression s) (at_token s + 1)"
  let ?s = "s\<lparr>lasttp := at_token s, tp := ?e, curtok := TkStr\<rparr>"
  note i = at_token_skip [OF Name(1), of is_name_char] and j = at_token_in(1) [OF Name(1)]
  obtain r t where rt: "readtok_ahead ops ?s = (r, t)" by fastforce
  have "token_read ?s (r, t)"
    unfolding rt [symmetric] by (rule readtok_ahead_read) (use assms i j Name(3) in \<open>auto simp: in_text_def\<close>)
  then have "framed s t" "\<not> peeking t" using Name(3) by (simp_all add: token_read_def framed_def)
  then show ?thesis unfolding readtok_name [OF Name refl] rt
    using assms i j Name(3) by (auto simp: Let_def token_read_def framed_def in_text_def split: sum.split)
qed (use assms readtok_end_read readtok_number_read readtok_operator_read readtok_peeking_read in auto)

section \<open>Every rule returns, inside the text\<close>

definition good :: "'v evaluator \<Rightarrow> bool" where
  "good s \<longleftrightarrow> in_text s \<and> \<not> peeking s"

text \<open>What is left to read: two for each byte, and one for a token already read.\<close>

definition weight :: "'v evaluator \<Rightarrow> nat" where
  "weight s = 2 * (length (expression s) - tp s) + (if curtok s = TkEnd then 0 else 1)"

text \<open>A rule that succeeds restores the counters, and under \<^verbatim>\<open>noeval\<close> assigns nothing.\<close>

definition follows :: "'v evaluator \<Rightarrow> 'v evaluator \<Rightarrow> bool" where
  "follows s s' \<longleftrightarrow> good s' \<and> expression s' = expression s \<and> noeval s' = noeval s \<and> depth s' = depth s \<and>
     (noeval s \<noteq> 0 \<longrightarrow> vars s' = vars s)"

definition lands :: "nat \<Rightarrow> 'v evaluator \<Rightarrow> 'v outcome option \<Rightarrow> bool" where
  "lands k s o' \<longleftrightarrow> (\<exists>r s'. o' = Some (r, s') \<and> (\<forall>v. r = Inr v \<longrightarrow> follows s s' \<and> weight s' < k))"

named_theorems lands_intros \<open>how an outcome lands\<close>

lemma good_simps [simp]:
  "good (s\<lparr>lasttok := t\<rparr>) = good s" "good (s\<lparr>curtok := t\<rparr>) = good s" "good (s\<lparr>depth := d\<rparr>) = good s"
  "good (s\<lparr>noeval := d\<rparr>) = good s" "good (s\<lparr>vars := v\<rparr>) = good s" "good (s\<lparr>tokval := w\<rparr>) = good s"
  "good s \<Longrightarrow> good (s\<lparr>tokstr := None\<rparr>)" "good (leave s) = good s" "good (assign ops n w s) = good s"
  by (simp_all add: good_def in_text_def leave_def assign_def)

lemma weight_simps [simp]:
  "weight (s\<lparr>lasttok := t\<rparr>) = weight s" "weight (s\<lparr>depth := d\<rparr>) = weight s" "weight (s\<lparr>tokstr := x\<rparr>) = weight s"
  "weight (s\<lparr>noeval := d\<rparr>) = weight s" "weight (s\<lparr>vars := v\<rparr>) = weight s" "weight (s\<lparr>tokval := w\<rparr>) = weight s"
  "weight (leave s) = weight s" "weight (assign ops n w s) = weight s"
  by (simp_all add: weight_def leave_def assign_def)

lemma weight_curtok: "curtok s \<noteq> TkEnd \<Longrightarrow> weight (s\<lparr>curtok := t\<rparr>) \<le> weight s"
  by (simp add: weight_def)

lemma assign_simps [simp]:
  "expression (assign ops n w s) = expression s" "tp (assign ops n w s) = tp s" "lasttp (assign ops n w s) = lasttp s"
  "curtok (assign ops n w s) = curtok s" "lasttok (assign ops n w s) = lasttok s" "tokval (assign ops n w s) = tokval s"
  "tokstr (assign ops n w s) = tokstr s" "noeval (assign ops n w s) = noeval s" "peeking (assign ops n w s) = peeking s"
  "depth (assign ops n w s) = depth s" "noeval s \<noteq> 0 \<Longrightarrow> assign ops n w s = s"
  by (simp_all add: assign_def)

lemma leave_simps [simp]:
  "expression (leave s) = expression s" "tp (leave s) = tp s" "curtok (leave s) = curtok s" "lasttok (leave s) = lasttok s"
  "tokstr (leave s) = tokstr s" "noeval (leave s) = noeval s" "vars (leave s) = vars s" "depth (leave s) = depth s - 1"
  by (simp_all add: leave_def)

lemma follows_refl: "good s \<Longrightarrow> follows s s"
  by (simp add: follows_def)

lemma follows_trans: "follows a b \<Longrightarrow> follows b c \<Longrightarrow> follows a c"
  by (simp add: follows_def)

lemma follows_good: "follows a b \<Longrightarrow> good b"
  by (simp add: follows_def)

lemma follows_simps [simp]:
  "follows (s\<lparr>lasttok := t\<rparr>) s' = follows s s'" "follows (s\<lparr>curtok := t\<rparr>) s' = follows s s'"
  "follows s (s'\<lparr>lasttok := t\<rparr>) = follows s s'" "follows s (s'\<lparr>curtok := t\<rparr>) = follows s s'"
  "follows s s' \<Longrightarrow> follows s (s'\<lparr>tokstr := None\<rparr>)" "follows s s' \<Longrightarrow> follows s (assign ops n w s')"
  by (auto simp: follows_def)

lemma follows_leave: "follows s a \<Longrightarrow> follows (a\<lparr>depth := depth a + 1\<rparr>) b \<Longrightarrow> follows s (leave b)"
  by (auto simp: follows_def)

lemma follows_noeval:
  "follows s a \<Longrightarrow> follows (a\<lparr>noeval := noeval a + 1\<rparr>) b \<Longrightarrow> follows s (b\<lparr>noeval := noeval b - 1\<rparr>)"
  by (auto simp: follows_def)

lemma lands_ok [lands_intros]: "follows s s' \<Longrightarrow> weight s' < k \<Longrightarrow> lands k s (ok v s')"
  by (simp add: lands_def ok_def)

lemma lands_fail [lands_intros]: "lands k s (fail m s')"
  by (simp add: lands_def fail_def)

lemma lands_then:
  assumes "lands k' a o'" "\<And>v b. follows a b \<Longrightarrow> weight b < k' \<Longrightarrow> lands k s (f v b)"
  shows "lands k s (and_then o' f)"
  using assms by (auto simp: lands_def and_then_def split: sum.splits)

lemma lands_enter:
  assumes "lands k s (f (a\<lparr>depth := depth a + 1\<rparr>))"
  shows "lands k s (then_do (enter safe a) f)"
  using assms by (simp add: enter_def then_do_def) (simp add: lands_def)

lemma readtok_follows:
  assumes "good a" "curtok a \<noteq> TkEnd" "readtok ops a = (Inr u, b)"
  shows "follows a b \<and> weight b < weight a"
proof -
  have "token_read a (Inr u, b)" using readtok_read [of a ops] assms by (simp add: good_def)
  then show ?thesis using assms(1,2)
    by (auto simp: token_read_def framed_def follows_def good_def weight_def in_text_def)
qed

lemma lands_read:
  assumes "good a" "curtok a \<noteq> TkEnd" "\<And>b. follows a b \<Longrightarrow> weight b < weight a \<Longrightarrow> lands k s (f b)"
  shows "lands k s (then_do (readtok ops a) f)"
proof (cases "readtok ops a")
  case (Pair r b)
  then show ?thesis using readtok_follows [OF assms(1,2), of ops _ b] assms(3) [of b]
    by (cases r) (simp_all add: then_do_def lands_def)
qed

lemma lands_follows: "follows s a \<Longrightarrow> lands k a o' \<Longrightarrow> lands k s o'"
  using follows_trans by (fastforce simp: lands_def)

lemma lands_more: "lands k s o' \<Longrightarrow> k \<le> k' \<Longrightarrow> lands k' s o'"
  by (fastforce simp: lands_def)

text \<open>A parser that lands on every state with less than \<open>n\<close> left, and the loops over it.\<close>

definition settles :: "nat \<Rightarrow> 'v parser \<Rightarrow> bool" where
  "settles n p \<longleftrightarrow> (\<forall>s. good s \<longrightarrow> weight s < n \<longrightarrow> lands (weight s) s (p s))"

lemma settlesD: "settles n p \<Longrightarrow> good s \<Longrightarrow> weight s < n \<Longrightarrow> lands (weight s) s (p s)"
  by (simp add: settles_def)

lemma settles_then_loop:
  assumes "settles n p" "\<And>v s. good s \<Longrightarrow> Suc (weight s) < n \<Longrightarrow> lands (Suc (weight s)) s (loop v s)"
  shows "settles n (\<lambda>s. and_then (p s) (loop))"
  unfolding settles_def
proof (intro allI impI)
  fix s :: "'a evaluator" assume s: "good s" "weight s < n"
  show "lands (weight s) s (and_then (p s) loop)"
  proof (rule lands_then [OF settlesD [OF assms(1) s]])
    fix v b assume b: "follows s b" "weight b < weight s"
    then have "lands (Suc (weight b)) b (loop v b)" using s(2) follows_good by (intro assms(2)) auto
    then show "lands (weight s) s (loop v b)" using b by (auto intro: lands_more [OF lands_follows [OF b(1)]])
  qed
qed

lemma lands_step:
  assumes "good a" "curtok a \<noteq> TkEnd" "settles n operand" "weight a < n"
    and "\<And>v b. follows a b \<Longrightarrow> weight b < weight a \<Longrightarrow> lands k s (f v b)"
  shows "lands k s (then_do (readtok ops a) (\<lambda>b. and_then (operand b) f))"
proof (intro lands_read [OF assms(1,2)])
  fix b assume b: "follows a b" "weight b < weight a"
  have "lands (weight b) b (operand b)"
    using b assms(4) by (intro settlesD [OF assms(3)]) (auto intro: follows_good)
  then show "lands k s (and_then (operand b) f)"
    by (rule lands_then) (use b in \<open>auto intro!: assms(5) intro: follows_trans\<close>)
qed

lemma lands_again:
  assumes "lands (Suc (weight b)) b o'" "follows s b" "weight b < weight s"
  shows "lands (Suc (weight s)) s o'"
  using lands_follows [OF assms(2,1)] assms(3) by (auto intro: lands_more)

lemma lands_done: "good s \<Longrightarrow> lands (Suc (weight s)) s (ok v s)"
  by (simp add: lands_ok follows_refl)

lemma binary_loop_lands:
  assumes "settles n operand" "TkEnd \<notin> toks"
  shows "good s \<Longrightarrow> weight s < m \<Longrightarrow> weight s < n \<Longrightarrow>
    lands (Suc (weight s)) s (binary_loop ops toks apply operand m v s)"
proof (induction m arbitrary: v s)
  case (Suc m)
  have "curtok s \<in> toks \<Longrightarrow> curtok s \<noteq> TkEnd" using assms(2) by auto
  then show ?case using Suc(2-4)
    by (auto simp: Let_def lands_done intro!: lands_step [OF _ _ assms(1)] lands_again [OF Suc.IH] intro: follows_good)
qed simp

lemma expmuldiv_loop_lands:
  assumes "settles n operand"
  shows "good s \<Longrightarrow> weight s < m \<Longrightarrow> weight s < n \<Longrightarrow> lands (Suc (weight s)) s (expmuldiv_loop ops operand m v s)"
proof (induction m arbitrary: v s)
  case (Suc m)
  have "curtok s \<in> {TkMul, TkDiv, TkMod} \<Longrightarrow> curtok s \<noteq> TkEnd" by auto
  then show ?case using Suc(2-4)
    by (auto simp: Let_def lands_done lands_fail simp del: insert_iff intro!: lands_step [OF _ _ assms(1)]
        lands_again [OF Suc.IH]) (blast intro: follows_good)+
qed simp


lemma expcomma_loop_lands:
  assumes "settles n operand"
  shows "good s \<Longrightarrow> weight s < m \<Longrightarrow> weight s < n \<Longrightarrow> lands (Suc (weight s)) s (expcomma_loop ops operand m v s)"
proof (induction m arbitrary: v s)
  case (Suc m)
  then show ?case
    by (auto simp: lands_done intro!: lands_step [OF _ _ assms(1)] lands_again [OF Suc.IH] intro: follows_good)
qed simp

text \<open>A skipped operand is read with \<^verbatim>\<open>noeval\<close> raised.\<close>

lemma lands_skip:
  assumes "good s" "curtok s \<noteq> TkEnd" "settles n operand" "weight s < n"
    and "\<And>v b. follows s b \<Longrightarrow> weight b < weight s \<Longrightarrow> lands k s (f v b)"
  shows "lands k s (then_do (readtok ops (if skip then s\<lparr>noeval := noeval s + 1\<rparr> else s)) (\<lambda>b. and_then (operand b)
    (\<lambda>v b. f v (if skip then b\<lparr>noeval := noeval b - 1\<rparr> else b))))"
proof (rule lands_step [OF _ _ assms(3)])
  fix v b
  assume b: "follows (if skip then s\<lparr>noeval := noeval s + 1\<rparr> else s) b" "weight b < weight (if skip then s\<lparr>noeval := noeval s + 1\<rparr> else s)"
  then show "lands k s (f v (if skip then b\<lparr>noeval := noeval b - 1\<rparr> else b))"
    using follows_noeval [OF follows_refl [OF assms(1)], of b] by (intro assms(5)) (auto split: if_splits)
qed (use assms(1,2,4) in auto)

lemma expland_loop_lands:
  assumes "settles n operand"
  shows "good s \<Longrightarrow> weight s < m \<Longrightarrow> weight s < n \<Longrightarrow> lands (Suc (weight s)) s (expland_loop ops operand m v s)"
proof (induction m arbitrary: v s)
  case (Suc m)
  show ?case
  proof (cases "curtok s = TkLAnd")
    case True
    have "lands (Suc (weight s)) s (expland_loop ops operand m w (b\<lparr>lasttok := TkLAnd\<rparr>))"
      if "follows s b" "weight b < weight s" for w b
      using that Suc(2-4) by (intro lands_again [OF Suc.IH]) (auto intro: follows_good)
    then show ?thesis using True Suc(2-4) lands_skip [OF _ _ assms, of s "Suc (weight s)"
        "\<lambda>w b. expland_loop ops operand m (of_bool_i64 (v \<noteq> 0 \<and> w \<noteq> 0)) (b\<lparr>lasttok := TkLAnd\<rparr>)" ops "v = 0"]
      by (simp add: Let_def)
  qed (use Suc in \<open>simp add: lands_done\<close>)
qed simp

lemma explor_loop_lands:
  assumes "settles n operand"
  shows "good s \<Longrightarrow> weight s < m \<Longrightarrow> weight s < n \<Longrightarrow> lands (Suc (weight s)) s (explor_loop ops operand m v s)"
proof (induction m arbitrary: v s)
  case (Suc m)
  show ?case
  proof (cases "curtok s = TkLOr")
    case True
    have "lands (Suc (weight s)) s (explor_loop ops operand m w (b\<lparr>lasttok := TkLOr\<rparr>))"
      if "follows s b" "weight b < weight s" for w b
      using that Suc(2-4) by (intro lands_again [OF Suc.IH]) (auto intro: follows_good)
    then show ?thesis using True Suc(2-4) lands_skip [OF _ _ assms, of s "Suc (weight s)"
        "\<lambda>w b. explor_loop ops operand m (of_bool_i64 (v \<noteq> 0 \<or> w \<noteq> 0)) (b\<lparr>lasttok := TkLOr\<rparr>)" ops "v \<noteq> 0"]
      by (simp add: Let_def)
  qed (use Suc in \<open>simp add: lands_done\<close>)
qed simp

section \<open>The rules that recurse\<close>

lemma exppower_loop_lands:
  assumes "settles n (rec Power)"
  shows "good s \<Longrightarrow> weight s < m \<Longrightarrow> weight s < Suc n \<Longrightarrow> lands (Suc (weight s)) s (exppower_loop ops safe rec m v s)"
proof (induction m arbitrary: v s)
  case (Suc m)
  show ?case
  proof (cases "curtok s = TkPower")
    case True
    have rest: "lands (Suc (weight s)) s
        (let c' = leave c\<lparr>lasttok := TkNum\<rparr>
         in if w = 0 then ok 1 c'
            else if sint w < 0 then fail ''exponent less than 0'' c'
            else (case arith_power v w of None \<Rightarrow> None | Some value \<Rightarrow> exppower_loop ops safe rec m value c'))"
      if "follows s b" "weight b < weight s" "follows (b\<lparr>depth := depth b + 1\<rparr>) c" "weight c < weight b" for w b c
    proof -
      have c: "follows s (leave c\<lparr>lasttok := TkNum\<rparr>)" using follows_leave [OF that(1,3)] by simp
      have "lands (Suc (weight s)) s (exppower_loop ops safe rec m x (leave c\<lparr>lasttok := TkNum\<rparr>))" for x
        by (rule lands_again [OF Suc.IH]) (use c that Suc(2-4) follows_good [OF c] in auto)
      then show ?thesis using c that arith_power_spec [of w v]
        by (auto simp: Let_def intro!: lands_fail lands_ok)
    qed
    have "lands (Suc (weight s)) s (then_do (readtok ops s) (\<lambda>b. then_do (enter safe b) (\<lambda>b.
        and_then (rec Power b) (\<lambda>w c. let c' = leave c\<lparr>lasttok := TkNum\<rparr>
         in if w = 0 then ok 1 c'
            else if sint w < 0 then fail ''exponent less than 0'' c'
            else (case arith_power v w of None \<Rightarrow> None | Some value \<Rightarrow> exppower_loop ops safe rec m value c')))))"
      by (intro lands_read lands_enter, goal_cases)
        (use Suc(2-4) True rest in \<open>auto intro!: lands_then [OF settlesD [OF assms]] intro: follows_good\<close>)
    then show ?thesis using True by simp
  qed (use Suc in \<open>simp add: lands_done\<close>)
qed simp

lemma lands_nested:
  assumes "good b" "settles n p" "weight b < n"
    and "\<And>v c. follows b (leave c) \<Longrightarrow> weight c < weight b \<Longrightarrow> lands k s (f v c)"
  shows "lands k s (then_do (enter safe b) (\<lambda>b. and_then (p b) f))"
proof (intro lands_enter lands_then [OF settlesD [OF assms(2)]])
  fix v c assume "follows (b\<lparr>depth := depth b + 1\<rparr>) c" "weight c < weight (b\<lparr>depth := depth b + 1\<rparr>)"
  then show "lands k s (f v c)"
    using follows_leave [OF follows_refl [OF assms(1)]] by (intro assms(4)) auto
qed (use assms in auto)

lemma lands_read_ok:
  assumes "good a" "curtok a \<noteq> TkEnd" "follows s a" "weight a \<le> k"
  shows "lands k s (then_do (readtok ops a) (ok v))"
  by (rule lands_read [OF assms(1,2)]) (use assms in \<open>auto intro!: lands_ok intro: follows_trans\<close>)

lemma readtok_ahead_follows:
  assumes "good a" "curtok a \<noteq> TkEnd" "readtok_ahead ops a = (Inr u, b)"
  shows "follows a b \<and> weight b < weight a \<and> vars b = vars a"
proof -
  have "token_read a (Inr u, b)" using readtok_ahead_read [of a ops] assms by (simp add: good_def)
  then show ?thesis using assms(1,2)
    by (auto simp: token_read_def framed_def follows_def good_def weight_def in_text_def)
qed

lemma follows_restore: "good s \<Longrightarrow> follows s b \<Longrightarrow> follows s (restore (save s) b) \<and> weight (restore (save s) b) = weight s"
  by (auto simp: follows_def good_def in_text_def weight_def)

lemma follows_tokstr: "follows s b \<Longrightarrow> good a \<Longrightarrow> expression a = expression s \<Longrightarrow> tokstr a = Some n \<Longrightarrow> follows s (b\<lparr>tokstr := Some n\<rparr>)"
  by (cases n) (auto simp: follows_def good_def in_text_def)

lemma expprimary_lands:
  assumes "settles n (rec Comma)" "good s" "weight s < Suc n"
  shows "lands (weight s) s (expprimary ops safe rec s)"
proof -
  have lpar: "lands (weight s) s (expprimary ops safe rec s)" if "curtok s = TkLPar"
  proof -
    have "lands (weight s) s (let c' = leave c in if curtok c' \<noteq> TkRPar then fail m c' else then_do (readtok ops c') (ok w))"
      if "follows s b" "weight b < weight s" "follows b (leave c)" "weight c < weight b" for b c w m
      using follows_trans [OF that(1,3)] that by (auto simp: Let_def intro!: lands_fail lands_read_ok intro: follows_good)
    then show ?thesis using that assms
      by (auto simp: expprimary_def intro!: lands_read lands_nested [OF _ assms(1)] intro: follows_good)
  qed
  have num: "lands (weight s) s (expprimary ops safe rec s)" if "curtok s = TkNum"
    using that assms by (auto simp: expprimary_def intro!: lands_read_ok follows_refl)
  have str: "lands (weight s) s (expprimary ops safe rec s)" if t: "curtok s = TkStr"
  proof (cases "readtok_ahead ops s")
    case (Pair r b)
    show ?thesis
    proof (cases r)
      case (Inl e)
      then show ?thesis using t Pair by (simp add: expprimary_def then_do_def lands_def Let_def)
    next
      case (Inr u)
      have b: "follows s b" "weight b < weight s"
        using readtok_ahead_follows [OF assms(2) _ Pair [unfolded Inr]] t by auto
      have restored: "lands (weight s) s (then_do (readtok ops (restore (save s) b)) (ok w))" for w
        using follows_restore [OF assms(2) b(1)] t by (intro lands_read_ok) (auto intro: follows_good)
      have posted: "lands (weight s) s (then_do (readtok ops (assign ops name x (b\<lparr>tokstr := Some name, lasttok := TkStr\<rparr>)\<lparr>curtok := TkNum\<rparr>)) (ok w))"
        if "tokstr s = Some name" "curtok b \<noteq> TkEnd" for w x name
      proof -
        have f0: "follows s (b\<lparr>tokstr := Some name\<rparr>)"
          using follows_tokstr [OF b(1) assms(2) refl that(1)] by simp
        from f0 have f: "follows s (assign ops name x (b\<lparr>tokstr := Some name, lasttok := TkStr\<rparr>))" by simp
        have "weight (b\<lparr>curtok := TkNum\<rparr>) = weight b" using that(2) by (simp add: weight_def)
        then have "weight (assign ops name x (b\<lparr>tokstr := Some name, lasttok := TkStr\<rparr>)\<lparr>curtok := TkNum\<rparr>) = weight b"
          by (simp add: weight_def)
        then show ?thesis using f b(2) follows_good [OF f0] by (intro lands_read_ok) auto
      qed
      show ?thesis using t Pair Inr restored posted
        by (auto simp: expprimary_def then_do_def Let_def split: option.split)
    qed
  qed
  have pre: "lands (weight s) s (expprimary ops safe rec s)" if "curtok s = TkPreInc \<or> curtok s = TkPreDec"
  proof -
    have "lands (weight s) s (then_do (readtok ops (assign ops name x b\<lparr>curtok := TkNum\<rparr>)) (ok w))"
      if "follows s b" "weight b < weight s" "curtok b = TkStr" for b x w name
      using that by (intro lands_read_ok) (auto intro: follows_good simp: weight_def)
    then show ?thesis using that assms
      by (auto simp: expprimary_def Let_def split: option.split intro!: lands_read lands_fail)
  qed
  show ?thesis
    using lpar num str pre by (cases "curtok s") (simp_all add: expprimary_def lands_fail)
qed

lemma expunary_lands:
  assumes "\<forall>l. settles n (rec l)" "good s" "weight s < Suc n"
  shows "lands (weight s) s (expunary ops safe rec s)"
proof (cases "curtok s \<in> {TkNot, TkBNot, TkMinus, TkPlus}")
  case True
  have "lands (weight s) s (ok w (leave c\<lparr>lasttok := TkNum\<rparr>))"
    if "follows s b" "weight b < weight s" "follows b (leave c)" "weight c < weight b" for b c w
    using follows_trans [OF that(1,3)] that by (auto intro!: lands_ok)
  then show ?thesis using True assms
    by (auto simp: expunary_def Let_def intro!: lands_read lands_nested [where n = n] intro: follows_good)
next
  case False
  then show ?thesis using expprimary_lands [of n rec] assms by (auto simp: expunary_def Let_def)
qed


lemma expcond_lands:
  assumes "settles (Suc n) (explor ops safe rec n)" "\<forall>l. settles n (rec l)" "good s" "weight s < Suc n"
  shows "lands (weight s) s (expcond ops safe rec n s)"
  unfolding expcond_def
proof (rule lands_then [OF settlesD [OF assms(1,3,4)]])
  fix condition a
  assume a: "follows s a" "weight a < weight s"
  let ?if = "\<lambda>p c. if p then c\<lparr>noeval := noeval c + 1\<rparr> else c"
    and ?fi = "\<lambda>p c. if p then c\<lparr>noeval := noeval c - 1\<rparr> else c"
  have n: "follows x (?fi p c)" if "follows (?if p b) c" "follows x b" for p b c x
    using that follows_noeval [of x b c] follows_trans [of x b c] by (cases p) auto
  have last: "lands (weight s) s (let c = ?fi p c in ok w (leave c\<lparr>lasttok := TkCond\<rparr>))"
    if "follows (a\<lparr>depth := depth a + 1\<rparr>) b" "follows (?if p b) c" "weight c < weight s" for w p b c
    using follows_leave [OF a(1) n [OF that(2,1)]] that(3) by (auto simp: Let_def intro!: lands_ok)
  have second: "lands (weight s) s
      (then_do (readtok ops (?if p b)) (\<lambda>c.
         if curtok c = TkEnd then fail m c
         else and_then (rec Cond c) (\<lambda>w c. let c = ?fi p c in ok (g w) (leave c\<lparr>lasttok := TkCond\<rparr>))))"
    if "follows (a\<lparr>depth := depth a + 1\<rparr>) b" "weight b < weight s" "curtok b \<noteq> TkEnd" for p b m g
  proof (rule lands_read)
    fix c assume c: "follows (?if p b) c" "weight c < weight (?if p b)"
    have w: "weight (?if p b) = weight b" by simp
    have "lands (weight c) c (rec Cond c)"
      using c w that(2) assms(2,4) by (intro settlesD [of n]) (auto intro: follows_good)
    then show "lands (weight s) s (if curtok c = TkEnd then fail m c
         else and_then (rec Cond c) (\<lambda>w c. let c = ?fi p c in ok (g w) (leave c\<lparr>lasttok := TkCond\<rparr>)))"
      using last [OF that(1) follows_trans [OF c(1)]] c(2) w that(2)
      by (cases "curtok c = TkEnd") (auto simp: lands_fail intro!: lands_then split del: if_split)
  qed (use that(3) follows_good [OF that(1)] in auto)
  have first: "lands (weight s) s
      (then_do (readtok ops (?if p b)) (\<lambda>c.
         if curtok c = TkEnd \<or> curtok c = TkCol then fail m c
         else and_then (rec Comma c) (\<lambda>w c. let c = ?fi p c in
           if curtok c \<noteq> TkCol then fail m' c
           else (let c = ?if q c in then_do (readtok ops c) (\<lambda>c.
                   if curtok c = TkEnd then fail m c
                   else and_then (rec Cond c) (\<lambda>v c. let c = ?fi q c in ok (g w v) (leave c\<lparr>lasttok := TkCond\<rparr>)))))))"
    if "b = a\<lparr>depth := depth a + 1\<rparr>" "curtok b \<noteq> TkEnd" for p q b m m' g
  proof (rule lands_read)
    fix c assume c: "follows (?if p b) c" "weight c < weight (?if p b)"
    have w: "weight (?if p b) = weight a" by (simp add: that(1))
    have r1: "lands (weight c) c (rec Comma c)"
      using c w a(2) assms(2,4) by (intro settlesD [of n]) (auto intro: follows_good)
    have r2: "lands (weight s) s (let d = ?fi p d in
           if curtok d \<noteq> TkCol then fail m' d
           else (let c = ?if q d in then_do (readtok ops c) (\<lambda>c.
                   if curtok c = TkEnd then fail m c
                   else and_then (rec Cond c) (\<lambda>v c. let c = ?fi q c in ok (g x v) (leave c\<lparr>lasttok := TkCond\<rparr>)))))"
      if d: "follows c d" "weight d < weight c" for d x
    proof -
      have "follows b b" using follows_good [OF a(1)] \<open>b = _\<close> by (simp add: follows_refl)
      moreover have "weight (?fi p d) < weight s" using d(2) c(2) w a(2) by simp
      ultimately show ?thesis using second [of "?fi p d" q m "g x"] n [OF follows_trans [OF c(1) d(1)], of b] \<open>b = _\<close>
        by (cases "curtok (?fi p d) = TkCol") (auto simp: Let_def lands_fail split del: if_split)
    qed
    show "lands (weight s) s (if curtok c = TkEnd \<or> curtok c = TkCol then fail m c
         else and_then (rec Comma c) (\<lambda>w c. let c = ?fi p c in
           if curtok c \<noteq> TkCol then fail m' c
           else (let c = ?if q c in then_do (readtok ops c) (\<lambda>c.
                   if curtok c = TkEnd then fail m c
                   else and_then (rec Cond c) (\<lambda>v c. let c = ?fi q c in ok (g w v) (leave c\<lparr>lasttok := TkCond\<rparr>))))))"
      by (rule if_rule, rule lands_fail, rule lands_then [OF r1], rule r2)
  qed (use that(2) follows_good [OF a(1)] \<open>b = _\<close> in auto)
  show "lands (weight s) s (if curtok a \<noteq> TkQues then ok condition a
      else then_do (enter safe a) (\<lambda>s. let s = ?if (condition = 0) s in then_do (readtok ops s) (\<lambda>s.
           if curtok s = TkEnd \<or> curtok s = TkCol then fail ''expression expected'' s
           else and_then (rec Comma s) (\<lambda>if_true s.
             let s = ?fi (condition = 0) s
             in if curtok s \<noteq> TkCol then fail (''`:'' @ [CHR 0x27] @ '' expected for conditional expression'') s
                else
                  (let s = ?if (condition \<noteq> 0) s
                   in then_do (readtok ops s) (\<lambda>s.
                     if curtok s = TkEnd then fail ''expression expected'' s
                     else and_then (rec Cond s) (\<lambda>if_false s.
                       let s = ?fi (condition \<noteq> 0) s
                       in ok (if condition \<noteq> 0 then if_true else if_false)
                            ((leave s)\<lparr>lasttok := TkCond\<rparr>))))))))"
  proof (cases "curtok a = TkQues")
    case True
    then have "curtok (a\<lparr>depth := depth a + 1\<rparr>) \<noteq> TkEnd" by simp
    note F = first [of "a\<lparr>depth := depth a + 1\<rparr>" "condition = 0" _ _ "condition \<noteq> 0"
        "\<lambda>x y. if condition \<noteq> 0 then x else y", OF refl this, unfolded Let_def]
    show ?thesis
      unfolding Let_def True by (simp only: simp_thms if_False) (rule lands_enter, rule F)
  qed (use a in \<open>simp add: lands_ok\<close>)
qed


lemma expassign_lands:
  assumes "settles (Suc n) (expcond ops safe rec n)" "\<forall>l. settles n (rec l)" "good s" "weight s < Suc n"
  shows "lands (weight s) s (expassign ops safe rec n s)"
  unfolding expassign_def
proof (rule lands_then [OF settlesD [OF assms(1,3,4)]])
  fix lvalue a
  assume a: "follows s a" "weight a < weight s"
  have finish: "lands (weight s) s (let s = leave c; by_zero = ((op = Some ADiv \<or> op = Some AMod) \<and> value = 0)
        in if by_zero \<and> noeval s = 0 then fail m s
           else (let value = (case op of None \<Rightarrow> value | Some op \<Rightarrow> apply_op op lvalue (if by_zero then 1 else value))
                 in ok value ((assign ops name value s)\<lparr>tokstr := None\<rparr>)))"
    if "follows a b" "weight b < weight a" "follows b (leave c)" "weight c < weight b" for b c op "value" m name
  proof -
    have "follows s (leave c)" using a(1) that(1,3) follows_trans by blast
    then show ?thesis using that a(2) by (auto simp: Let_def intro!: lands_fail lands_ok)
  qed
  have body: "lands (weight s) s (then_do (readtok ops a) (\<lambda>s. then_do (enter safe s) (\<lambda>s. and_then (rec Assign s)
      (\<lambda>value s. let s = leave s; by_zero = ((op = Some ADiv \<or> op = Some AMod) \<and> value = 0)
        in if by_zero \<and> noeval s = 0 then fail m s
           else (let value = (case op of None \<Rightarrow> value | Some op \<Rightarrow> apply_op op lvalue (if by_zero then 1 else value))
                 in ok value ((assign ops name value s)\<lparr>tokstr := None\<rparr>))))))"
    if "curtok a \<noteq> TkEnd" for op m name
  proof (rule lands_read)
    fix b assume b: "follows a b" "weight b < weight a"
    show "lands (weight s) s (then_do (enter safe b) (\<lambda>s. and_then (rec Assign s)
      (\<lambda>value s. let s = leave s; by_zero = ((op = Some ADiv \<or> op = Some AMod) \<and> value = 0)
        in if by_zero \<and> noeval s = 0 then fail m s
           else (let value = (case op of None \<Rightarrow> value | Some op \<Rightarrow> apply_op op lvalue (if by_zero then 1 else value))
                 in ok value ((assign ops name value s)\<lparr>tokstr := None\<rparr>)))))"
    proof (rule lands_nested [of b n])
      show "settles n (rec Assign)" using assms(2) by simp
    qed (use b a(2) assms(4) finish [OF b] in \<open>auto intro: follows_good\<close>)
  qed (use a that follows_good in auto)
  show "lands (weight s) s (case (case curtok a of TkEq \<Rightarrow> Some None | TkOpAssign op \<Rightarrow> Some (Some op) | _ \<Rightarrow> None) of
         None \<Rightarrow> ok lvalue a
       | Some op \<Rightarrow>
           if lasttok a \<noteq> TkStr then fail ''attempted assignment to non-variable'' a
           else (case tokstr a of
               None \<Rightarrow> fail ''syntax error in variable assignment'' a
             | Some name \<Rightarrow>
                 then_do (readtok ops a) (\<lambda>s. then_do (enter safe s) (\<lambda>s.
                   and_then (rec Assign s) (\<lambda>value s.
                     let s = leave s; by_zero = ((op = Some ADiv \<or> op = Some AMod) \<and> value = 0)
                     in if by_zero \<and> noeval s = 0 then fail ''division by 0'' s
                        else
                          (let value = (case op of None \<Rightarrow> value
                             | Some op \<Rightarrow> apply_op op lvalue (if by_zero then 1 else value))
                           in ok value ((assign ops name value s)\<lparr>tokstr := None\<rparr>)))))))"
  proof (cases "(case curtok a of TkEq \<Rightarrow> Some None | TkOpAssign op \<Rightarrow> Some (Some op) | _ \<Rightarrow> None)")
    case None
    then show ?thesis using a by (simp add: lands_ok)
  next
    case (Some op)
    then have "curtok a \<noteq> TkEnd" by auto
    then show ?thesis using body Some by (simp only: option.case) (auto intro: lands_fail split: option.split)
  qed
qed

text \<open>All rules together, by the levels of the grammar from the inside out.\<close>

lemma rules_settle:
  fixes ops :: "'v variables"
  assumes "\<forall>l. settles n (rec l)"
  shows "settles (Suc n) (expunary ops safe rec)" "settles (Suc n) (exppower ops safe rec n)"
    "settles (Suc n) (expcond ops safe rec n)" "settles (Suc n) (expassign ops safe rec n)"
    "settles (Suc n) (expcomma ops safe rec n)"
proof -
  show unary: "settles (Suc n) (expunary ops safe rec)"
    using expunary_lands [OF assms] by (simp add: settles_def)
  show power: "settles (Suc n) (exppower ops safe rec n)"
    unfolding exppower_def using assms
    by (intro settles_then_loop [OF unary] exppower_loop_lands) auto
  have muldiv: "settles (Suc n) (expmuldiv ops safe rec n)"
    unfolding expmuldiv_def by (intro settles_then_loop [OF power] expmuldiv_loop_lands [OF power]) auto
  have add: "settles (Suc n) (expadd ops safe rec n)"
    unfolding expadd_def by (intro settles_then_loop [OF muldiv] binary_loop_lands [OF muldiv]) auto
  have shift: "settles (Suc n) (expshift ops safe rec n)"
    unfolding expshift_def by (intro settles_then_loop [OF add] binary_loop_lands [OF add]) auto
  have compare: "settles (Suc n) (expcompare ops safe rec n)"
    unfolding expcompare_def by (intro settles_then_loop [OF shift] binary_loop_lands [OF shift]) auto
  have equal: "settles (Suc n) (expequal ops safe rec n)"
    unfolding expequal_def by (intro settles_then_loop [OF compare] binary_loop_lands [OF compare]) auto
  have band: "settles (Suc n) (expband ops safe rec n)"
    unfolding expband_def by (intro settles_then_loop [OF equal] binary_loop_lands [OF equal]) auto
  have bxor: "settles (Suc n) (expbxor ops safe rec n)"
    unfolding expbxor_def by (intro settles_then_loop [OF band] binary_loop_lands [OF band]) auto
  have bor: "settles (Suc n) (expbor ops safe rec n)"
    unfolding expbor_def by (intro settles_then_loop [OF bxor] binary_loop_lands [OF bxor]) auto
  have land: "settles (Suc n) (expland ops safe rec n)"
    unfolding expland_def by (intro settles_then_loop [OF bor] expland_loop_lands [OF bor]) auto
  have lor: "settles (Suc n) (explor ops safe rec n)"
    unfolding explor_def by (intro settles_then_loop [OF land] explor_loop_lands [OF land]) auto
  show cond: "settles (Suc n) (expcond ops safe rec n)"
    using expcond_lands [OF lor assms] by (simp add: settles_def)
  show asg: "settles (Suc n) (expassign ops safe rec n)"
    using expassign_lands [OF cond assms] by (simp add: settles_def)
  show "settles (Suc n) (expcomma ops safe rec n)"
    unfolding expcomma_def by (intro settles_then_loop [OF asg] expcomma_loop_lands [OF asg]) auto
qed

lemma expr_settles: "settles n (expr ops safe n l)"
proof (induction n arbitrary: l)
  case (Suc n)
  then have "\<forall>l. settles n (expr ops safe n l)" by blast
  from rules_settle [OF this] show ?case by (cases l) (simp_all add: settles_def)
qed (simp add: settles_def)

text \<open>C29: evaluating an expression always returns a value or an error: the fuel, two for each byte, is
  enough whatever the text, the variables and the native stack.\<close>

theorem evaluate_total: "\<exists>r v'. evaluate ops safe e v = Some (r, v')"
proof -
  let ?i = "initial_evaluator e v" and ?n = "2 * length e + 2"
  have i: "in_text ?i" "\<not> peeking ?i" by (simp_all add: in_text_def initial_evaluator_def)
  have "\<exists>o'. then_do (readtok ops ?i) (\<lambda>s. and_then (expr ops safe ?n Comma s) (\<lambda>value s.
              if curtok s \<noteq> TkEnd then fail ''syntax error in expression'' s else ok value s)) = Some o'"
  proof (cases "readtok ops ?i")
    case (Pair r s)
    show ?thesis
    proof (cases r)
      case (Inr u)
      have "token_read ?i (Inr u, s)" using readtok_read [OF i(1), of ops] by (simp add: Pair Inr)
      then have s: "good s" "weight s < ?n"
        using i by (auto simp: token_read_def framed_def good_def weight_def in_text_def initial_evaluator_def)
      have "lands (weight s) s (expr ops safe ?n Comma s)" by (rule settlesD [OF expr_settles s])
      then show ?thesis using Pair Inr
        by (auto simp: lands_def then_do_def and_then_def ok_def fail_def split: sum.split)
    qed (simp add: Pair then_do_def)
  qed
  then show ?thesis by (auto simp: evaluate_def run_with_def Let_def)
qed

text \<open>C30: every rule of the grammar that returns a value leaves the evaluator well formed: the positions and
  the remembered name stay inside the expression, which gets shorter, the counters \<^verbatim>\<open>noeval\<close> and
  \<^verbatim>\<open>depth\<close> are back where they were, and an operand that is only read assigns nothing.\<close>

theorem rule_keeps_evaluator:
  assumes "good s" "expr ops safe n l s = Some (Inr w, s')" "weight s < n"
  shows "good s' \<and> noeval s' = noeval s \<and> depth s' = depth s \<and> weight s' < weight s \<and>
    (noeval s \<noteq> 0 \<longrightarrow> vars s' = vars s)"
  using settlesD [OF expr_settles assms(1,3), of ops safe l] assms(2) by (simp add: lands_def follows_def)

theorem rule_keeps_evaluator_witness:
  "case expr \<lparr>v_get = \<lambda>k n. None, v_set = \<lambda>k n v. k + 1\<rparr> (\<lambda>_. True) 8 Comma
      (snd (readtok \<lparr>v_get = \<lambda>k n. None, v_set = \<lambda>k n v. k + 1\<rparr> (initial_evaluator ''x=1'' (0::nat)\<lparr>noeval := 1\<rparr>))) of
     Some (Inr w, s') \<Rightarrow> vars s' = 0 \<and> noeval s' = 1
   | _ \<Rightarrow> False"
proof -
  let ?ops = "\<lparr>v_get = \<lambda>k n. None, v_set = \<lambda>k n v. k + 1\<rparr> :: nat variables"
  let ?i = "initial_evaluator ''x=1'' (0::nat)\<lparr>noeval := 1\<rparr>"
  let ?s = "snd (readtok ?ops ?i)"
  have "token_read ?i (readtok ?ops ?i)" by (intro readtok_read) (simp add: in_text_def initial_evaluator_def)
  then have s: "good ?s" "weight ?s < 8" "noeval ?s = 1" "vars ?s = 0"
    by (auto simp: token_read_def framed_def good_def weight_def in_text_def initial_evaluator_def)
  have "case expr ?ops (\<lambda>_. True) 8 Comma ?s of Some (Inr w, s') \<Rightarrow> True | _ \<Rightarrow> False" by code_simp
  then obtain w s' where e: "expr ?ops (\<lambda>_. True) 8 Comma ?s = Some (Inr w, s')"
    by (auto split: option.splits sum.splits)
  show ?thesis using rule_keeps_evaluator [OF s(1) e s(2)] s(3,4) unfolding e by simp
qed

end
