(* ===== verification/Shell_Arith_Eval.thy ===== *)
theory Shell_Arith_Eval
  imports Shell_Arith_Run
begin

text \<open>
  What the evaluator of \<^verbatim>\<open>src/shell_parser/arith.rs\<close> computes. Expressions are syntax trees here, with
  a reference meaning by recursion on the tree and a text in which every operation stands in
  parentheses. The evaluator of the code, which reads tokens and keeps \<^verbatim>\<open>noeval\<close> and \<^verbatim>\<open>depth\<close> as it
  goes, gives the same value and the same assignments on that text. The proof follows the grammar:
  each rule ends with the token after its operand (\<open>reach\<close>), an operator is taken by the rule of
  its level, and a parenthesised operation is an operand of every rule (\<open>item\<close>).
\<close>

section \<open>Expression trees and their text\<close>

datatype unop = UNot | UBNot | UMinus | UPlus

datatype binop = BMul | BDiv | BMod | BAdd | BSub | BShl | BShr | BLe | BGe | BLt | BGt | BEq | BNe | BAnd | BXor | BOr

datatype aexp = Lit nat | Var bytes | Op1 unop aexp | Op2 binop aexp aexp | Pow aexp nat | LAnd aexp aexp
  | LOr aexp aexp | If aexp aexp aexp | Set bytes "assign_op option" aexp | Seq aexp aexp

fun un_tok :: "unop \<Rightarrow> tok" where
  "un_tok UNot = TkNot" | "un_tok UBNot = TkBNot" | "un_tok UMinus = TkMinus" | "un_tok UPlus = TkPlus"

fun bin_tok :: "binop \<Rightarrow> tok" where
  "bin_tok BMul = TkMul" | "bin_tok BDiv = TkDiv" | "bin_tok BMod = TkMod" | "bin_tok BAdd = TkPlus"
| "bin_tok BSub = TkMinus" | "bin_tok BShl = TkLsh" | "bin_tok BShr = TkRsh" | "bin_tok BLe = TkLeq"
| "bin_tok BGe = TkGeq" | "bin_tok BLt = TkLt" | "bin_tok BGt = TkGt" | "bin_tok BEq = TkEqEq"
| "bin_tok BNe = TkNeq" | "bin_tok BAnd = TkBAnd" | "bin_tok BXor = TkBXor" | "bin_tok BOr = TkBOr"

fun assign_text :: "assign_op \<Rightarrow> bytes" where
  "assign_text AMul = ''*=''" | "assign_text ADiv = ''/=''" | "assign_text AMod = ''%=''" | "assign_text APlus = ''+=''"
| "assign_text AMinus = ''-=''" | "assign_text ALsh = ''<<=''" | "assign_text ARsh = ''>>=''" | "assign_text ABAnd = ''&=''"
| "assign_text ABXor = ''^=''" | "assign_text ABOr = ''|=''"

fun tok_text :: "tok \<Rightarrow> bytes" where
  "tok_text TkEq = ''=''" | "tok_text TkGt = ''>''" | "tok_text TkLt = ''<''" | "tok_text TkPlus = ''+''"
| "tok_text TkMinus = ''-''" | "tok_text TkMul = ''*''" | "tok_text TkDiv = ''/''" | "tok_text TkMod = ''%''"
| "tok_text TkNot = ''!''" | "tok_text TkLPar = ''(''" | "tok_text TkRPar = '')''" | "tok_text TkBAnd = ''&''"
| "tok_text TkBOr = ''|''" | "tok_text TkBXor = ''^''" | "tok_text TkBNot = ''~''" | "tok_text TkQues = ''?''"
| "tok_text TkCol = '':''" | "tok_text TkComma = '',''" | "tok_text TkEqEq = ''==''" | "tok_text TkNeq = ''!=''"
| "tok_text TkLeq = ''<=''" | "tok_text TkGeq = ''>=''" | "tok_text TkLAnd = ''&&''" | "tok_text TkLOr = ''||''"
| "tok_text TkLsh = ''<<''" | "tok_text TkRsh = ''>>''" | "tok_text (TkOpAssign op) = assign_text op"
| "tok_text TkPower = ''**''" | "tok_text _ = []"

text \<open>Every operation is printed in parentheses, so the text shows the tree.\<close>

fun print_exp :: "aexp \<Rightarrow> bytes" and print_inner :: "aexp \<Rightarrow> bytes" where
  "print_exp (Lit n) = show_nat n"
| "print_exp (Var x) = x"
| "print_exp e = ''('' @ print_inner e @ '')''"
| "print_inner (Lit n) = []"
| "print_inner (Var x) = []"
| "print_inner (Op1 op e) = tok_text (un_tok op) @ print_exp e"
| "print_inner (Op2 op a b) = print_exp a @ tok_text (bin_tok op) @ print_exp b"
| "print_inner (Pow a n) = print_exp a @ ''**'' @ show_nat n"
| "print_inner (LAnd a b) = print_exp a @ ''&&'' @ print_exp b"
| "print_inner (LOr a b) = print_exp a @ ''||'' @ print_exp b"
| "print_inner (If c a b) = print_exp c @ ''?'' @ print_exp a @ '':'' @ print_exp b"
| "print_inner (Set x op e) = x @ tok_text (case op of None \<Rightarrow> TkEq | Some op \<Rightarrow> TkOpAssign op) @ print_exp e"
| "print_inner (Seq a b) = print_exp a @ '','' @ print_exp b"

section \<open>What an expression means\<close>

definition bin_value :: "binop \<Rightarrow> i64 \<Rightarrow> i64 \<Rightarrow> i64 option" where
  "bin_value op x y =
     (case op of
        BMul \<Rightarrow> Some (x * y)
      | BDiv \<Rightarrow> if y = 0 then None else Some (divide x y)
      | BMod \<Rightarrow> if y = 0 then None else Some (remainder x y)
      | BAdd \<Rightarrow> Some (x + y) | BSub \<Rightarrow> Some (x - y)
      | BShl \<Rightarrow> Some (shift_left x y) | BShr \<Rightarrow> Some (shift_right x y)
      | BLe \<Rightarrow> Some (of_bool_i64 (sint x \<le> sint y)) | BGe \<Rightarrow> Some (of_bool_i64 (sint x \<ge> sint y))
      | BLt \<Rightarrow> Some (of_bool_i64 (sint x < sint y)) | BGt \<Rightarrow> Some (of_bool_i64 (sint x > sint y))
      | BEq \<Rightarrow> Some (of_bool_i64 (x = y)) | BNe \<Rightarrow> Some (of_bool_i64 (x \<noteq> y))
      | BAnd \<Rightarrow> Some (x AND y) | BXor \<Rightarrow> Some (x XOR y) | BOr \<Rightarrow> Some (x OR y))"

definition un_value :: "unop \<Rightarrow> i64 \<Rightarrow> i64" where
  "un_value op x = (case op of UNot \<Rightarrow> of_bool_i64 (x = 0) | UBNot \<Rightarrow> NOT x | UMinus \<Rightarrow> - x | UPlus \<Rightarrow> x)"

definition var_value :: "'v variables \<Rightarrow> 'v \<Rightarrow> bytes \<Rightarrow> i64 option" where
  "var_value ops v x =
     (case v_get ops v x of
        None \<Rightarrow> Some 0
      | Some t \<Rightarrow> (case arith_constant t of Inl _ \<Rightarrow> None | Inr w \<Rightarrow> Some w))"

text \<open>The value and the variables after; \<open>None\<close> where there is no value. \<open>&&\<close>, \<open>||\<close> and \<open>?:\<close> evaluate
  only the operands that C would.\<close>

fun exp_value :: "'v variables \<Rightarrow> aexp \<Rightarrow> 'v \<Rightarrow> (i64 \<times> 'v) option" where
  "exp_value ops (Lit n) v = Some (of_nat n, v)"
| "exp_value ops (Var x) v = map_option (\<lambda>w. (w, v)) (var_value ops v x)"
| "exp_value ops (Op1 op e) v = map_option (\<lambda>(x, v). (un_value op x, v)) (exp_value ops e v)"
| "exp_value ops (Op2 op a b) v =
     (case exp_value ops a v of None \<Rightarrow> None
      | Some (x, v) \<Rightarrow> (case exp_value ops b v of None \<Rightarrow> None
          | Some (y, v) \<Rightarrow> map_option (\<lambda>z. (z, v)) (bin_value op x y)))"
| "exp_value ops (Pow a n) v = map_option (\<lambda>(x, v). (x ^ n, v)) (exp_value ops a v)"
| "exp_value ops (LAnd a b) v =
     (case exp_value ops a v of None \<Rightarrow> None
      | Some (x, v) \<Rightarrow> if x = 0 then Some (0, v)
          else map_option (\<lambda>(y, v). (of_bool_i64 (y \<noteq> 0), v)) (exp_value ops b v))"
| "exp_value ops (LOr a b) v =
     (case exp_value ops a v of None \<Rightarrow> None
      | Some (x, v) \<Rightarrow> if x \<noteq> 0 then Some (1, v)
          else map_option (\<lambda>(y, v). (of_bool_i64 (y \<noteq> 0), v)) (exp_value ops b v))"
| "exp_value ops (If c a b) v =
     (case exp_value ops c v of None \<Rightarrow> None
      | Some (x, v) \<Rightarrow> if x \<noteq> 0 then exp_value ops a v else exp_value ops b v)"
| "exp_value ops (Set x None e) v = map_option (\<lambda>(y, v). (y, v_set ops v x y)) (exp_value ops e v)"
| "exp_value ops (Set x (Some op) e) v =
     (case var_value ops v x of None \<Rightarrow> None
      | Some l \<Rightarrow> (case exp_value ops e v of None \<Rightarrow> None
          | Some (y, v) \<Rightarrow> if (op = ADiv \<or> op = AMod) \<and> y = 0 then None
              else Some (apply_op op l y, v_set ops v x (apply_op op l y))))"
| "exp_value ops (Seq a b) v =
     (case exp_value ops a v of None \<Rightarrow> None | Some (x, v) \<Rightarrow> exp_value ops b v)"

definition is_name :: "bytes \<Rightarrow> bool" where
  "is_name x \<longleftrightarrow> x \<noteq> [] \<and> is_name_start (hd x) \<and> list_all is_name_char x"

text \<open>Names that can be read, exponents that are not negative numbers.\<close>

fun exp_ok :: "aexp \<Rightarrow> bool" where
  "exp_ok (Lit n) \<longleftrightarrow> True"
| "exp_ok (Var x) \<longleftrightarrow> is_name x"
| "exp_ok (Op1 op e) \<longleftrightarrow> exp_ok e"
| "exp_ok (Op2 op a b) \<longleftrightarrow> exp_ok a \<and> exp_ok b"
| "exp_ok (Pow a n) \<longleftrightarrow> exp_ok a \<and> n < 2 ^ 63"
| "exp_ok (LAnd a b) \<longleftrightarrow> exp_ok a \<and> exp_ok b"
| "exp_ok (LOr a b) \<longleftrightarrow> exp_ok a \<and> exp_ok b"
| "exp_ok (If c a b) \<longleftrightarrow> exp_ok c \<and> exp_ok a \<and> exp_ok b"
| "exp_ok (Set x op e) \<longleftrightarrow> is_name x \<and> exp_ok e"
| "exp_ok (Seq a b) \<longleftrightarrow> exp_ok a \<and> exp_ok b"

fun exp_height :: "aexp \<Rightarrow> nat" where
  "exp_height (Lit n) = 0"
| "exp_height (Var x) = 0"
| "exp_height (Op1 op e) = Suc (exp_height e)"
| "exp_height (Op2 op a b) = Suc (max (exp_height a) (exp_height b))"
| "exp_height (Pow a n) = Suc (exp_height a)"
| "exp_height (LAnd a b) = Suc (max (exp_height a) (exp_height b))"
| "exp_height (LOr a b) = Suc (max (exp_height a) (exp_height b))"
| "exp_height (If c a b) = Suc (max (exp_height c) (max (exp_height a) (exp_height b)))"
| "exp_height (Set x op e) = Suc (exp_height e)"
| "exp_height (Seq a b) = Suc (max (exp_height a) (exp_height b))"

section \<open>Reading the tokens of the text\<close>

definition rest :: "'v evaluator \<Rightarrow> bytes" where
  "rest s = drop (tp s) (expression s)"

definition item_char :: "byte \<Rightarrow> bool" where
  "item_char c \<longleftrightarrow> is_ascii_digit c \<or> is_name_start c \<or> c = CHR ''(''"

lemma item_char_not:
  assumes "item_char c"
  shows "c \<notin> set ''=<>&|*+-!~,?:)/%^''" "\<not> is_blank c"
proof -
  have "c \<notin> set ''=<>&|*+-!~,?:)/%^'' \<and> \<not> is_blank c"
    using assms by (auto simp: item_char_def is_ascii_digit_def is_name_start_def is_ascii_alphabetic_def
      is_ascii_lower_def is_ascii_upper_def less_eq_char_def is_blank_def)
  then show "c \<notin> set ''=<>&|*+-!~,?:)/%^''" "\<not> is_blank c" by blast+
qed

text \<open>The token \<open>t\<close> is first in a text, and what comes after it cannot be taken for a part of it.\<close>

definition starts :: "tok \<Rightarrow> bytes \<Rightarrow> bool" where
  "starts t post \<longleftrightarrow> tok_text t \<noteq> [] \<and> (\<exists>r. post = tok_text t @ r \<and> (t \<in> {TkLPar, TkRPar} \<or> r \<noteq> [] \<and> item_char (hd r)))"

lemma get_drop: "get (drop i e) j = get e (i + j)"
  by (auto simp: get_def)

lemma get_Cons: "get (x # xs) 0 = Some x" "get (x # xs) (Suc n) = get xs n"
  by (simp_all add: get_def)

lemma operator_token_text:
  assumes "drop cp (expression s) = tok_text t @ r" "tok_text t \<noteq> []" "t \<in> {TkLPar, TkRPar} \<or> r \<noteq> [] \<and> item_char (hd r)"
  shows "operator_token s (hd (tok_text t)) (cp + 1) = Inr (t, cp + length (tok_text t))"
proof -
  have g: "get (expression s) (cp + 1) = get (tok_text t @ r) 1" "get (expression s) (cp + 1 + 1) = get (tok_text t @ r) 2"
    using get_drop [of cp "expression s" 1] get_drop [of cp "expression s" 2] assms(1) by simp_all
  have h: "get r 0 \<noteq> Some d" if "d \<in> set ''=<>&|*+-''" "t \<notin> {TkLPar, TkRPar}" for d
    using that assms(3) item_char_not(1) [of "hd r"] by (cases r) (auto simp: get_Cons)
  note h = h [of "CHR ''=''"] h [of "CHR ''<''"] h [of "CHR ''>''"] h [of "CHR ''&''"] h [of "CHR ''|''"] h [of "CHR ''*''"]
    h [of "CHR ''+''"] h [of "CHR ''-''"]
  show ?thesis
    unfolding operator_token_def Let_def g
    using assms(2) h
    apply (cases t)
    apply (simp_all add: get_Cons from_byte_def one_char_token_def numeral_2_eq_2)
    subgoal for op by (cases op) (simp_all add: get_Cons from_byte_def one_char_token_def numeral_2_eq_2)
    done
qed

definition follow :: "tok \<Rightarrow> bytes \<Rightarrow> bool" where
  "follow t post \<longleftrightarrow> starts t post \<or> t = TkEnd \<and> post = []"

definition kept :: "'v evaluator \<Rightarrow> 'v evaluator \<Rightarrow> bool" where
  "kept s s' \<longleftrightarrow> framed s s' \<and> peeking s' = peeking s \<and> in_text s'"

lemma kept_read: "in_text s \<Longrightarrow> readtok ops s = (r, s') \<Longrightarrow> kept s s'"
  using readtok_read [of s ops] by (simp add: kept_def token_read_def)

lemma tok_text_hd: "tok_text t \<noteq> [] \<Longrightarrow> \<not> is_blank (hd (tok_text t)) \<and> \<not> is_number_char (hd (tok_text t)) \<and>
    \<not> is_name_char (hd (tok_text t)) \<and> \<not> is_ascii_digit (hd (tok_text t)) \<and> \<not> is_name_start (hd (tok_text t))"
proof -
  have c: "\<not> is_blank c \<and> \<not> is_number_char c \<and> \<not> is_name_char c \<and> \<not> is_ascii_digit c \<and> \<not> is_name_start c"
    if "c \<in> set ''=<>+-*/%!()&|^~?:,''" for c
    using that by (auto simp: is_blank_def is_number_char_def is_name_char_def is_name_start_def is_ascii_alphanumeric_def
      is_ascii_alphabetic_def is_ascii_lower_def is_ascii_upper_def is_ascii_digit_def less_eq_char_def)
  assume "tok_text t \<noteq> []"
  then have "hd (tok_text t) \<in> set ''=<>+-*/%!()&|^~?:,''"
    by (cases t; simp; cases "case t of TkOpAssign op \<Rightarrow> op"; simp)
  then show ?thesis by (rule c)
qed

lemma follow_hd: "follow t post \<Longrightarrow> post \<noteq> [] \<Longrightarrow> \<not> is_blank (hd post) \<and> \<not> is_number_char (hd post) \<and>
    \<not> is_name_char (hd post) \<and> \<not> is_ascii_digit (hd post) \<and> \<not> is_name_start (hd post)"
  using tok_text_hd [of t] by (auto simp: follow_def starts_def)

lemma skip_while_stops:
  assumes "drop i e = xs @ post" "list_all p xs" "post = [] \<or> \<not> p (hd post)"
  shows "skip_while p e i = i + length xs"
proof -
  have "takeWhile p post = []" using assms(3) by (cases post) auto
  then have "takeWhile p (xs @ post) = xs" using assms(2) by (simp add: takeWhile_append2 list_all_iff)
  then show ?thesis by (simp add: skip_while_def assms(1))
qed

lemma drop_after:
  assumes "drop i e = xs @ post"
  shows "drop (i + length xs) e = post" and "i \<le> length e \<Longrightarrow> i + length xs \<le> length e"
proof -
  have "drop (length xs) (drop i e) = post" by (simp add: assms)
  then show "drop (i + length xs) e = post" by (simp only: drop_drop add.commute)
  have "length e - i = length xs + length post" using arg_cong [OF assms, of length] by simp
  then show "i \<le> length e \<Longrightarrow> i + length xs \<le> length e" by simp
qed

lemma at_token_rest:
  assumes "rest s \<noteq> []" "\<not> is_blank (hd (rest s))"
  shows "at_token s = tp s" "get (expression s) (at_token s) = Some (hd (rest s))"
proof -
  show a: "at_token s = tp s"
    using skip_while_stops [of "tp s" "expression s" "[]" "rest s" is_blank] assms by (simp add: at_token_def rest_def)
  show "get (expression s) (at_token s) = Some (hd (rest s))"
    using assms(1) by (auto simp: a get_def rest_def hd_drop_conv_nth)
qed

lemma read_tok:
  assumes "in_text s" "starts t (rest s)"
  shows "\<exists>s1. readtok ops s = (Inr (), s1) \<and> kept s s1 \<and> curtok s1 = t \<and> lasttok s1 = curtok s \<and>
    rest s1 = drop (length (tok_text t)) (rest s) \<and> tokstr s1 = tokstr s"
proof -
  obtain r where r: "rest s = tok_text t @ r" "tok_text t \<noteq> []" "t \<in> {TkLPar, TkRPar} \<or> r \<noteq> [] \<and> item_char (hd r)"
    using assms(2) by (auto simp: starts_def)
  let ?c = "hd (tok_text t)"
  have hd: "hd (rest s) = ?c" "rest s \<noteq> []" using r by auto
  have c: "\<not> is_blank ?c" "\<not> is_ascii_digit ?c" "\<not> is_name_start ?c" using tok_text_hd [OF r(2)] by auto
  note a = at_token_rest [OF hd(2), unfolded hd(1), OF c(1)]
  have "operator_token (s\<lparr>tp := at_token s, lasttp := at_token s\<rparr>) ?c (at_token s + 1) = Inr (t, at_token s + length (tok_text t))"
    using r by (intro operator_token_text) (simp_all add: a(1) rest_def)
  then have "readtok ops s = (Inr (), s\<lparr>tp := tp s + length (tok_text t), lasttp := tp s, lasttok := curtok s, curtok := t\<rparr>)"
    unfolding readtok_operator [OF a(2) c(2,3)] by (simp add: Let_def a(1))
  then show ?thesis using kept_read [OF assms(1)]
    by (auto simp: rest_def add.commute)
qed

lemma read_follow:
  assumes "in_text s" "follow t (rest s)"
  shows "\<exists>s1. readtok ops s = (Inr (), s1) \<and> kept s s1 \<and> curtok s1 = t \<and> lasttok s1 = curtok s \<and>
    rest s1 = drop (length (tok_text t)) (rest s) \<and> tokstr s1 = tokstr s"
proof (cases "starts t (rest s)")
  case False
  then have t: "t = TkEnd" "rest s = []" using assms(2) by (auto simp: follow_def)
  then have "length (expression s) \<le> tp s" by (simp add: rest_def)
  then have "at_token s = tp s" "get (expression s) (at_token s) = None"
    by (simp_all add: at_token_def skip_while_def get_def)
  then have "readtok ops s = (Inr (), s\<lparr>lasttok := curtok s, curtok := TkEnd, tp := tp s\<rparr>)"
    using readtok_end [of s ops] by simp
  then show ?thesis using kept_read [OF assms(1)] t by (auto simp: rest_def)
qed (use read_tok [OF assms(1)] in blast)

lemma read_num:
  assumes "in_text s" "rest s = show_nat n @ post" "follow t post"
  shows "\<exists>s1. readtok ops s = (Inr (), s1) \<and> kept s s1 \<and> curtok s1 = TkNum \<and> tokval s1 = of_nat n \<and>
    lasttok s1 = curtok s \<and> rest s1 = post \<and> tokstr s1 = tokstr s"
proof -
  obtain c u where c: "show_nat n = c # u" by (cases "show_nat n") auto
  then have d: "is_ascii_digit c" "list_all is_number_char u"
    using show_nat_digits [of _ n] digit_arith by (auto simp: list_all_iff)
  have hd: "hd (rest s) = c" "rest s \<noteq> []" "\<not> is_blank c" using assms(2) c digit_arith [OF d(1)] by auto
  note a = at_token_rest [OF hd(2), unfolded hd(1), OF hd(3)]
  have e: "drop (tp s) (expression s) = show_nat n @ post" using assms(2) by (simp add: rest_def)
  then have "drop (tp s + 1) (expression s) = u @ post" by (simp add: c drop_Suc drop_tl flip: drop_drop)
  moreover have "post = [] \<or> \<not> is_number_char (hd post)" using follow_hd [OF assms(3)] by blast
  ultimately have k: "skip_while is_number_char (expression s) (at_token s + 1) = tp s + length (show_nat n)"
    using skip_while_stops [of "tp s + 1" "expression s" u post is_number_char] d(2) a(1) c by simp
  have "range_of (expression s) (tp s) (tp s + length (show_nat n)) = show_nat n"
    using e by (simp add: range_of_def)
  then have "strlong (s\<lparr>tp := at_token s, lasttp := at_token s\<rparr>) (tp s + length (show_nat n)) = Inr (of_nat n)"
    by (simp add: strlong_def a(1) parse_number_show)
  then have "readtok ops s = (Inr (), s\<lparr>tp := tp s + length (show_nat n), lasttp := tp s, tokval := of_nat n, lasttok := curtok s, curtok := TkNum\<rparr>)"
    unfolding readtok_number [OF a(2) d(1) k [symmetric]] by (simp add: Let_def a(1))
  moreover have "drop (tp s + length (show_nat n)) (expression s) = post" by (rule drop_after(1) [OF e])
  ultimately show ?thesis using kept_read [OF assms(1)] by (auto simp: rest_def)
qed

lemma name_of_frame [simp]: "framed s s' \<Longrightarrow> name_of s' n = name_of s n"
  by (simp add: name_of_def framed_def)

lemma read_name:
  assumes s: "in_text s" "\<not> peeking s" "rest s = x @ post" "is_name x" "follow t post"
    and calm: "lasttok s \<notin> {TkPreInc, TkPreDec}"
    and w: "t \<noteq> TkEq \<Longrightarrow> noeval s = 0 \<Longrightarrow> var_value ops (vars s) x = Some w"
  shows "\<exists>s1 nm. readtok ops s = (Inr (), s1) \<and> kept s s1 \<and> curtok s1 = TkStr \<and> lasttok s1 = curtok s \<and>
    rest s1 = post \<and> tokstr s1 = Some nm \<and> name_of s1 nm = x \<and> (t \<noteq> TkEq \<longrightarrow> noeval s = 0 \<longrightarrow> tokval s1 = w)"
proof -
  obtain c u where c: "x = c # u" "is_name_start c" "list_all is_name_char u"
    using s(4) by (cases x) (auto simp: is_name_def)
  have nb: "\<not> is_blank c"
    using c(2) by (auto simp: is_blank_def is_name_start_def is_ascii_alphabetic_def is_ascii_lower_def is_ascii_upper_def less_eq_char_def)
  have hd: "hd (rest s) = c" "rest s \<noteq> []" using s(3) c by auto
  note a = at_token_rest [OF hd(2), unfolded hd(1), OF nb]
  have e: "drop (tp s) (expression s) = x @ post" using s(3) by (simp add: rest_def)
  then have "drop (tp s + 1) (expression s) = u @ post" by (simp add: c drop_Suc drop_tl flip: drop_drop)
  moreover have "post = [] \<or> \<not> is_name_char (hd post)" using follow_hd [OF s(5)] by blast
  ultimately have k: "tp s + length x = skip_while is_name_char (expression s) (at_token s + 1)"
    using skip_while_stops [of "tp s + 1" "expression s" u post is_name_char] c a(1) by simp
  have post: "drop (tp s + length x) (expression s) = post" by (rule drop_after(1) [OF e])
  have len: "tp s + length x \<le> length (expression s)"
    using drop_after(2) [OF e] s(1) by (simp add: in_text_def)
  let ?a = "s\<lparr>lasttp := at_token s, tp := tp s + length x, curtok := TkStr\<rparr>"
  have "in_text (?a\<lparr>peeking := True\<rparr>)" "follow t (rest (?a\<lparr>peeking := True\<rparr>))"
    using s(1,5) len post by (auto simp: in_text_def a(1) rest_def)
  from read_follow [OF this, of ops] obtain b where b: "readtok ops (?a\<lparr>peeking := True\<rparr>) = (Inr (), b)"
    "kept (?a\<lparr>peeking := True\<rparr>) b" "curtok b = t" by blast
  let ?b = "b\<lparr>peeking := False\<rparr>"
  have ahead: "readtok_ahead ops ?a = (Inr (), ?b)" by (simp add: readtok_ahead.simps b(1))
  have fb: "framed s ?b" using b(2) by (simp add: kept_def framed_def)
  let ?c = "restore (save (s\<lparr>tp := at_token s, lasttp := at_token s\<rparr>)) ?b"
  let ?d = "?c\<lparr>tokstr := Some (at_token s, tp s + length x)\<rparr>"
  have fd: "framed s ?d" using fb by (simp add: framed_def)
  have nm: "name_of s (at_token s, tp s + length x) = x"
    using e by (simp add: name_of_def range_of_def a(1))
  obtain w' where w': "(if lasttok ?d = TkPreInc \<or> lasttok ?d = TkPreDec \<or> curtok ?b \<noteq> TkEq
      then variable ops ?d (at_token s, tp s + length x) else Inr 0) = Inr w'" "t \<noteq> TkEq \<longrightarrow> noeval s = 0 \<longrightarrow> w' = w"
  proof (cases "t \<noteq> TkEq \<and> noeval s = 0")
    case True
    then have "variable ops ?d (at_token s, tp s + length x) = Inr w"
    proof -
      have "vars ?d = vars s" "noeval ?d = 0" "name_of ?d (at_token s, tp s + length x) = x"
        using fd True nm by (simp_all add: framed_def name_of_def)
      moreover have "var_value ops (vars s) x = Some w" using w True by simp
      ultimately show ?thesis
        unfolding variable_def var_value_def by (simp split: option.splits sum.splits)
    qed
    then show ?thesis using that True b(3) by simp
  next
    case False
    moreover have "noeval ?d = noeval s" using fd by (simp add: framed_def)
    ultimately have "t = TkEq \<or> variable ops ?d (at_token s, tp s + length x) = Inr 0"
      unfolding variable_def by auto
    moreover have "lasttok ?d = lasttok s" "curtok ?b = t" using b(3) by simp_all
    ultimately show ?thesis using that [of 0] False calm by auto
  qed
  have r: "readtok ops s = (Inr (), ?d\<lparr>tokval := w', lasttok := curtok s, curtok := TkStr, tp := tp s + length x\<rparr>)"
    unfolding readtok_name [OF a(2) c(2) s(2) k] ahead using w'(1) by (simp add: Let_def)
  then show ?thesis using kept_read [OF s(1) r] fd nm post w'(2)
    by (auto simp: rest_def framed_def name_of_def)
qed

section \<open>The levels of the grammar\<close>

definition rule_at ::
  "'v variables \<Rightarrow> ('v evaluator \<Rightarrow> bool) \<Rightarrow> (level \<Rightarrow> 'v parser) \<Rightarrow> nat \<Rightarrow> nat \<Rightarrow> 'v parser" where
  "rule_at ops safe rec n i =
     [expunary ops safe rec, exppower ops safe rec n, expmuldiv ops safe rec n, expadd ops safe rec n,
      expshift ops safe rec n, expcompare ops safe rec n, expequal ops safe rec n, expband ops safe rec n,
      expbxor ops safe rec n, expbor ops safe rec n, expland ops safe rec n, explor ops safe rec n,
      expcond ops safe rec n, expassign ops safe rec n, expcomma ops safe rec n] ! i"

fun tok_level :: "tok \<Rightarrow> nat" where
  "tok_level TkPower = 1" | "tok_level TkMul = 2" | "tok_level TkDiv = 2" | "tok_level TkMod = 2"
| "tok_level TkPlus = 3" | "tok_level TkMinus = 3" | "tok_level TkLsh = 4" | "tok_level TkRsh = 4"
| "tok_level TkLeq = 5" | "tok_level TkGeq = 5" | "tok_level TkLt = 5" | "tok_level TkGt = 5"
| "tok_level TkEqEq = 6" | "tok_level TkNeq = 6" | "tok_level TkBAnd = 7" | "tok_level TkBXor = 8"
| "tok_level TkBOr = 9" | "tok_level TkLAnd = 10" | "tok_level TkLOr = 11" | "tok_level TkQues = 12"
| "tok_level TkEq = 13" | "tok_level (TkOpAssign op) = 13" | "tok_level TkComma = 14" | "tok_level _ = 15"

lemma and_then_Inr [simp]: "and_then (Some (Inr v, s)) f = f v s"
  by (simp add: and_then_def)

lemma then_do_Inr [simp]: "then_do (Inr u, s) f = f s"
  by (simp add: then_do_def)

lemma loops_stop:
  "tok_level (curtok s) > 1 \<Longrightarrow> exppower_loop ops safe rec (Suc m) v s = ok v s"
  "tok_level (curtok s) > 2 \<Longrightarrow> expmuldiv_loop ops p (Suc m) v s = ok v s"
  "curtok s \<notin> toks \<Longrightarrow> binary_loop ops toks f p (Suc m) v s = ok v s"
  "tok_level (curtok s) > 10 \<Longrightarrow> expland_loop ops p (Suc m) v s = ok v s"
  "tok_level (curtok s) > 11 \<Longrightarrow> explor_loop ops p (Suc m) v s = ok v s"
  "tok_level (curtok s) > 14 \<Longrightarrow> expcomma_loop ops p (Suc m) v s = ok v s"
  by (auto simp: Let_def)

text \<open>Each rule is its operand, the rule before it, and a loop.\<close>

lemma rule_at_unfold:
  "rule_at ops safe rec n 0 = expunary ops safe rec"
  "rule_at ops safe rec n 1 = (\<lambda>s. and_then (rule_at ops safe rec n 0 s) (exppower_loop ops safe rec n))"
  "rule_at ops safe rec n 2 = (\<lambda>s. and_then (rule_at ops safe rec n 1 s) (expmuldiv_loop ops (rule_at ops safe rec n 1) n))"
  "rule_at ops safe rec n 10 = (\<lambda>s. and_then (rule_at ops safe rec n 9 s) (expland_loop ops (rule_at ops safe rec n 9) n))"
  "rule_at ops safe rec n 11 = (\<lambda>s. and_then (rule_at ops safe rec n 10 s) (explor_loop ops (rule_at ops safe rec n 10) n))"
  "rule_at ops safe rec n 14 = (\<lambda>s. and_then (rule_at ops safe rec n 13 s) (expcomma_loop ops (rule_at ops safe rec n 13) n))"
  by (simp_all add: rule_at_def fun_eq_iff exppower_def expmuldiv_def expland_def explor_def expcomma_def)

fun level_toks :: "nat \<Rightarrow> tok set" where
  "level_toks i = (if i = 3 then {TkPlus, TkMinus} else if i = 4 then {TkLsh, TkRsh} else if i = 5 then {TkLeq, TkGeq, TkLt, TkGt}
     else if i = 6 then {TkEqEq, TkNeq} else if i = 7 then {TkBAnd} else if i = 8 then {TkBXor} else {TkBOr})"

definition level_apply :: "nat \<Rightarrow> tok \<Rightarrow> i64 \<Rightarrow> i64 \<Rightarrow> i64" where
  "level_apply i =
     (if i = 3 then (\<lambda>op val1 val2. if op = TkPlus then val1 + val2 else val1 - val2)
      else if i = 4 then (\<lambda>op val1 val2. if op = TkLsh then shift_left val1 val2 else shift_right val1 val2)
      else if i = 5 then (\<lambda>op val1 val2. of_bool_i64
             (case op of TkLeq \<Rightarrow> sint val1 \<le> sint val2 | TkGeq \<Rightarrow> sint val1 \<ge> sint val2
                | TkLt \<Rightarrow> sint val1 < sint val2 | _ \<Rightarrow> sint val1 > sint val2))
      else if i = 6 then (\<lambda>op val1 val2. of_bool_i64 (if op = TkEqEq then val1 = val2 else val1 \<noteq> val2))
      else if i = 7 then (\<lambda>op val1 val2. val1 AND val2)
      else if i = 8 then (\<lambda>op val1 val2. val1 XOR val2) else (\<lambda>op val1 val2. val1 OR val2))"

lemma rule_at_binary:
  "k \<in> {2, 3, 4, 5, 6, 7, 8} \<Longrightarrow> rule_at ops safe rec n (Suc k) =
    (\<lambda>s. and_then (rule_at ops safe rec n k s) (binary_loop ops (level_toks (Suc k)) (level_apply (Suc k)) (rule_at ops safe rec n k) n))"
  by (elim insertE emptyE) (simp_all add: rule_at_def level_apply_def fun_eq_iff expadd_def expshift_def expcompare_def expequal_def
      expband_def expbxor_def expbor_def)

lemma level_toks_level: "t \<in> level_toks k \<Longrightarrow> k \<in> {3, 4, 5, 6, 7, 8, 9} \<Longrightarrow> tok_level t = k"
  by (auto split: if_splits)

lemma rule_step:
  assumes "rule_at ops safe rec n i s = Some (Inr w, s')" "Suc i < tok_level (curtok s')" "i < 14" "0 < n"
  shows "rule_at ops safe rec n (Suc i) s = Some (Inr w, s')"
proof -
  obtain m where n: "n = Suc m" using assms(4) by (cases n) auto
  consider "i = 0" | "i = 1" | "i \<in> {2, 3, 4, 5, 6, 7, 8}" | "i = 9" | "i = 10" | "i = 11" | "i = 12" | "i = 13"
  proof -
    have "i = 0 \<or> i = 1 \<or> (i = 2 \<or> i = 3 \<or> i = 4 \<or> i = 5 \<or> i = 6 \<or> i = 7 \<or> i = 8) \<or> i = 9 \<or> i = 10 \<or> i = 11 \<or> i = 12 \<or> i = 13"
      using assms(3) by presburger
    then show ?thesis using that by blast
  qed
  then show ?thesis
  proof cases
    case 1
    then show ?thesis using assms rule_at_unfold(2) [of ops safe rec n] loops_stop(1) [of s'] by (simp add: n ok_def del: exppower_loop.simps)
  next
    case 2
    then show ?thesis using assms rule_at_unfold(3) [of ops safe rec n] loops_stop(2) [of s'] by (simp add: n ok_def numeral_2_eq_2 del: expmuldiv_loop.simps)
  next
    case 3
    then have t: "curtok s' \<notin> level_toks (Suc i)"
      using level_toks_level [of "curtok s'" "Suc i"] assms(2) by (auto simp del: level_toks.simps)
    then show ?thesis using assms(1) 3
      by (simp only: rule_at_binary n and_then_Inr loops_stop(3) [OF t] ok_def)
  next
    case 4
    then show ?thesis using assms rule_at_unfold(4) [of ops safe rec n] loops_stop(4) [of s'] by (simp add: n ok_def del: expland_loop.simps)
  next
    case 5
    then show ?thesis using assms rule_at_unfold(5) [of ops safe rec n] loops_stop(5) [of s'] by (simp add: n ok_def del: explor_loop.simps)
  next
    case 6
    then have "curtok s' \<noteq> TkQues" using assms(2) by auto
    moreover have "explor ops safe rec n s = Some (Inr w, s')" using assms(1) 6 by (simp add: rule_at_def)
    ultimately show ?thesis using 6 by (simp add: rule_at_def expcond_def ok_def)
  next
    case 7
    have "expcond ops safe rec n s = Some (Inr w, s')" using assms(1) 7 by (simp add: rule_at_def)
    then show ?thesis using 7 assms(2) by (cases "curtok s'") (simp_all add: rule_at_def expassign_def ok_def)
  next
    case 8
    then show ?thesis using assms rule_at_unfold(6) [of ops safe rec n] loops_stop(6) [of s'] by (simp add: n ok_def del: expcomma_loop.simps)
  qed
qed

lemma rule_climb:
  assumes "rule_at ops safe rec n i s = Some (Inr w, s')" "i \<le> j" "j < tok_level (curtok s')" "j \<le> 14" "0 < n"
  shows "rule_at ops safe rec n j s = Some (Inr w, s')"
  using assms(2,3,4)
proof (induction j rule: dec_induct)
  case base
  then show ?case using assms(1) by simp
next
  case (step j)
  then show ?case using rule_step [of ops safe rec n j s w s'] assms(5) by simp
qed

lemma rule_expr:
  "expr ops safe (Suc n) Comma = rule_at ops safe (expr ops safe n) n 14"
  "expr ops safe (Suc n) Assign = rule_at ops safe (expr ops safe n) n 13"
  "expr ops safe (Suc n) Cond = rule_at ops safe (expr ops safe n) n 12"
  "expr ops safe (Suc n) Power = rule_at ops safe (expr ops safe n) n 1"
  "expr ops safe (Suc n) Unary = rule_at ops safe (expr ops safe n) n 0"
  by (simp_all add: rule_at_def fun_eq_iff)

section \<open>Items\<close>

definition calm :: "'v evaluator \<Rightarrow> bool" where
  "calm s \<longleftrightarrow> curtok s \<notin> {TkPreInc, TkPreDec} \<and> lasttok s \<notin> {TkPreInc, TkPreDec}"

text \<open>The first token of an expression has just been read.\<close>

definition first :: "'v variables \<Rightarrow> 'v evaluator \<Rightarrow> aexp \<Rightarrow> bytes \<Rightarrow> bool" where
  "first ops s e post \<longleftrightarrow>
     (case e of
        Lit n \<Rightarrow> curtok s = TkNum \<and> tokval s = of_nat n \<and> rest s = post
      | Var x \<Rightarrow> curtok s = TkStr \<and> rest s = post \<and>
          (noeval s = 0 \<longrightarrow> var_value ops (vars s) x = Some (tokval s))
      | _ \<Rightarrow> curtok s = TkLPar \<and> rest s = print_inner e @ '')'' @ post)"

text \<open>The expression has been read, and the token \<open>t\<close> after it.\<close>

definition reach :: "'v variables \<Rightarrow> 'v evaluator \<Rightarrow> aexp \<Rightarrow> tok \<Rightarrow> bytes \<Rightarrow> i64 \<Rightarrow> 'v evaluator \<Rightarrow> bool" where
  "reach ops s e t post w s' \<longleftrightarrow>
     expression s' = expression s \<and> noeval s' = noeval s \<and> depth s' = depth s \<and> good s' \<and> calm s' \<and>
     curtok s' = t \<and> rest s' = drop (length (tok_text t)) post \<and>
     (if noeval s = 0 then exp_value ops e (vars s) = Some (w, vars s') else vars s' = vars s) \<and>
     (\<forall>n. e = Lit n \<longrightarrow> w = of_nat n)"

lemma first_depth [simp]: "first ops (s\<lparr>depth := d\<rparr>) e post = first ops s e post"
  by (simp add: first_def rest_def split: aexp.split)

lemma rest_simps [simp]: "rest (s\<lparr>depth := d\<rparr>) = rest s" "rest (s\<lparr>noeval := k\<rparr>) = rest s" "rest (s\<lparr>lasttok := t\<rparr>) = rest s"
  "rest (leave s) = rest s" "rest (s\<lparr>tokstr := x\<rparr>) = rest s" "rest (assign ops nm w s) = rest s"
  by (simp_all add: rest_def)

lemma calm_simps [simp]: "calm (s\<lparr>depth := d\<rparr>) = calm s" "calm (s\<lparr>noeval := k\<rparr>) = calm s" "calm (leave s) = calm s"
  "calm (s\<lparr>tokstr := x\<rparr>) = calm s" "calm (assign ops nm w s) = calm s"
  by (simp_all add: calm_def)

lemma kept_good: "kept s s' \<Longrightarrow> good s \<Longrightarrow> good s'"
  by (simp add: kept_def good_def)

lemma kept_fields: "kept s s' \<Longrightarrow> expression s' = expression s \<and> vars s' = vars s \<and> noeval s' = noeval s \<and> depth s' = depth s"
  by (simp add: kept_def framed_def)

lemma follow_calm: "follow t post \<Longrightarrow> t \<notin> {TkPreInc, TkPreDec, TkPostInc, TkPostDec, TkNum, TkStr}"
  by (auto simp: follow_def starts_def)

lemma follow_rpar [simp]: "follow TkRPar (CHR '')'' # post)"
  by (auto simp: follow_def starts_def)

lemma print_exp_hd: "exp_ok e \<Longrightarrow> print_exp e \<noteq> [] \<and> item_char (hd (print_exp e))"
  using show_nat_digits [of "hd (show_nat n)" n for n] by (cases e) (auto simp: item_char_def is_name_def)

lemma starts_op: "tok_text t \<noteq> [] \<Longrightarrow> exp_ok e \<Longrightarrow> starts t (tok_text t @ print_exp e @ post)"
  using print_exp_hd [of e] by (auto simp: starts_def)

lemma first_read:
  assumes "good s" "calm s" "exp_ok e" "rest s = print_exp e @ post" "follow t post" "t \<noteq> TkEq"
    and "noeval s = 0 \<Longrightarrow> exp_value ops e (vars s) \<noteq> None"
  shows "\<exists>s1. readtok ops s = (Inr (), s1) \<and> kept s s1 \<and> first ops s1 e post \<and> good s1 \<and> calm s1"
proof -
  have g: "in_text s" "\<not> peeking s" using assms(1) by (simp_all add: good_def)
  show ?thesis
  proof (cases e)
    case (Lit n)
    then obtain s1 where s1: "readtok ops s = (Inr (), s1)" "kept s s1" "curtok s1 = TkNum" "tokval s1 = of_nat n"
      "lasttok s1 = curtok s" "rest s1 = post" using read_num [OF g(1), of n post t ops] assms by auto
    then show ?thesis using kept_good assms(1,2) Lit by (intro exI [of _ s1]) (auto simp: first_def calm_def)
  next
    case (Var x)
    obtain w where w: "noeval s = 0 \<Longrightarrow> var_value ops (vars s) x = Some w"
      using assms(7) Var by (cases "var_value ops (vars s) x") auto
    have "is_name x" "lasttok s \<notin> {TkPreInc, TkPreDec}" using assms(2,3) Var by (auto simp: calm_def)
    then obtain s1 where s1: "readtok ops s = (Inr (), s1)" "kept s s1" "curtok s1 = TkStr" "lasttok s1 = curtok s"
      "rest s1 = post" "noeval s = 0 \<longrightarrow> tokval s1 = w"
      using read_name [OF g, of x post t ops w] assms(4,5,6) w Var by auto
    then show ?thesis using kept_good [OF s1(2) assms(1)] kept_fields [OF s1(2)] assms(2) Var w
      by (intro exI [of _ s1]) (auto simp: first_def calm_def)
  qed (use read_tok [OF g(1), of TkLPar ops] assms kept_good [of s] in \<open>auto simp: starts_def first_def calm_def\<close>)
qed

lemma reach_kept: "kept s s1 \<Longrightarrow> reach ops s1 e t post w s' = reach ops s e t post w s'"
  by (simp add: reach_def kept_def framed_def)

lemma reach_good: "reach ops s e t post w s' \<Longrightarrow> good s'" and reach_calm: "reach ops s e t post w s' \<Longrightarrow> calm s'"
  by (simp_all add: reach_def)

lemma lit_item:
  assumes "good s" "first ops s (Lit n) post" "follow t post"
  shows "\<exists>w s'. expprimary ops safe rec s = Some (Inr w, s') \<and> reach ops s (Lit n) t post w s'"
proof -
  have f: "curtok s = TkNum" "tokval s = of_nat n" "rest s = post" using assms(2) by (simp_all add: first_def)
  then obtain s1 where s1: "readtok ops s = (Inr (), s1)" "kept s s1" "curtok s1 = t" "lasttok s1 = TkNum"
    "rest s1 = drop (length (tok_text t)) post"
    using read_follow [of s t ops] assms(1,3) by (auto simp: good_def)
  then show ?thesis using f kept_good [OF s1(2) assms(1)] kept_fields [OF s1(2)] follow_calm [OF assms(3)]
    by (auto simp: expprimary_def Let_def ok_def reach_def calm_def)
qed

lemma name_item:
  assumes "good s" "curtok s = TkStr" "rest s = post" "follow t post"
  shows "\<exists>s'. expprimary ops safe rec s = Some (Inr (tokval s), s') \<and> expression s' = expression s \<and> noeval s' = noeval s \<and>
    depth s' = depth s \<and> vars s' = vars s \<and> good s' \<and> curtok s' = t \<and> lasttok s' = TkStr \<and> tokstr s' = tokstr s \<and>
    rest s' = drop (length (tok_text t)) post"
proof -
  have g: "in_text s" "\<not> peeking s" using assms(1) by (simp_all add: good_def)
  have "in_text (s\<lparr>peeking := True\<rparr>)" "rest (s\<lparr>peeking := True\<rparr>) = post" using g assms(3) by (simp_all add: in_text_def rest_def)
  then obtain b where b: "readtok ops (s\<lparr>peeking := True\<rparr>) = (Inr (), b)" "kept (s\<lparr>peeking := True\<rparr>) b" "curtok b = t"
    using read_follow [of "s\<lparr>peeking := True\<rparr>" t ops] assms(4) by auto
  let ?c = "restore (save s) (b\<lparr>peeking := False\<rparr>)"
  have c: "expression ?c = expression s" "noeval ?c = noeval s" "depth ?c = depth s" "vars ?c = vars s"
    using b(2) by (simp_all add: kept_def framed_def)
  then have "good ?c" "rest ?c = post" using g assms(3) by (simp_all add: good_def in_text_def rest_def)
  then obtain d where d: "readtok ops ?c = (Inr (), d)" "kept ?c d" "curtok d = t" "lasttok d = curtok ?c"
    "rest d = drop (length (tok_text t)) post" "tokstr d = tokstr ?c"
    using read_follow [of ?c t ops] assms(4) by (auto simp: good_def)
  have "readtok_ahead ops s = (Inr (), b\<lparr>peeking := False\<rparr>)" by (simp add: readtok_ahead.simps b(1))
  then have "expprimary ops safe rec s = Some (Inr (tokval s), d)"
    using d(1) assms(2) b(3) follow_calm [OF assms(4)] by (simp add: expprimary_def Let_def ok_def split: option.split)
  then show ?thesis using d c kept_good [OF d(2) \<open>good ?c\<close>] kept_fields [OF d(2)] assms(2) by auto
qed

lemma var_item:
  assumes "good s" "first ops s (Var x) post" "follow t post"
  shows "\<exists>w s'. expprimary ops safe rec s = Some (Inr w, s') \<and> reach ops s (Var x) t post w s'"
  using name_item [of s post t ops safe rec] assms follow_calm [OF assms(3)]
  by (fastforce simp: first_def reach_def calm_def)

text \<open>Whatever follows it, the expression is read as one operand.\<close>

definition item :: "'v variables \<Rightarrow> ('v evaluator \<Rightarrow> bool) \<Rightarrow> aexp \<Rightarrow> bool" where
  "item ops safe e \<longleftrightarrow>
     (\<forall>s t post n. good s \<longrightarrow> calm s \<longrightarrow> first ops s e post \<longrightarrow> follow t post \<longrightarrow> 4 * exp_height e \<le> n \<longrightarrow>
        depth s + 2 * exp_height e \<le> max_depth \<longrightarrow> (noeval s = 0 \<longrightarrow> exp_value ops e (vars s) \<noteq> None) \<longrightarrow>
        (\<exists>w s'. expprimary ops safe (expr ops safe n) s = Some (Inr w, s') \<and> reach ops s e t post w s'))"

lemma first_curtok: "first ops s e post \<Longrightarrow> curtok s \<in> {TkNum, TkStr, TkLPar}"
  by (auto simp: first_def split: aexp.splits)

lemma item_rule:
  assumes "item ops safe e" "good s" "calm s" "first ops s e post" "follow t post" "4 * exp_height e \<le> n" "0 < n"
    and "depth s + 2 * exp_height e \<le> max_depth" "noeval s = 0 \<Longrightarrow> exp_value ops e (vars s) \<noteq> None"
    and "i < tok_level t" "i \<le> 14"
  shows "\<exists>w s'. rule_at ops safe (expr ops safe n) n i s = Some (Inr w, s') \<and> reach ops s e t post w s'"
proof -
  obtain w s' where p: "expprimary ops safe (expr ops safe n) s = Some (Inr w, s')" "reach ops s e t post w s'"
    using assms(1) [unfolded item_def, rule_format, of s post t n] assms(2-6,8,9) by auto
  have "rule_at ops safe (expr ops safe n) n 0 s = Some (Inr w, s')"
    using p(1) first_curtok [OF assms(4)] by (auto simp: rule_at_unfold(1) expunary_def Let_def)
  moreover have "i < tok_level (curtok s')" using p(2) assms(10) by (simp add: reach_def)
  ultimately have "rule_at ops safe (expr ops safe n) n i s = Some (Inr w, s')"
    using rule_climb assms(7,11) by blast
  then show ?thesis using p(2) by blast
qed

text \<open>An operand from before its first token.\<close>

lemma read_item:
  assumes "item ops safe e" "good s" "calm s" "exp_ok e" "rest s = print_exp e @ post" "follow t post" "t \<noteq> TkEq"
    and "4 * exp_height e \<le> n" "0 < n" "depth s + 2 * exp_height e \<le> max_depth"
    and "noeval s = 0 \<Longrightarrow> exp_value ops e (vars s) \<noteq> None" "i < tok_level t" "i \<le> 14"
  shows "\<exists>s1 w s'. readtok ops s = (Inr (), s1) \<and> curtok s1 \<in> {TkNum, TkStr, TkLPar} \<and>
    rule_at ops safe (expr ops safe n) n i s1 = Some (Inr w, s') \<and> reach ops s e t post w s'"
proof -
  obtain s1 where s1: "readtok ops s = (Inr (), s1)" "kept s s1" "first ops s1 e post" "good s1" "calm s1"
    using first_read [OF assms(2-7,11)] by blast
  note k = kept_fields [OF s1(2)]
  obtain w s' where "rule_at ops safe (expr ops safe n) n i s1 = Some (Inr w, s')" "reach ops s1 e t post w s'"
    using item_rule [OF assms(1) s1(4,5,3) assms(6,8,9), of i] k assms(10-13) by auto
  then show ?thesis using s1(1) first_curtok [OF s1(3)] reach_kept [OF s1(2)] by blast
qed

text \<open>What the parentheses of an operation have to give, one level down.\<close>

definition inner_item :: "'v variables \<Rightarrow> ('v evaluator \<Rightarrow> bool) \<Rightarrow> aexp \<Rightarrow> bool" where
  "inner_item ops safe e \<longleftrightarrow>
     (\<forall>s post n. good s \<longrightarrow> calm s \<longrightarrow> rest s = print_inner e @ '')'' @ post \<longrightarrow> 4 * exp_height e \<le> n + 1 \<longrightarrow>
        depth s + 2 * exp_height e \<le> max_depth \<longrightarrow> (noeval s = 0 \<longrightarrow> exp_value ops e (vars s) \<noteq> None) \<longrightarrow>
        (\<exists>s1 w s2. readtok ops s = (Inr (), s1) \<and> kept s s1 \<and>
           rule_at ops safe (expr ops safe n) n 14 (s1\<lparr>depth := depth s1 + 1\<rparr>) = Some (Inr w, s2) \<and>
           reach ops (s\<lparr>depth := depth s + 1\<rparr>) e TkRPar ('')'' @ post) w s2))"

lemma leave_good [simp]: "good (leave s) = good s" by simp

lemma paren_item:
  assumes "inner_item ops safe e" "\<And>s. safe s" "\<And>n. e \<noteq> Lit n" "\<And>x. e \<noteq> Var x" "0 < exp_height e"
  shows "item ops safe e"
  unfolding item_def
proof (intro allI impI)
  fix s t post n
  assume s: "good s" "calm s" "first ops s e post" "follow t post" "4 * exp_height e \<le> n"
    "depth s + 2 * exp_height e \<le> max_depth" "noeval s = 0 \<longrightarrow> exp_value ops e (vars s) \<noteq> None"
  obtain m where n: "n = Suc m" using s(5) assms(5) by (cases n) auto
  have c: "curtok s = TkLPar" "rest s = print_inner e @ '')'' @ post"
    using s(3) assms(3,4) by (cases e; simp add: first_def)+
  obtain s1 w s2 where i: "readtok ops s = (Inr (), s1)" "kept s s1"
    "rule_at ops safe (expr ops safe m) m 14 (s1\<lparr>depth := depth s1 + 1\<rparr>) = Some (Inr w, s2)"
    "reach ops (s\<lparr>depth := depth s + 1\<rparr>) e TkRPar ('')'' @ post) w s2"
    using assms(1) [unfolded inner_item_def, rule_format, of s post m] s c(2) n by auto
  note k = kept_fields [OF i(2)]
  have d: "depth s < max_depth" using s(6) assms(5) by linarith
  have e: "enter safe s1 = (Inr (), s1\<lparr>depth := depth s1 + 1\<rparr>)"
    using d k assms(2) by (simp add: enter_def)
  have l: "good (leave s2)" "calm (leave s2)" "curtok (leave s2) = TkRPar" "rest (leave s2) = post"
    using i(4) by (simp_all add: reach_def)
  obtain s3 where s3: "readtok ops (leave s2) = (Inr (), s3)" "kept (leave s2) s3" "curtok s3 = t"
    "lasttok s3 = curtok (leave s2)" "rest s3 = drop (length (tok_text t)) post"
    using read_follow [of "leave s2" t ops] l(1,4) s(4) by (auto simp: good_def)
  have "expprimary ops safe (expr ops safe n) s = Some (Inr w, s3)"
    using c(1) i(1,3) e l(3) s3(1) by (simp add: expprimary_def n rule_expr(1) Let_def ok_def del: expr.simps)
  moreover have "reach ops s e t post w s3"
    using i(4) s3 kept_fields [OF s3(2)] kept_good [OF s3(2) l(1)] l follow_calm [OF s(4)]
    by (cases "noeval s = 0") (simp_all add: reach_def calm_def)
  ultimately show "\<exists>w s'. expprimary ops safe (expr ops safe n) s = Some (Inr w, s') \<and> reach ops s e t post w s'" by blast
qed

lemma un_tok_props: "tok_text (un_tok op) \<noteq> []" "un_tok op \<in> {TkNot, TkBNot, TkMinus, TkPlus}"
  by (cases op; simp)+

lemma expr_pred: "0 < n \<Longrightarrow> \<exists>k. n = Suc k"
  by (cases n) auto

lemma kept_depth: "kept s s1 \<Longrightarrow> reach ops (s1\<lparr>depth := depth s1 + 1\<rparr>) e t post w s' = reach ops (s\<lparr>depth := depth s + 1\<rparr>) e t post w s'"
  by (simp add: reach_def kept_def framed_def)

lemma op1_inner:
  assumes "item ops safe e" "exp_ok e" "\<And>s. safe s"
  shows "inner_item ops safe (Op1 op e)"
  unfolding inner_item_def
proof (intro allI impI)
  fix s post n
  assume s: "good s" "calm s" "rest s = print_inner (Op1 op e) @ '')'' @ post" "4 * exp_height (Op1 op e) \<le> n + 1"
    "depth s + 2 * exp_height (Op1 op e) \<le> max_depth" "noeval s = 0 \<longrightarrow> exp_value ops (Op1 op e) (vars s) \<noteq> None"
  obtain k where n: "n = Suc k" using s(4) by (cases n) auto
  have st: "starts (un_tok op) (rest s)" unfolding s(3) using starts_op [OF un_tok_props(1) assms(2)] by simp
  then obtain s1 where s1: "readtok ops s = (Inr (), s1)" "kept s s1" "curtok s1 = un_tok op" "lasttok s1 = curtok s"
    "rest s1 = print_exp e @ '')'' @ post"
    using read_tok [of s "un_tok op" ops] s(1,3) by (auto simp: good_def)
  let ?s1 = "s1\<lparr>depth := depth s1 + 1\<rparr>"
  note k1 = kept_fields [OF s1(2)]
  have g: "good ?s1" "calm ?s1" using kept_good [OF s1(2) s(1)] s1(3,4) s(2) un_tok_props(2) [of op] by (auto simp: calm_def)
  have v: "noeval ?s1 = 0 \<Longrightarrow> exp_value ops e (vars ?s1) \<noteq> None" using s(6) k1 by auto
  obtain s2 where s2: "readtok ops ?s1 = (Inr (), s2)" "kept ?s1 s2" "first ops s2 e ('')'' @ post)" "good s2" "calm s2"
    using first_read [OF g assms(2), of "'')'' @ post" TkRPar ops] s1(5) v by auto
  let ?s2 = "s2\<lparr>depth := depth s2 + 1\<rparr>"
  note k2 = kept_fields [OF s2(2)]
  obtain w s3 where s3: "rule_at ops safe (expr ops safe k) k 0 ?s2 = Some (Inr w, s3)" "reach ops ?s2 e TkRPar ('')'' @ post) w s3"
    using item_rule [OF assms(1), of ?s2 "'')'' @ post" TkRPar k 0] s2 k1 k2 v s(4,5) n by auto
  have d: "depth s2 < max_depth" using s(5) k1 k2 by simp
  let ?s4 = "leave s3\<lparr>lasttok := TkNum\<rparr>"
  have "expunary ops safe (expr ops safe n) ?s1 = Some (Inr (un_value op w), ?s4)"
    using s1(3) un_tok_props(2) [of op] s2(1) d assms(3) s3(1)
    by (cases op) (simp_all add: expunary_def n rule_expr Let_def enter_def ok_def un_value_def del: expr.simps)
  then have u: "rule_at ops safe (expr ops safe n) n 0 ?s1 = Some (Inr (un_value op w), ?s4)" by (simp only: rule_at_unfold(1))
  have r: "reach ops (s\<lparr>depth := depth s + 1\<rparr>) (Op1 op e) TkRPar ('')'' @ post) (un_value op w) ?s4"
    using s3(2) k1 k2 by (cases "noeval s = 0") (simp_all add: reach_def calm_def)
  have "14 < tok_level (curtok ?s4)" "0 < n" using r n by (simp_all add: reach_def)
  then have "rule_at ops safe (expr ops safe n) n 14 ?s1 = Some (Inr (un_value op w), ?s4)"
    using rule_climb [OF u] by blast
  then show "\<exists>s1 w s2. readtok ops s = (Inr (), s1) \<and> kept s s1 \<and>
           rule_at ops safe (expr ops safe n) n 14 (s1\<lparr>depth := depth s1 + 1\<rparr>) = Some (Inr w, s2) \<and>
           reach ops (s\<lparr>depth := depth s + 1\<rparr>) (Op1 op e) TkRPar ('')'' @ post) w s2"
    using s1(1,2) r by blast
qed

text \<open>The first operand of an operation, up to its operator.\<close>

lemma first_operand:
  assumes "item ops safe a" "exp_ok a" "good s" "calm s" "rest s = print_exp a @ tok_text t @ post" "follow t (tok_text t @ post)"
    and "t \<noteq> TkEq" "4 * exp_height a \<le> n" "0 < n" "Suc (depth s) + 2 * exp_height a \<le> max_depth"
    and "noeval s = 0 \<Longrightarrow> exp_value ops a (vars s) \<noteq> None" "i < tok_level t" "i \<le> 14"
  shows "\<exists>s1 w s2. readtok ops s = (Inr (), s1) \<and> kept s s1 \<and>
    rule_at ops safe (expr ops safe n) n i (s1\<lparr>depth := depth s1 + 1\<rparr>) = Some (Inr w, s2) \<and>
    reach ops (s\<lparr>depth := depth s + 1\<rparr>) a t (tok_text t @ post) w s2 \<and> rest s2 = post"
proof -
  obtain s1 where s1: "readtok ops s = (Inr (), s1)" "kept s s1" "first ops s1 a (tok_text t @ post)" "good s1" "calm s1"
    using first_read [OF assms(3,4,2,5,6,7,11)] by blast
  let ?s1 = "s1\<lparr>depth := depth s1 + 1\<rparr>"
  note k = kept_fields [OF s1(2)]
  obtain w s2 where s2: "rule_at ops safe (expr ops safe n) n i ?s1 = Some (Inr w, s2)" "reach ops ?s1 a t (tok_text t @ post) w s2"
    using item_rule [OF assms(1), of ?s1 "tok_text t @ post" t n i] s1 k assms by auto
  moreover have "rest s2 = post" using s2(2) by (simp add: reach_def)
  ultimately show ?thesis using s1(1,2) kept_depth [OF s1(2)] by blast
qed

lemma inner_itemI:
  assumes "\<And>s post n. good s \<Longrightarrow> calm s \<Longrightarrow> rest s = print_inner e @ '')'' @ post \<Longrightarrow> 4 * exp_height e \<le> n + 1 \<Longrightarrow>
      depth s + 2 * exp_height e \<le> max_depth \<Longrightarrow> (noeval s = 0 \<Longrightarrow> exp_value ops e (vars s) \<noteq> None) \<Longrightarrow>
      \<exists>s1 w s2 i. readtok ops s = (Inr (), s1) \<and> kept s s1 \<and> i \<le> 14 \<and>
        rule_at ops safe (expr ops safe n) n i (s1\<lparr>depth := depth s1 + 1\<rparr>) = Some (Inr w, s2) \<and>
        reach ops (s\<lparr>depth := depth s + 1\<rparr>) e TkRPar ('')'' @ post) w s2"
    and "0 < exp_height e"
  shows "inner_item ops safe e"
  unfolding inner_item_def
proof (intro allI impI)
  fix s post n
  assume s: "good s" "calm s" "rest s = print_inner e @ '')'' @ post" "4 * exp_height e \<le> n + 1"
    "depth s + 2 * exp_height e \<le> max_depth" "noeval s = 0 \<longrightarrow> exp_value ops e (vars s) \<noteq> None"
  have v: "noeval s = 0 \<Longrightarrow> exp_value ops e (vars s) \<noteq> None" using s(6) by blast
  obtain s1 w s2 i where i: "readtok ops s = (Inr (), s1)" "kept s s1" "i \<le> 14"
    "rule_at ops safe (expr ops safe n) n i (s1\<lparr>depth := depth s1 + 1\<rparr>) = Some (Inr w, s2)"
    "reach ops (s\<lparr>depth := depth s + 1\<rparr>) e TkRPar ('')'' @ post) w s2"
    using assms(1) [OF s(1-5) v] by blast
  have "14 < tok_level (curtok s2)" "0 < n" using i(5) s(4) assms(2) by (simp_all add: reach_def)
  then have "rule_at ops safe (expr ops safe n) n 14 (s1\<lparr>depth := depth s1 + 1\<rparr>) = Some (Inr w, s2)"
    using rule_climb [OF i(4,3)] by blast
  then show "\<exists>s1 w s2. readtok ops s = (Inr (), s1) \<and> kept s s1 \<and>
      rule_at ops safe (expr ops safe n) n 14 (s1\<lparr>depth := depth s1 + 1\<rparr>) = Some (Inr w, s2) \<and>
      reach ops (s\<lparr>depth := depth s + 1\<rparr>) e TkRPar ('')'' @ post) w s2"
    using i by blast
qed

lemma binary_once:
  "curtok s \<in> toks \<Longrightarrow> readtok ops s = (Inr (), s1) \<Longrightarrow> p s1 = Some (Inr y, s2) \<Longrightarrow> curtok s2 \<notin> toks \<Longrightarrow>
    binary_loop ops toks f p (Suc (Suc m)) x s = Some (Inr (f (curtok s) x y), s2\<lparr>lasttok := TkNum\<rparr>)"
  by (simp add: ok_def Let_def)

lemma muldiv_once:
  "curtok s \<in> {TkMul, TkDiv, TkMod} \<Longrightarrow> readtok ops s = (Inr (), s1) \<Longrightarrow> p s1 = Some (Inr y, s2) \<Longrightarrow>
    curtok s2 \<notin> {TkMul, TkDiv, TkMod} \<Longrightarrow> (curtok s \<noteq> TkMul \<Longrightarrow> noeval s2 = 0 \<Longrightarrow> y \<noteq> 0) \<Longrightarrow>
    \<exists>z. expmuldiv_loop ops p (Suc (Suc m)) x s = Some (Inr z, s2\<lparr>lasttok := TkNum\<rparr>) \<and>
      (noeval s2 = 0 \<longrightarrow> z = (case curtok s of TkMul \<Rightarrow> x * y | TkDiv \<Rightarrow> divide x y | _ \<Rightarrow> remainder x y))"
  by (auto simp add: ok_def Let_def)

lemma reach_Op2:
  assumes "reach ops s a t1 post1 x s1" "reach ops s1 b t post y s2" "noeval s = 0 \<Longrightarrow> bin_value op x y = Some z"
  shows "reach ops s (Op2 op a b) t post z (s2\<lparr>lasttok := TkNum\<rparr>)"
  using assms by (cases "noeval s = 0") (auto simp: reach_def calm_def)

lemma reach_fields: "reach ops s e t post w s' \<Longrightarrow> good s' \<and> calm s' \<and> curtok s' = t \<and> depth s' = depth s \<and> noeval s' = noeval s"
  by (simp add: reach_def)

text \<open>The second operand.\<close>

lemma second_operand:
  assumes "item ops safe b" "exp_ok b" "good s" "calm s" "rest s = print_exp b @ post" "follow t post" "t \<noteq> TkEq"
    and "4 * exp_height b \<le> n" "0 < n" "depth s + 2 * exp_height b \<le> max_depth"
    and "noeval s = 0 \<Longrightarrow> exp_value ops b (vars s) \<noteq> None" "i < tok_level t" "i \<le> 14"
  obtains s1 y s2 where "readtok ops s = (Inr (), s1)" "rule_at ops safe (expr ops safe n) n i s1 = Some (Inr y, s2)"
    "reach ops s b t post y s2" "curtok s1 \<in> {TkNum, TkStr, TkLPar}"
  using read_item [OF assms(1,3,4,2,5-13)] by blast

lemma follow_par: "follow TkRPar ('')'' @ post)"
  by simp

lemma rpar_neq: "TkRPar \<noteq> TkEq"
  by simp

lemma bin_tok_props: "tok_text (bin_tok op) \<noteq> []" "bin_tok op \<noteq> TkEq" "1 < tok_level (bin_tok op)" "tok_level (bin_tok op) < 10"
  by (cases op; simp)+

lemma bin_value_level:
  "2 < tok_level (bin_tok op) \<Longrightarrow> bin_value op x y = Some (level_apply (tok_level (bin_tok op)) (bin_tok op) x y)"
  by (cases op) (simp_all add: bin_value_def level_apply_def)

lemma bin_tok_toks: "2 < tok_level (bin_tok op) \<Longrightarrow> bin_tok op \<in> level_toks (tok_level (bin_tok op))"
  by (cases op) simp_all

text \<open>The two operands around an operator: \<open>skip\<close> says when the second is only parsed.\<close>

definition shifted :: "bool \<Rightarrow> 'v evaluator \<Rightarrow> 'v evaluator" where
  "shifted b s = (if b then s\<lparr>noeval := noeval s + 1\<rparr> else s)"

lemma two_operands:
  assumes a: "item ops safe a" "exp_ok a" and b: "item ops safe b" "exp_ok b"
    and s: "good s" "calm s" "rest s = print_exp a @ tok_text t @ print_exp b @ '')'' @ post"
      "4 * Suc (max (exp_height a) (exp_height b)) \<le> n + 1" "depth s + 2 * Suc (max (exp_height a) (exp_height b)) \<le> max_depth"
    and t: "tok_text t \<noteq> []" "t \<noteq> TkEq" "i < tok_level t" "i < 14"
    and va: "noeval s = 0 \<Longrightarrow> exp_value ops a (vars s) \<noteq> None"
    and vb: "\<And>x v. noeval s = 0 \<Longrightarrow> exp_value ops a (vars s) = Some (x, v) \<Longrightarrow> \<not> skip x \<Longrightarrow> exp_value ops b v \<noteq> None"
  obtains m s1 x s2 s3 y s4 where "n = Suc (Suc m)" "readtok ops s = (Inr (), s1)" "kept s s1"
    "rule_at ops safe (expr ops safe n) n i (s1\<lparr>depth := depth s1 + 1\<rparr>) = Some (Inr x, s2)"
    "reach ops (s\<lparr>depth := depth s + 1\<rparr>) a t (tok_text t @ print_exp b @ '')'' @ post) x s2"
    "readtok ops (shifted (skip x) s2) = (Inr (), s3)" "rule_at ops safe (expr ops safe n) n i s3 = Some (Inr y, s4)"
    "reach ops (shifted (skip x) s2) b TkRPar ('')'' @ post) y s4" "curtok s2 = t" "curtok s4 = TkRPar"
    "noeval s2 = noeval s" "noeval s4 = (if skip x then noeval s + 1 else noeval s)"
proof -
  obtain m where m: "n = Suc (Suc m)" using s(4) by (cases n; cases "n - 1") auto
  have n: "4 * exp_height a \<le> n" "4 * exp_height b \<le> n" "0 < n" "Suc (depth s) + 2 * exp_height a \<le> max_depth"
    using s(4,5) by auto
  have f: "follow t (tok_text t @ print_exp b @ '')'' @ post)"
    using starts_op [OF t(1) b(2)] by (simp add: follow_def)
  have i: "i \<le> 14" "i < tok_level TkRPar" using t(4) by simp_all
  obtain s1 x s2 where 1: "readtok ops s = (Inr (), s1)" "kept s s1"
    "rule_at ops safe (expr ops safe n) n i (s1\<lparr>depth := depth s1 + 1\<rparr>) = Some (Inr x, s2)"
    "reach ops (s\<lparr>depth := depth s + 1\<rparr>) a t (tok_text t @ print_exp b @ '')'' @ post) x s2"
    "rest s2 = print_exp b @ '')'' @ post"
    using first_operand [OF a s(1,2,3) f t(2) n(1,3,4) va t(3) i(1)] by blast
  let ?s2 = "shifted (skip x) s2"
  note r = reach_fields [OF 1(4)]
  have v: "noeval ?s2 = 0 \<Longrightarrow> exp_value ops b (vars ?s2) \<noteq> None"
    using vb [of x] 1(4) by (auto simp: shifted_def reach_def split: if_splits)
  have g: "good ?s2" "calm ?s2" "rest ?s2 = print_exp b @ '')'' @ post" "depth ?s2 + 2 * exp_height b \<le> max_depth"
    using r 1(5) s(5) by (simp_all add: shifted_def)
  obtain s3 y s4 where 2: "readtok ops ?s2 = (Inr (), s3)" "rule_at ops safe (expr ops safe n) n i s3 = Some (Inr y, s4)"
    "reach ops ?s2 b TkRPar ('')'' @ post) y s4"
    using second_operand [OF b g(1,2,3) follow_par rpar_neq n(2,3) g(4) v i(2,1)] by blast
  have "curtok s2 = t" "curtok s4 = TkRPar" "noeval s2 = noeval s" "noeval s4 = (if skip x then noeval s + 1 else noeval s)"
    using r reach_fields [OF 2(3)] by (simp_all add: shifted_def)
  then show thesis using that [OF m 1(1-4) 2] by blast
qed

lemma op2_inner:
  assumes a: "item ops safe a" "exp_ok a" and b: "item ops safe b" "exp_ok b"
  shows "inner_item ops safe (Op2 op a b)"
proof (rule inner_itemI)
  fix s post n
  let ?t = "bin_tok op"
  let ?k = "tok_level ?t"
  let ?R = "\<lambda>n. rule_at ops safe (expr ops safe n) n"
  assume s: "good s" "calm s" "rest s = print_inner (Op2 op a b) @ '')'' @ post" "4 * exp_height (Op2 op a b) \<le> n + 1"
    "depth s + 2 * exp_height (Op2 op a b) \<le> max_depth" "noeval s = 0 \<Longrightarrow> exp_value ops (Op2 op a b) (vars s) \<noteq> None"
  have k1: "?k - 1 < ?k" "?k - 1 < 14" "?k \<le> 14" using bin_tok_props(3,4) [of op] by simp_all
  have v: "noeval s = 0 \<Longrightarrow> exp_value ops a (vars s) \<noteq> None"
    "\<And>x v. noeval s = 0 \<Longrightarrow> exp_value ops a (vars s) = Some (x, v) \<Longrightarrow> \<not> False \<Longrightarrow> exp_value ops b v \<noteq> None"
    using s(6) by (auto split: option.splits)
  have sr: "rest s = print_exp a @ tok_text ?t @ print_exp b @ '')'' @ post" using s(3) by simp
  obtain m s1 x s2 s3 y s4 where r: "n = Suc (Suc m)" "readtok ops s = (Inr (), s1)" "kept s s1"
    "?R n (?k - 1) (s1\<lparr>depth := depth s1 + 1\<rparr>) = Some (Inr x, s2)"
    "reach ops (s\<lparr>depth := depth s + 1\<rparr>) a ?t (tok_text ?t @ print_exp b @ '')'' @ post) x s2"
    "readtok ops s2 = (Inr (), s3)" "?R n (?k - 1) s3 = Some (Inr y, s4)" "reach ops s2 b TkRPar ('')'' @ post) y s4"
    and c: "curtok s2 = ?t" "curtok s4 = TkRPar" "noeval s2 = noeval s" "noeval s4 = noeval s"
    by (rule two_operands [where skip = "\<lambda>_. False", OF a b s(1,2) sr s(4,5) [unfolded exp_height.simps] bin_tok_props(1,2) k1(1,2) v])
      (assumption | (unfold shifted_def if_False, rule that))+
  have bv: "noeval s = 0 \<Longrightarrow> bin_value op x y \<noteq> None"
    using s(6) r(5,8) by (auto simp: reach_def split: option.splits)
  have "\<exists>z. ?R n ?k (s1\<lparr>depth := depth s1 + 1\<rparr>) = Some (Inr z, s4\<lparr>lasttok := TkNum\<rparr>) \<and>
      (noeval s = 0 \<longrightarrow> bin_value op x y = Some z)"
  proof (cases "?k = 2")
    case True
    then have o: "op \<in> {BMul, BDiv, BMod}" by (cases op) simp_all
    then have "?t \<in> {TkMul, TkDiv, TkMod}" by auto
    moreover have "?t \<noteq> TkMul \<Longrightarrow> noeval s4 = 0 \<Longrightarrow> y \<noteq> 0" using o bv c(4) by (auto simp: bin_value_def)
    ultimately obtain z where z: "expmuldiv_loop ops (?R n 1) n x s2 = Some (Inr z, s4\<lparr>lasttok := TkNum\<rparr>)"
      "noeval s4 = 0 \<longrightarrow> z = (case ?t of TkMul \<Rightarrow> x * y | TkDiv \<Rightarrow> divide x y | _ \<Rightarrow> remainder x y)"
      using muldiv_once [of s2 ops s3 "?R n 1" y s4 m x] r(6,7) c True
      by (auto simp: r(1) simp del: expr.simps expmuldiv_loop.simps)
    have "?R n 2 (s1\<lparr>depth := depth s1 + 1\<rparr>) = Some (Inr z, s4\<lparr>lasttok := TkNum\<rparr>)"
      using r(4) z(1) True by (simp only: rule_at_unfold(3) and_then_Inr) simp
    moreover have "noeval s = 0 \<longrightarrow> bin_value op x y = Some z"
      using z(2) c(4) bv o by (auto simp: bin_value_def split: if_splits)
    ultimately show ?thesis using True by auto
  next
    case False
    then have k: "2 < ?k" "?k - 1 \<in> {2, 3, 4, 5, 6, 7, 8}" "Suc (?k - 1) = ?k" using bin_tok_props(3,4) [of op] by auto
    have t: "curtok s2 \<in> level_toks ?k" "curtok s4 \<notin> level_toks ?k" using bin_tok_toks [OF k(1)] c by (auto split: if_splits)
    have l: "binary_loop ops (level_toks ?k) (level_apply ?k) (?R n (?k - 1)) n x s2 =
        Some (Inr (level_apply ?k ?t x y), s4\<lparr>lasttok := TkNum\<rparr>)"
      using binary_once [where p = "?R n (?k - 1)", OF t(1) r(6,7) t(2)] unfolding r(1) c(1) .
    have "?R n ?k (s1\<lparr>depth := depth s1 + 1\<rparr>) = Some (Inr (level_apply ?k ?t x y), s4\<lparr>lasttok := TkNum\<rparr>)"
      using rule_at_binary [OF k(2), of ops safe "expr ops safe n" n] unfolding k(3) by (simp only: r(4) and_then_Inr l)
    then show ?thesis using bin_value_level [OF k(1)] by blast
  qed
  then obtain z where z: "?R n ?k (s1\<lparr>depth := depth s1 + 1\<rparr>) = Some (Inr z, s4\<lparr>lasttok := TkNum\<rparr>)"
    "noeval s = 0 \<longrightarrow> bin_value op x y = Some z" by (elim exE conjE)
  have "reach ops (s\<lparr>depth := depth s + 1\<rparr>) (Op2 op a b) TkRPar ('')'' @ post) z (s4\<lparr>lasttok := TkNum\<rparr>)"
    by (rule reach_Op2 [OF r(5,8)]) (use z(2) in simp)
  then show "\<exists>s1 w s2 i. readtok ops s = (Inr (), s1) \<and> kept s s1 \<and> i \<le> 14 \<and>
        ?R n i (s1\<lparr>depth := depth s1 + 1\<rparr>) = Some (Inr w, s2) \<and>
        reach ops (s\<lparr>depth := depth s + 1\<rparr>) (Op2 op a b) TkRPar ('')'' @ post) w s2"
    using r(2,3) z(1) k1(3) by blast
qed simp

definition unshifted :: "bool \<Rightarrow> 'v evaluator \<Rightarrow> 'v evaluator" where
  "unshifted b s = (if b then s\<lparr>noeval := noeval s - 1\<rparr> else s)"

lemma land_once:
  "curtok s = TkLAnd \<Longrightarrow> readtok ops (shifted (x = 0) s) = (Inr (), s1) \<Longrightarrow> p s1 = Some (Inr y, s2) \<Longrightarrow> curtok s2 = TkRPar \<Longrightarrow>
    expland_loop ops p (Suc (Suc m)) x s =
      Some (Inr (of_bool_i64 (x \<noteq> 0 \<and> y \<noteq> 0)), (unshifted (x = 0) s2)\<lparr>lasttok := TkLAnd\<rparr>)"
  by (cases "x = 0") (simp_all add: ok_def shifted_def unshifted_def)

lemma lor_once:
  "curtok s = TkLOr \<Longrightarrow> readtok ops (shifted (x \<noteq> 0) s) = (Inr (), s1) \<Longrightarrow> p s1 = Some (Inr y, s2) \<Longrightarrow> curtok s2 = TkRPar \<Longrightarrow>
    explor_loop ops p (Suc (Suc m)) x s =
      Some (Inr (of_bool_i64 (x \<noteq> 0 \<or> y \<noteq> 0)), (unshifted (x \<noteq> 0) s2)\<lparr>lasttok := TkLOr\<rparr>)"
  by (cases "x = 0") (simp_all add: ok_def shifted_def unshifted_def)

lemma comma_once:
  "curtok s = TkComma \<Longrightarrow> readtok ops s = (Inr (), s1) \<Longrightarrow> p s1 = Some (Inr y, s2) \<Longrightarrow> curtok s2 = TkRPar \<Longrightarrow>
    expcomma_loop ops p (Suc (Suc m)) x s = Some (Inr y, s2)"
  by (simp add: ok_def)

lemma reach_land:
  assumes "reach ops s a t1 post1 x s1" "reach ops (shifted (x = 0) s1) b t post y s2"
  shows "reach ops s (LAnd a b) t post (of_bool_i64 (x \<noteq> 0 \<and> y \<noteq> 0)) ((unshifted (x = 0) s2)\<lparr>lasttok := TkLAnd\<rparr>)"
  using assms by (cases "noeval s = 0"; cases "x = 0") (simp_all add: reach_def calm_def shifted_def unshifted_def of_bool_i64_def)

lemma reach_lor:
  assumes "reach ops s a t1 post1 x s1" "reach ops (shifted (x \<noteq> 0) s1) b t post y s2"
  shows "reach ops s (LOr a b) t post (of_bool_i64 (x \<noteq> 0 \<or> y \<noteq> 0)) ((unshifted (x \<noteq> 0) s2)\<lparr>lasttok := TkLOr\<rparr>)"
  using assms by (cases "noeval s = 0"; cases "x = 0") (simp_all add: reach_def calm_def shifted_def unshifted_def of_bool_i64_def)

lemma reach_comma:
  assumes "reach ops s a t1 post1 x s1" "reach ops s1 b t post y s2"
  shows "reach ops s (Seq a b) t post y s2"
  using assms by (cases "noeval s = 0") (simp_all add: reach_def)

lemma land_inner:
  assumes a: "item ops safe a" "exp_ok a" and b: "item ops safe b" "exp_ok b"
  shows "inner_item ops safe (LAnd a b)"
proof (rule inner_itemI)
  fix s post n
  let ?R = "\<lambda>n. rule_at ops safe (expr ops safe n) n"
  assume s: "good s" "calm s" "rest s = print_inner (LAnd a b) @ '')'' @ post" "4 * exp_height (LAnd a b) \<le> n + 1"
    "depth s + 2 * exp_height (LAnd a b) \<le> max_depth" "noeval s = 0 \<Longrightarrow> exp_value ops (LAnd a b) (vars s) \<noteq> None"
  have v: "noeval s = 0 \<Longrightarrow> exp_value ops a (vars s) \<noteq> None"
    "\<And>x v. noeval s = 0 \<Longrightarrow> exp_value ops a (vars s) = Some (x, v) \<Longrightarrow> \<not> x = 0 \<Longrightarrow> exp_value ops b v \<noteq> None"
    using s(6) by (auto split: option.splits)
  have sr: "rest s = print_exp a @ tok_text TkLAnd @ print_exp b @ '')'' @ post" using s(3) by simp
  have t: "tok_text TkLAnd \<noteq> []" "TkLAnd \<noteq> TkEq" "9 < tok_level TkLAnd" "(9::nat) < 14" by simp_all
  show "\<exists>s1 w s2 i. readtok ops s = (Inr (), s1) \<and> kept s s1 \<and> i \<le> 14 \<and>
        ?R n i (s1\<lparr>depth := depth s1 + 1\<rparr>) = Some (Inr w, s2) \<and>
        reach ops (s\<lparr>depth := depth s + 1\<rparr>) (LAnd a b) TkRPar ('')'' @ post) w s2"
  proof (rule two_operands [where skip = "\<lambda>x. x = 0", OF a b s(1,2) sr s(4,5) [unfolded exp_height.simps] t v])
    fix m s1 x s2 s3 y s4
    assume r: "n = Suc (Suc m)" "readtok ops s = (Inr (), s1)" "kept s s1"
      "?R n 9 (s1\<lparr>depth := depth s1 + 1\<rparr>) = Some (Inr x, s2)"
      "reach ops (s\<lparr>depth := depth s + 1\<rparr>) a TkLAnd (tok_text TkLAnd @ print_exp b @ '')'' @ post) x s2"
      "readtok ops (shifted (x = 0) s2) = (Inr (), s3)" "?R n 9 s3 = Some (Inr y, s4)"
      "reach ops (shifted (x = 0) s2) b TkRPar ('')'' @ post) y s4" "curtok s2 = TkLAnd" "curtok s4 = TkRPar"
    have "?R n 10 (s1\<lparr>depth := depth s1 + 1\<rparr>) =
        Some (Inr (of_bool_i64 (x \<noteq> 0 \<and> y \<noteq> 0)), (unshifted (x = 0) s4)\<lparr>lasttok := TkLAnd\<rparr>)"
      using land_once [where p = "?R n 9" and m = m and x = x, OF r(9,6,7,10)] unfolding r(1) [symmetric] rule_at_unfold(4) r(4) and_then_Inr .
    then show ?thesis using r(2,3) reach_land [OF r(5,8)] by (intro exI [of _ s1] exI exI [of _ 10] conjI) (assumption | simp)+
  qed assumption+
qed simp

lemma lor_inner:
  assumes a: "item ops safe a" "exp_ok a" and b: "item ops safe b" "exp_ok b"
  shows "inner_item ops safe (LOr a b)"
proof (rule inner_itemI)
  fix s post n
  let ?R = "\<lambda>n. rule_at ops safe (expr ops safe n) n"
  assume s: "good s" "calm s" "rest s = print_inner (LOr a b) @ '')'' @ post" "4 * exp_height (LOr a b) \<le> n + 1"
    "depth s + 2 * exp_height (LOr a b) \<le> max_depth" "noeval s = 0 \<Longrightarrow> exp_value ops (LOr a b) (vars s) \<noteq> None"
  have v: "noeval s = 0 \<Longrightarrow> exp_value ops a (vars s) \<noteq> None"
    "\<And>x v. noeval s = 0 \<Longrightarrow> exp_value ops a (vars s) = Some (x, v) \<Longrightarrow> \<not> x \<noteq> 0 \<Longrightarrow> exp_value ops b v \<noteq> None"
    using s(6) by (auto split: option.splits)
  have sr: "rest s = print_exp a @ tok_text TkLOr @ print_exp b @ '')'' @ post" using s(3) by simp
  have t: "tok_text TkLOr \<noteq> []" "TkLOr \<noteq> TkEq" "10 < tok_level TkLOr" "(10::nat) < 14" by simp_all
  show "\<exists>s1 w s2 i. readtok ops s = (Inr (), s1) \<and> kept s s1 \<and> i \<le> 14 \<and>
        ?R n i (s1\<lparr>depth := depth s1 + 1\<rparr>) = Some (Inr w, s2) \<and>
        reach ops (s\<lparr>depth := depth s + 1\<rparr>) (LOr a b) TkRPar ('')'' @ post) w s2"
  proof (rule two_operands [where skip = "\<lambda>x. x \<noteq> 0", OF a b s(1,2) sr s(4,5) [unfolded exp_height.simps] t v])
    fix m s1 x s2 s3 y s4
    assume r: "n = Suc (Suc m)" "readtok ops s = (Inr (), s1)" "kept s s1"
      "?R n 10 (s1\<lparr>depth := depth s1 + 1\<rparr>) = Some (Inr x, s2)"
      "reach ops (s\<lparr>depth := depth s + 1\<rparr>) a TkLOr (tok_text TkLOr @ print_exp b @ '')'' @ post) x s2"
      "readtok ops (shifted (x \<noteq> 0) s2) = (Inr (), s3)" "?R n 10 s3 = Some (Inr y, s4)"
      "reach ops (shifted (x \<noteq> 0) s2) b TkRPar ('')'' @ post) y s4" "curtok s2 = TkLOr" "curtok s4 = TkRPar"
    have "?R n 11 (s1\<lparr>depth := depth s1 + 1\<rparr>) =
        Some (Inr (of_bool_i64 (x \<noteq> 0 \<or> y \<noteq> 0)), (unshifted (x \<noteq> 0) s4)\<lparr>lasttok := TkLOr\<rparr>)"
      using lor_once [where p = "?R n 10" and m = m and x = x, OF r(9,6,7,10)] unfolding r(1) [symmetric] rule_at_unfold(5) r(4) and_then_Inr .
    then show ?thesis using r(2,3) reach_lor [OF r(5,8)] by (intro exI [of _ s1] exI exI [of _ 11] conjI) (assumption | simp)+
  qed assumption+
qed simp

lemma seq_inner:
  assumes a: "item ops safe a" "exp_ok a" and b: "item ops safe b" "exp_ok b"
  shows "inner_item ops safe (Seq a b)"
proof (rule inner_itemI)
  fix s post n
  let ?R = "\<lambda>n. rule_at ops safe (expr ops safe n) n"
  assume s: "good s" "calm s" "rest s = print_inner (Seq a b) @ '')'' @ post" "4 * exp_height (Seq a b) \<le> n + 1"
    "depth s + 2 * exp_height (Seq a b) \<le> max_depth" "noeval s = 0 \<Longrightarrow> exp_value ops (Seq a b) (vars s) \<noteq> None"
  have v: "noeval s = 0 \<Longrightarrow> exp_value ops a (vars s) \<noteq> None"
    "\<And>x v. noeval s = 0 \<Longrightarrow> exp_value ops a (vars s) = Some (x, v) \<Longrightarrow> \<not> False \<Longrightarrow> exp_value ops b v \<noteq> None"
    using s(6) by (auto split: option.splits)
  have sr: "rest s = print_exp a @ tok_text TkComma @ print_exp b @ '')'' @ post" using s(3) by simp
  have t: "tok_text TkComma \<noteq> []" "TkComma \<noteq> TkEq" "13 < tok_level TkComma" "(13::nat) < 14" by simp_all
  show "\<exists>s1 w s2 i. readtok ops s = (Inr (), s1) \<and> kept s s1 \<and> i \<le> 14 \<and>
        ?R n i (s1\<lparr>depth := depth s1 + 1\<rparr>) = Some (Inr w, s2) \<and>
        reach ops (s\<lparr>depth := depth s + 1\<rparr>) (Seq a b) TkRPar ('')'' @ post) w s2"
  proof (rule two_operands [where skip = "\<lambda>_. False", OF a b s(1,2) sr s(4,5) [unfolded exp_height.simps] t v])
    fix m s1 x s2 s3 y s4
    assume r: "n = Suc (Suc m)" "readtok ops s = (Inr (), s1)" "kept s s1"
      "?R n 13 (s1\<lparr>depth := depth s1 + 1\<rparr>) = Some (Inr x, s2)"
      "reach ops (s\<lparr>depth := depth s + 1\<rparr>) a TkComma (tok_text TkComma @ print_exp b @ '')'' @ post) x s2"
      "readtok ops (shifted False s2) = (Inr (), s3)" "?R n 13 s3 = Some (Inr y, s4)"
      "reach ops (shifted False s2) b TkRPar ('')'' @ post) y s4" "curtok s2 = TkComma" "curtok s4 = TkRPar"
    have f: "shifted False s2 = s2" by (simp add: shifted_def)
    have "?R n 14 (s1\<lparr>depth := depth s1 + 1\<rparr>) = Some (Inr y, s4)"
      using comma_once [where p = "?R n 13" and m = m and x = x, OF r(9) r(6) [unfolded f] r(7,10)]
      unfolding r(1) [symmetric] rule_at_unfold(6) r(4) and_then_Inr .
    then show ?thesis using r(2,3) reach_comma [OF r(5) r(8) [unfolded f]]
      by (intro exI [of _ s1] exI exI [of _ 14] conjI) (assumption | simp)+
  qed assumption+
qed simp

lemma lit_is_item: "item ops safe (Lit k)"
  unfolding item_def
proof (intro allI impI)
  fix s t post n
  assume "good s" "first ops s (Lit k) post" "follow t post"
  then show "\<exists>w s'. expprimary ops safe (expr ops safe n) s = Some (Inr w, s') \<and> reach ops s (Lit k) t post w s'"
    by (rule lit_item)
qed

lemma var_is_item: "item ops safe (Var x)"
  unfolding item_def
proof (intro allI impI)
  fix s t post n
  assume "good s" "first ops s (Var x) post" "follow t post"
  then show "\<exists>w s'. expprimary ops safe (expr ops safe n) s = Some (Inr w, s') \<and> reach ops s (Var x) t post w s'"
    by (rule var_item)
qed

text \<open>An operand one level further in, and out again.\<close>

lemma nested_operand:
  assumes "item ops safe e" "exp_ok e" "good s" "calm s" "rest s = print_exp e @ post" "follow t post" "t \<noteq> TkEq"
    and "4 * exp_height e \<le> m" "0 < m" "Suc (depth s) + 2 * exp_height e \<le> max_depth"
    and "noeval s = 0 \<Longrightarrow> exp_value ops e (vars s) \<noteq> None" "i < tok_level t" "i \<le> 14" "\<And>s. safe s"
  obtains s1 y s2 where "readtok ops s = (Inr (), s1)" "enter safe s1 = (Inr (), s1\<lparr>depth := depth s1 + 1\<rparr>)"
    "rule_at ops safe (expr ops safe m) m i (s1\<lparr>depth := depth s1 + 1\<rparr>) = Some (Inr y, s2)"
    "reach ops (s\<lparr>depth := depth s + 1\<rparr>) e t post y s2"
proof -
  obtain s1 where s1: "readtok ops s = (Inr (), s1)" "kept s s1" "first ops s1 e post" "good s1" "calm s1"
    using first_read [OF assms(3,4,2,5-7,11)] by blast
  let ?s1 = "s1\<lparr>depth := depth s1 + 1\<rparr>"
  note k = kept_fields [OF s1(2)]
  have g: "good ?s1" "calm ?s1" "first ops ?s1 e post" "depth ?s1 + 2 * exp_height e \<le> max_depth" "depth s1 < max_depth"
    using s1 k assms(10) by simp_all
  have v: "noeval ?s1 = 0 \<Longrightarrow> exp_value ops e (vars ?s1) \<noteq> None" using assms(11) k by simp
  have "enter safe s1 = (Inr (), ?s1)" using g(5) assms(14) by (simp add: enter_def)
  moreover obtain y s2 where "rule_at ops safe (expr ops safe m) m i ?s1 = Some (Inr y, s2)" "reach ops ?s1 e t post y s2"
    using item_rule [OF assms(1) g(1-3) assms(6,8,9) g(4) v assms(12,13)] by blast
  ultimately show thesis using that s1(1) kept_depth [OF s1(2)] by blast
qed

lemma power_of_literal:
  fixes x :: i64
  assumes "k < 2 ^ 63" "(of_nat k :: i64) \<noteq> 0"
  shows "\<not> sint (of_nat k :: i64) < 0" "arith_power x (of_nat k) = Some (x ^ k)"
proof -
  have "sint (of_nat k :: i64) = int k"
    using assms(1) by (simp add: signed_of_nat signed_take_bit_int_eq_self)
  then show "\<not> sint (of_nat k :: i64) < 0" "arith_power x (of_nat k) = Some (x ^ k)"
    using arith_power_spec [of "of_nat k" x] by simp_all
qed

lemma literal_zero: "k < 2 ^ 63 \<Longrightarrow> (of_nat k :: i64) = 0 \<Longrightarrow> k = 0"
  using nat_dvd_not_less [of k "2 ^ 64"] by (cases "k = 0") (simp_all add: word_of_nat_eq_0_iff)

lemma power_once:
  assumes "curtok s = TkPower" "readtok ops s = (Inr (), s1)" "enter safe s1 = (Inr (), s2)" "rec Power s2 = Some (Inr y, s3)"
    "curtok s3 = TkRPar" "y = 0 \<and> z = 1 \<or> y \<noteq> 0 \<and> \<not> sint y < 0 \<and> arith_power x y = Some z"
  shows "exppower_loop ops safe rec (Suc (Suc m)) x s = Some (Inr z, (leave s3)\<lparr>lasttok := TkNum\<rparr>)"
proof -
  have "curtok (leave s3) = TkRPar" using assms(5) by simp
  then show ?thesis using assms(1-4,6) by (elim disjE) (simp_all add: ok_def Let_def)
qed

lemma pow_inner:
  assumes a: "item ops safe a" "exp_ok a" and k: "k < 2 ^ 63" and safe: "\<And>s. safe s"
  shows "inner_item ops safe (Pow a k)"
proof (rule inner_itemI)
  fix s post n
  let ?R = "\<lambda>n. rule_at ops safe (expr ops safe n) n"
  assume s: "good s" "calm s" "rest s = print_inner (Pow a k) @ '')'' @ post" "4 * exp_height (Pow a k) \<le> n + 1"
    "depth s + 2 * exp_height (Pow a k) \<le> max_depth" "noeval s = 0 \<Longrightarrow> exp_value ops (Pow a k) (vars s) \<noteq> None"
  obtain m where m: "n = Suc (Suc m)" "0 < m" using s(4) by (cases n; cases "n - 1"; cases "n - 2") auto
  have v: "noeval s = 0 \<Longrightarrow> exp_value ops a (vars s) \<noteq> None" using s(6) by auto
  have sr: "rest s = print_exp a @ tok_text TkPower @ print_exp (Lit k) @ '')'' @ post" using s(3) by simp
  have f: "follow TkPower (tok_text TkPower @ print_exp (Lit k) @ '')'' @ post)"
    using starts_op [of TkPower "Lit k"] by (simp add: follow_def)
  have b: "4 * exp_height a \<le> n" "0 < n" "Suc (depth s) + 2 * exp_height a \<le> max_depth" "TkPower \<noteq> TkEq"
    "0 < tok_level TkPower" "(0::nat) \<le> 14" using s(4,5) by auto
  obtain s1 x s2 where 1: "readtok ops s = (Inr (), s1)" "kept s s1" "?R n 0 (s1\<lparr>depth := depth s1 + 1\<rparr>) = Some (Inr x, s2)"
    "reach ops (s\<lparr>depth := depth s + 1\<rparr>) a TkPower (tok_text TkPower @ print_exp (Lit k) @ '')'' @ post) x s2"
    "rest s2 = print_exp (Lit k) @ '')'' @ post"
    using first_operand [OF a s(1,2) sr f b(4,1-3) v b(5,6)] by blast
  note r = reach_fields [OF 1(4)]
  have g: "good s2" "calm s2" "Suc (depth s2) + 2 * exp_height (Lit k) \<le> max_depth" "4 * exp_height (Lit k) \<le> Suc m" "0 < Suc m"
    "noeval s2 = 0 \<Longrightarrow> exp_value ops (Lit k) (vars s2) \<noteq> None" "exp_ok (Lit k)" "1 < tok_level TkRPar" "(1::nat) \<le> 14"
    using r s(5) by simp_all
  obtain s3 y s4 where 2: "readtok ops s2 = (Inr (), s3)" "enter safe s3 = (Inr (), s3\<lparr>depth := depth s3 + 1\<rparr>)"
    "?R (Suc m) 1 (s3\<lparr>depth := depth s3 + 1\<rparr>) = Some (Inr y, s4)"
    "reach ops (s2\<lparr>depth := depth s2 + 1\<rparr>) (Lit k) TkRPar ('')'' @ post) y s4"
    by (rule nested_operand [OF lit_is_item g(7,1,2) 1(5) follow_par rpar_neq g(4,5,3,6,8,9) safe])
      (assumption | rule that)+
  have y: "y = of_nat k" "curtok s4 = TkRPar" using 2(4) by (simp_all add: reach_def)
  let ?s4 = "(leave s4)\<lparr>lasttok := TkNum\<rparr>"
  have c: "curtok s2 = TkPower" using r by simp
  have z: "y = 0 \<and> x ^ k = 1 \<or> y \<noteq> 0 \<and> \<not> sint y < 0 \<and> arith_power x y = Some (x ^ k)"
    using literal_zero [OF k] power_of_literal(1) [OF k] power_of_literal(2) [OF k, of x] y(1) by (cases "y = 0") simp_all
  have "exppower_loop ops safe (expr ops safe n) n x s2 = Some (Inr (x ^ k), ?s4)"
    using power_once [where rec = "expr ops safe n" and m = m, OF c 2(1,2) _ y(2) z] 2(3)
    unfolding m(1) rule_expr(4) by blast
  then have "?R n 1 (s1\<lparr>depth := depth s1 + 1\<rparr>) = Some (Inr (x ^ k), ?s4)"
    by (simp only: rule_at_unfold(2) 1(3) and_then_Inr)
  moreover have "reach ops (s\<lparr>depth := depth s + 1\<rparr>) (Pow a k) TkRPar ('')'' @ post) (x ^ k) ?s4"
    using 1(4) 2(4) by (cases "noeval s = 0") (simp_all add: reach_def calm_def)
  ultimately show "\<exists>s1 w s2 i. readtok ops s = (Inr (), s1) \<and> kept s s1 \<and> i \<le> 14 \<and>
        ?R n i (s1\<lparr>depth := depth s1 + 1\<rparr>) = Some (Inr w, s2) \<and>
        reach ops (s\<lparr>depth := depth s + 1\<rparr>) (Pow a k) TkRPar ('')'' @ post) w s2"
    using 1(1,2) b(2) by (intro exI [of _ s1] exI exI [of _ 1] conjI) (assumption | simp)+
qed simp

lemma cond_once:
  assumes "explor ops safe rec n s = Some (Inr c, s1)" "curtok s1 = TkQues" "enter safe s1 = (Inr (), s2)"
    and "readtok ops (shifted (c = 0) s2) = (Inr (), s3)" "curtok s3 \<in> {TkNum, TkStr, TkLPar}"
    and "rec Comma s3 = Some (Inr x, s4)" "curtok s4 = TkCol"
    and "readtok ops (shifted (c \<noteq> 0) (unshifted (c = 0) s4)) = (Inr (), s5)" "curtok s5 \<in> {TkNum, TkStr, TkLPar}"
    and "rec Cond s5 = Some (Inr y, s6)"
  shows "expcond ops safe rec n s =
    Some (Inr (if c \<noteq> 0 then x else y), (leave (unshifted (c \<noteq> 0) s6))\<lparr>lasttok := TkCond\<rparr>)"
  using assms
  by (cases "c = 0") (auto simp: expcond_def ok_def shifted_def unshifted_def)

lemma reach_cond:
  assumes "reach ops s c t1 p1 w s1" "reach ops (shifted (w = 0) (s1\<lparr>depth := depth s1 + 1\<rparr>)) a t2 p2 x s2"
    and "reach ops (shifted (w \<noteq> 0) (unshifted (w = 0) s2)) b t post y s3"
  shows "reach ops s (If c a b) t post (if w \<noteq> 0 then x else y) ((leave (unshifted (w \<noteq> 0) s3))\<lparr>lasttok := TkCond\<rparr>)"
  using assms
  by (cases "noeval s = 0"; cases "w = 0") (simp_all add: reach_def calm_def shifted_def unshifted_def)

lemma cond_inner:
  assumes c: "item ops safe c" "exp_ok c" and a: "item ops safe a" "exp_ok a" and b: "item ops safe b" "exp_ok b"
    and safe: "\<And>s. safe s"
  shows "inner_item ops safe (If c a b)"
proof (rule inner_itemI)
  fix s post n
  let ?R = "\<lambda>n. rule_at ops safe (expr ops safe n) n"
  assume s: "good s" "calm s" "rest s = print_inner (If c a b) @ '')'' @ post" "4 * exp_height (If c a b) \<le> n + 1"
    "depth s + 2 * exp_height (If c a b) \<le> max_depth" "noeval s = 0 \<Longrightarrow> exp_value ops (If c a b) (vars s) \<noteq> None"
  obtain m where m: "n = Suc m" "0 < m" using s(4) by (cases n; cases "n - 1") auto
  have v: "noeval s = 0 \<Longrightarrow> exp_value ops c (vars s) \<noteq> None" using s(6) by (auto split: option.splits)
  have sr: "rest s = print_exp c @ tok_text TkQues @ print_exp a @ '':'' @ print_exp b @ '')'' @ post" using s(3) by simp
  have f: "follow TkQues (tok_text TkQues @ print_exp a @ '':'' @ print_exp b @ '')'' @ post)"
    using starts_op [of TkQues a] a(2) by (simp add: follow_def)
  have fa: "follow TkCol ('':'' @ print_exp b @ '')'' @ post)" using starts_op [of TkCol b] b(2) by (simp add: follow_def)
  have n: "4 * exp_height c \<le> n" "0 < n" "Suc (depth s) + 2 * exp_height c \<le> max_depth" "TkQues \<noteq> TkEq"
    "11 < tok_level TkQues" "(11::nat) \<le> 14" "4 * exp_height a \<le> m" "4 * exp_height b \<le> m" using s(4,5) m by auto
  obtain s1 w s2 where 1: "readtok ops s = (Inr (), s1)" "kept s s1" "?R n 11 (s1\<lparr>depth := depth s1 + 1\<rparr>) = Some (Inr w, s2)"
    "reach ops (s\<lparr>depth := depth s + 1\<rparr>) c TkQues (tok_text TkQues @ print_exp a @ '':'' @ print_exp b @ '')'' @ post) w s2"
    "rest s2 = print_exp a @ '':'' @ print_exp b @ '')'' @ post"
    using first_operand [OF c s(1,2) sr f n(4,1-3) v n(5,6)] by blast
  note r = reach_fields [OF 1(4)]
  let ?s2 = "shifted (w = 0) (s2\<lparr>depth := depth s2 + 1\<rparr>)"
  have e: "enter safe s2 = (Inr (), s2\<lparr>depth := depth s2 + 1\<rparr>)"
    using r s(5) safe by (simp add: enter_def)
  have va: "noeval ?s2 = 0 \<Longrightarrow> exp_value ops a (vars ?s2) \<noteq> None"
    using s(6) 1(4) by (auto simp: shifted_def reach_def split: if_splits)
  have g: "good ?s2" "calm ?s2" "rest ?s2 = print_exp a @ '':'' @ print_exp b @ '')'' @ post"
    "depth ?s2 + 2 * exp_height a \<le> max_depth" "TkCol \<noteq> TkEq" "14 < tok_level TkCol" "(14::nat) \<le> 14"
    using r 1(5) s(5) by (simp_all add: shifted_def)
  obtain s3 x s4 where 2: "readtok ops ?s2 = (Inr (), s3)" "?R m 14 s3 = Some (Inr x, s4)"
    "reach ops ?s2 a TkCol ('':'' @ print_exp b @ '')'' @ post) x s4" "curtok s3 \<in> {TkNum, TkStr, TkLPar}"
    by (rule second_operand [OF a g(1-3) fa g(5) n(7) m(2) g(4) va g(6,7)]) (assumption | rule that)+
  note r2 = reach_fields [OF 2(3)]
  let ?s4 = "shifted (w \<noteq> 0) (unshifted (w = 0) s4)"
  have vb: "noeval ?s4 = 0 \<Longrightarrow> exp_value ops b (vars ?s4) \<noteq> None"
    using s(6) 1(4) 2(3) by (auto simp: shifted_def unshifted_def reach_def split: if_splits)
  have "rest s4 = print_exp b @ '')'' @ post" using 2(3) by (simp add: reach_def)
  then have g2: "good ?s4" "calm ?s4" "rest ?s4 = print_exp b @ '')'' @ post"
    "depth ?s4 + 2 * exp_height b \<le> max_depth" "12 < tok_level TkRPar" "(12::nat) \<le> 14"
    using r r2 s(5) by (cases "w = 0"; simp add: shifted_def unshifted_def)+
  obtain s5 y s6 where 3: "readtok ops ?s4 = (Inr (), s5)" "?R m 12 s5 = Some (Inr y, s6)"
    "reach ops ?s4 b TkRPar ('')'' @ post) y s6" "curtok s5 \<in> {TkNum, TkStr, TkLPar}"
    by (rule second_operand [OF b g2(1-3) follow_par rpar_neq n(8) m(2) g2(4) vb g2(5,6)]) (assumption | rule that)+
  have q: "curtok s2 = TkQues" "curtok s4 = TkCol" using r r2 by simp_all
  have x: "explor ops safe (expr ops safe n) n (s1\<lparr>depth := depth s1 + 1\<rparr>) = Some (Inr w, s2)"
    using 1(3) by (simp add: rule_at_def)
  have k: "expr ops safe n Comma s3 = Some (Inr x, s4)" "expr ops safe n Cond s5 = Some (Inr y, s6)"
    using 2(2) 3(2) unfolding m(1) rule_expr .
  have "?R n 12 (s1\<lparr>depth := depth s1 + 1\<rparr>) =
      Some (Inr (if w \<noteq> 0 then x else y), (leave (unshifted (w \<noteq> 0) s6))\<lparr>lasttok := TkCond\<rparr>)"
    using cond_once [OF x q(1) e 2(1,4) k(1) q(2) 3(1,4) k(2)] by (simp add: rule_at_def)
  then show "\<exists>s1 w s2 i. readtok ops s = (Inr (), s1) \<and> kept s s1 \<and> i \<le> 14 \<and>
        ?R n i (s1\<lparr>depth := depth s1 + 1\<rparr>) = Some (Inr w, s2) \<and>
        reach ops (s\<lparr>depth := depth s + 1\<rparr>) (If c a b) TkRPar ('')'' @ post) w s2"
    using 1(1,2) reach_cond [OF 1(4) 2(3) 3(3)]
    by (intro exI [of _ s1] exI exI [of _ 12] conjI) (assumption | simp only: g2)+
qed simp

text \<open>An assignment: the name, the operator, the value.\<close>

definition set_tok :: "assign_op option \<Rightarrow> tok" where
  "set_tok op = (case op of None \<Rightarrow> TkEq | Some op \<Rightarrow> TkOpAssign op)"

lemma set_tok_text: "tok_text (set_tok op) \<noteq> []" "tok_level (set_tok op) = 13"
  by (cases op; simp add: set_tok_def; cases "the op"; simp)+

lemma assign_once:
  assumes "expcond ops safe rec n s = Some (Inr l, s1)" "curtok s1 = set_tok op" "lasttok s1 = TkStr" "tokstr s1 = Some nm"
    and "readtok ops s1 = (Inr (), s2)" "enter safe s2 = (Inr (), s3)" "rec Assign s3 = Some (Inr y, s4)"
    and "noeval s4 = 0 \<longrightarrow> \<not> ((op = Some ADiv \<or> op = Some AMod) \<and> y = 0)"
  shows "\<exists>w. expassign ops safe rec n s = Some (Inr w, (assign ops nm w (leave s4))\<lparr>tokstr := None\<rparr>) \<and>
    (noeval s4 = 0 \<longrightarrow> w = (case op of None \<Rightarrow> y | Some op \<Rightarrow> apply_op op l y))"
proof (cases op)
  case None
  then show ?thesis using assms by (simp add: expassign_def set_tok_def ok_def)
next
  case (Some p)
  have n: "noeval (leave s4) = noeval s4" by simp
  show ?thesis
    using assms Some by (cases "noeval s4 = 0"; cases "(p = ADiv \<or> p = AMod) \<and> y = 0")
      (auto simp: expassign_def set_tok_def ok_def Let_def)
qed

lemma set_vars [simp]: "calm (s\<lparr>vars := v\<rparr>) = calm s" "rest (s\<lparr>vars := v\<rparr>) = rest s"
  by (simp_all add: calm_def rest_def)

lemma set_inner:
  assumes e: "item ops safe e" "exp_ok e" and x: "is_name x" and safe: "\<And>s. safe s"
  shows "inner_item ops safe (Set x op e)"
proof (rule inner_itemI)
  fix s post n
  let ?R = "\<lambda>n. rule_at ops safe (expr ops safe n) n"
  let ?t = "set_tok op"
  let ?tail = "tok_text ?t @ print_exp e @ '')'' @ post"
  assume s: "good s" "calm s" "rest s = print_inner (Set x op e) @ '')'' @ post" "4 * exp_height (Set x op e) \<le> n + 1"
    "depth s + 2 * exp_height (Set x op e) \<le> max_depth" "noeval s = 0 \<Longrightarrow> exp_value ops (Set x op e) (vars s) \<noteq> None"
  obtain m where m: "n = Suc m" "0 < m" using s(4) by (cases n; cases "n - 1") auto
  have sr: "rest s = x @ ?tail" using s(3) by (simp add: set_tok_def)
  have f: "follow ?t ?tail" using starts_op [OF set_tok_text(1) e(2)] by (simp add: follow_def)
  have i: "in_text s" "\<not> peeking s" "lasttok s \<notin> {TkPreInc, TkPreDec}" using s(1,2) by (auto simp: good_def calm_def)
  have vx: "?t \<noteq> TkEq \<Longrightarrow> noeval s = 0 \<Longrightarrow> var_value ops (vars s) x = Some (the (var_value ops (vars s) x))"
    using s(6) by (cases op) (auto simp: set_tok_def split: option.splits)
  have "\<exists>s1 nm. readtok ops s = (Inr (), s1) \<and> kept s s1 \<and> curtok s1 = TkStr \<and> lasttok s1 = curtok s \<and> rest s1 = ?tail \<and>
      tokstr s1 = Some nm \<and> name_of s1 nm = x \<and> (?t \<noteq> TkEq \<longrightarrow> noeval s = 0 \<longrightarrow> tokval s1 = the (var_value ops (vars s) x))"
    by (rule read_name [OF i(1,2) sr x f i(3)]) (rule vx)
  then obtain s1 nm where s1: "readtok ops s = (Inr (), s1)" "kept s s1" "curtok s1 = TkStr" "lasttok s1 = curtok s" "rest s1 = ?tail"
    "tokstr s1 = Some nm" "name_of s1 nm = x" "?t \<noteq> TkEq \<longrightarrow> noeval s = 0 \<longrightarrow> tokval s1 = the (var_value ops (vars s) x)"
    by (elim exE conjE)
  let ?s1 = "s1\<lparr>depth := depth s1 + 1\<rparr>"
  note k1 = kept_fields [OF s1(2)]
  have g1: "good ?s1" "curtok ?s1 = TkStr" "rest ?s1 = ?tail" using kept_good [OF s1(2) s(1)] s1 by simp_all
  obtain s2 where s2: "expprimary ops safe (expr ops safe n) ?s1 = Some (Inr (tokval ?s1), s2)" "expression s2 = expression ?s1"
    "noeval s2 = noeval ?s1" "depth s2 = depth ?s1" "vars s2 = vars ?s1" "good s2" "curtok s2 = ?t" "lasttok s2 = TkStr"
    "tokstr s2 = tokstr ?s1" "rest s2 = drop (length (tok_text ?t)) ?tail"
    using name_item [OF g1 f, of ops safe "expr ops safe n"] by blast
  have "?R n 0 ?s1 = Some (Inr (tokval s1), s2)"
    using s2(1) g1(2) by (simp add: rule_at_unfold(1) expunary_def Let_def)
  then have c: "expcond ops safe (expr ops safe n) n ?s1 = Some (Inr (tokval s1), s2)"
    using rule_climb [of ops safe "expr ops safe n" n 0 ?s1 "tokval s1" s2 12] s2(7) m by (simp add: set_tok_text(2) rule_at_def)
  have ve: "noeval s2 = 0 \<Longrightarrow> exp_value ops e (vars s2) \<noteq> None"
    using s(6) s2(3,5) k1 by (cases op) (auto split: option.splits)
  have g2: "calm s2" "rest s2 = print_exp e @ '')'' @ post" "4 * exp_height e \<le> m" "Suc (depth s2) + 2 * exp_height e \<le> max_depth"
    "13 < tok_level TkRPar" "(13::nat) \<le> 14"
    using s2(4,7,8,10) s(4,5) k1 m by (auto simp: calm_def set_tok_def split: option.splits)
  obtain s3 y s4 where 3: "readtok ops s2 = (Inr (), s3)" "enter safe s3 = (Inr (), s3\<lparr>depth := depth s3 + 1\<rparr>)"
    "?R m 13 (s3\<lparr>depth := depth s3 + 1\<rparr>) = Some (Inr y, s4)"
    "reach ops (s2\<lparr>depth := depth s2 + 1\<rparr>) e TkRPar ('')'' @ post) y s4"
    by (rule nested_operand [OF e s2(6) g2(1,2) follow_par rpar_neq g2(3) m(2) g2(4) ve g2(5,6) safe])
      (assumption | rule that)+
  note r = reach_fields [OF 3(4)]
  have a: "expr ops safe n Assign (s3\<lparr>depth := depth s3 + 1\<rparr>) = Some (Inr y, s4)" using 3(3) unfolding m(1) rule_expr .
  have z: "noeval s4 = 0 \<longrightarrow> \<not> ((op = Some ADiv \<or> op = Some AMod) \<and> y = 0)"
    using s(6) 3(4) r s2(3,5) k1 by (auto simp: reach_def split: option.splits)
  have nm: "tokstr s2 = Some nm" using s2(9) s1(6) by simp
  obtain w where w: "expassign ops safe (expr ops safe n) n ?s1 = Some (Inr w, (assign ops nm w (leave s4))\<lparr>tokstr := None\<rparr>)"
    "noeval s4 = 0 \<longrightarrow> w = (case op of None \<Rightarrow> y | Some op \<Rightarrow> apply_op op (tokval s1) y)"
    using assign_once [where rec = "expr ops safe n", OF c s2(7,8) nm 3(1,2) a z] by (elim exE conjE)
  let ?s5 = "(assign ops nm w (leave s4))\<lparr>tokstr := None\<rparr>"
  have "name_of (leave s4) nm = x" using s1(7) s2(2) 3(4) by (simp add: name_of_def reach_def)
  then have "reach ops (s\<lparr>depth := depth s + 1\<rparr>) (Set x op e) TkRPar ('')'' @ post) w ?s5"
    using 3(4) r k1 s2(2-5) w(2) s1(8) s(6)
    by (cases op; cases "noeval s = 0") (auto simp: reach_def assign_def set_tok_def split: option.splits)
  moreover have "?R n 13 ?s1 = Some (Inr w, ?s5)" using w(1) by (simp add: rule_at_def)
  ultimately show "\<exists>s1 w s2 i. readtok ops s = (Inr (), s1) \<and> kept s s1 \<and> i \<le> 14 \<and>
        ?R n i (s1\<lparr>depth := depth s1 + 1\<rparr>) = Some (Inr w, s2) \<and>
        reach ops (s\<lparr>depth := depth s + 1\<rparr>) (Set x op e) TkRPar ('')'' @ post) w s2"
    using s1(1,2) g2(6) by blast
qed simp

lemma every_item:
  assumes "\<And>s. safe s"
  shows "exp_ok e \<Longrightarrow> item ops safe e"
proof (induction e)
  case (Lit n)
  show ?case by (rule lit_is_item)
next
  case (Var x)
  show ?case by (rule var_is_item)
next
  case (Op1 op e)
  then show ?case by (intro paren_item [OF op1_inner] assms) auto
next
  case (Op2 op a b)
  then show ?case by (intro paren_item [OF op2_inner] assms) auto
next
  case (Pow a n)
  then show ?case by (intro paren_item [OF pow_inner] assms) auto
next
  case (LAnd a b)
  then show ?case by (intro paren_item [OF land_inner] assms) auto
next
  case (LOr a b)
  then show ?case by (intro paren_item [OF lor_inner] assms) auto
next
  case (If c a b)
  then show ?case by (intro paren_item [OF cond_inner] assms) auto
next
  case (Set x op e)
  then show ?case by (intro paren_item [OF set_inner] assms) auto
next
  case (Seq a b)
  then show ?case by (intro paren_item [OF seq_inner] assms) auto
qed

lemma exp_height_length: "2 * exp_height e \<le> length (print_exp e)"
  by (induction e) simp_all

text \<open>C10: Evaluation agrees with the meaning of the expression, a reference evaluator on syntax trees: for every
  expression tree whose names can be read, no deeper than the recursion limit allows, its text evaluates to the value
  of the tree and leaves the variables as the tree does: the operators bind and associate as printed, a skipped
  operand of \<open>&&\<close>, \<open>||\<close> and \<open>?:\<close> changes no variable and divides by nothing, and assignments store their value.\<close>

theorem evaluate_meaning:
  assumes "exp_ok e" "2 * exp_height e \<le> max_depth" "\<And>s. safe s" "exp_value ops e v = Some (w, v')"
  shows "evaluate ops safe (print_exp e) v = Some (Inr w, v')"
proof -
  let ?s = "initial_evaluator (print_exp e) v"
  let ?n = "2 * length (print_exp e) + 1"
  have it: "item ops safe e" by (rule every_item) (rule assms)+
  have s: "good ?s" "calm ?s" "rest ?s = print_exp e @ []" "depth ?s = 0" "noeval ?s = 0" "vars ?s = v"
    by (simp_all add: initial_evaluator_def good_def in_text_def calm_def rest_def)
  have f: "follow TkEnd []" "TkEnd \<noteq> TkEq" by (simp_all add: follow_def)
  have n: "4 * exp_height e \<le> ?n" "0 < ?n" "depth ?s + 2 * exp_height e \<le> max_depth" "14 < tok_level TkEnd" "(14::nat) \<le> 14"
    using exp_height_length [of e] assms(2) s(4) by simp_all
  have v: "noeval ?s = 0 \<Longrightarrow> exp_value ops e (vars ?s) \<noteq> None" using assms(4) s(6) by simp
  obtain s1 y s2 where r: "readtok ops ?s = (Inr (), s1)"
    "rule_at ops safe (expr ops safe ?n) ?n 14 s1 = Some (Inr y, s2)" "reach ops ?s e TkEnd [] y s2"
    by (rule exE [OF read_item [OF it s(1,2) assms(1) s(3) f n(1-3) v n(4,5)]]) (assumption, elim exE conjE, rule that)
  have y: "y = w" "vars s2 = v'" "curtok s2 = TkEnd" using r(3) assms(4) s(5,6) by (simp_all add: reach_def)
  have b: "\<not> list_all is_blank (print_exp e)"
    using print_exp_hd [OF assms(1)] item_char_not(2) by (cases "print_exp e") auto
  have "expr ops safe (2 * length (print_exp e) + 2) Comma s1 = Some (Inr y, s2)"
    using r(2) unfolding rule_expr(1) [symmetric] by simp
  then show ?thesis
    using r(1) y b by (simp add: evaluate_def run_with_def Let_def ok_def del: expr.simps)
qed

definition sample_exp :: aexp where
  "sample_exp = If (Op2 BGt (Var ''x'') (Lit 3)) (Set ''y'' (Some APlus) (Pow (Lit 2) 10)) (Op2 BDiv (Lit 1) (Lit 0))"

definition sample_env :: shell_exec_env where
  "sample_env = \<lparr>shell_env = [''x'' \<mapsto> ''5''], cmd_local_env = Map.empty, export_env = [''y'' \<mapsto> ''0x7'']\<rparr>"

lemma evaluate_meaning_witness:
  "print_exp sample_exp = ''((x>3)?(y+=(2**10)):(1/0))'' \<and>
    evaluate shell_variables (\<lambda>s. True) (print_exp sample_exp) sample_env =
      Some (Inr 1031, sample_env\<lparr>shell_env := [''x'' \<mapsto> ''5'', ''y'' \<mapsto> ''1031'']\<rparr>)"
proof -
  have n: "arith_constant ''5'' = Inr 5" "arith_constant ''0x7'' = Inr 7" "show_i64 1031 = ''1031''"
    "apply_op APlus 7 1024 = 1031" "is_name ''x''" "is_name ''y''" by code_simp+
  have v: "exp_value shell_variables sample_exp sample_env = Some (1031, sample_env\<lparr>shell_env := [''x'' \<mapsto> ''5'', ''y'' \<mapsto> ''1031'']\<rparr>)"
    by (simp add: sample_exp_def sample_env_def shell_variables_def var_value_def shell_get_def shell_set_def assign_var_def
        env_map_insert_def bin_value_def of_bool_i64_def n)
  have e: "exp_ok sample_exp" "2 * exp_height sample_exp \<le> max_depth" by (simp_all add: sample_exp_def max_depth_def n)
  have "evaluate shell_variables (\<lambda>s. True) (print_exp sample_exp) sample_env =
      Some (Inr 1031, sample_env\<lparr>shell_env := [''x'' \<mapsto> ''5'', ''y'' \<mapsto> ''1031'']\<rparr>)"
    by (rule evaluate_meaning [OF e _ v]) simp
  moreover have "print_exp sample_exp = ''((x>3)?(y+=(2**10)):(1/0))''" by code_simp
  ultimately show ?thesis by simp
qed

end
