(* ===== verification/Pairing_Heap.thy ===== *)
theory Pairing_Heap
  imports Prelude "HOL-Library.Tree" "HOL-Library.Multiset"
begin

text \<open>
  \<^verbatim>\<open>src/io/heap.rs\<close>: the intrusive pairing heap under the timers and the lifecycle scripts. A node is an
  address \<open>'n\<close>, and the store gives the \<^verbatim>\<open>IntrusiveField\<close> of each node: the pointers \<^verbatim>\<open>child\<close>, \<^verbatim>\<open>prev\<close> and
  \<^verbatim>\<open>next\<close>, where \<open>None\<close> is null. What else a node holds is not touched; the comparison of the trait
  \<^verbatim>\<open>HeapContext\<close> is the argument \<open>lt\<close>. Every assignment of the code is an update of the store, in its
  order, and the loops are partial functions, so returning is part of what is proved.

  A list of siblings is a binary tree, the child on the left and the next sibling on the right, with
  \<^verbatim>\<open>prev\<close> as the parent (\<open>rep\<close>). The lemmas show that each operation takes such a tree to the tree that a
  functional pairing heap has (\<open>link\<close>, \<open>pairs\<close>, \<open>fold_links\<close>, \<open>cut\<close>) and touches nothing else. On top of
  that stand the members (\<open>heap_set\<close>), which need no order, and the least member (\<open>heap_inv\<close>), which does.
\<close>

section \<open>The code\<close>

record 'n links =
  link_child :: "'n option"
  link_prev :: "'n option"
  link_next :: "'n option"

type_synonym 'n store = "'n \<Rightarrow> 'n links"

definition default_links :: "'n links" where
  "default_links = \<lparr>link_child = None, link_prev = None, link_next = None\<rparr>"

record 'n heap =
  h_root :: "'n option"
  h_store :: "'n store"

definition set_child :: "'n \<Rightarrow> 'n option \<Rightarrow> 'n store \<Rightarrow> 'n store" where
  "set_child x p st = st(x := (st x)\<lparr>link_child := p\<rparr>)"

definition set_prev :: "'n \<Rightarrow> 'n option \<Rightarrow> 'n store \<Rightarrow> 'n store" where
  "set_prev x p st = st(x := (st x)\<lparr>link_prev := p\<rparr>)"

definition set_next :: "'n \<Rightarrow> 'n option \<Rightarrow> 'n store \<Rightarrow> 'n store" where
  "set_next x p st = st(x := (st x)\<lparr>link_next := p\<rparr>)"

definition meld :: "('n \<Rightarrow> 'n \<Rightarrow> bool) \<Rightarrow> 'n \<Rightarrow> 'n \<Rightarrow> 'n store \<Rightarrow> 'n store \<times> 'n" where
  "meld lt a b st =
     (if lt a b then
        (let st = set_prev b (Some a) st;
             b_next = link_next (st b);
             st = (case b_next of
                     None \<Rightarrow> st
                   | Some bn \<Rightarrow> set_next b None (set_prev bn (Some a) (set_next a b_next st)));
             a_child = link_child (st a);
             st = (case a_child of
                     None \<Rightarrow> st
                   | Some ac \<Rightarrow> set_prev ac (Some b) (set_next b a_child st))
         in (set_child a (Some b) st, a))
      else
        (let st = set_prev b (link_prev (st a)) st;
             st = set_prev a (Some b) st;
             b_child = link_child (st b);
             st = (case b_child of
                     None \<Rightarrow> st
                   | Some bc \<Rightarrow> set_prev bc (Some a) (set_next a b_child st))
         in (set_child b (Some a) st, b)))"

partial_function (option) merge_right :: "('n \<Rightarrow> 'n \<Rightarrow> bool) \<Rightarrow> 'n \<Rightarrow> 'n store \<Rightarrow> ('n store \<times> 'n) option" where
  "merge_right lt a st =
     (case link_next (st a) of
        None \<Rightarrow> Some (st, a)
      | Some b \<Rightarrow>
          (case meld lt a b (set_next a None st) of (st, b) \<Rightarrow>
             (case link_next (st b) of
                None \<Rightarrow> Some (st, b)
              | Some next_a \<Rightarrow> merge_right lt next_a st)))"

partial_function (option) merge_left :: "('n \<Rightarrow> 'n \<Rightarrow> bool) \<Rightarrow> 'n \<Rightarrow> 'n store \<Rightarrow> ('n store \<times> 'n) option" where
  "merge_left lt root st =
     (case link_prev (st root) of
        None \<Rightarrow> Some (st, root)
      | Some b \<Rightarrow>
          (case meld lt b root (set_next b None st) of (st, root) \<Rightarrow> merge_left lt root st))"

definition combine_siblings :: "('n \<Rightarrow> 'n \<Rightarrow> bool) \<Rightarrow> 'n \<Rightarrow> 'n store \<Rightarrow> ('n store \<times> 'n) option" where
  "combine_siblings lt leftmost st =
     (case merge_right lt leftmost (set_prev leftmost None st) of
        None \<Rightarrow> None
      | Some (st, root) \<Rightarrow> merge_left lt root st)"

definition heap_default :: "'n store \<Rightarrow> 'n heap" where
  "heap_default st = \<lparr>h_root = None, h_store = st\<rparr>"

definition heap_insert :: "('n \<Rightarrow> 'n \<Rightarrow> bool) \<Rightarrow> 'n \<Rightarrow> 'n heap \<Rightarrow> 'n heap" where
  "heap_insert lt v h =
     (case h_root h of
        Some r \<Rightarrow> (case meld lt v r (h_store h) of (st, m) \<Rightarrow> \<lparr>h_root = Some m, h_store = st\<rparr>)
      | None \<Rightarrow> h\<lparr>h_root := Some v\<rparr>)"

definition peek :: "'n heap \<Rightarrow> 'n option" where
  "peek h = h_root h"

definition delete_min :: "('n \<Rightarrow> 'n \<Rightarrow> bool) \<Rightarrow> 'n heap \<Rightarrow> ('n heap \<times> 'n option) option" where
  "delete_min lt h =
     (case h_root h of
        None \<Rightarrow> Some (h, None)
      | Some r \<Rightarrow>
          (case link_child (h_store h r) of
             Some child \<Rightarrow>
               (case combine_siblings lt child (h_store h) of
                  None \<Rightarrow> None
                | Some (st, m) \<Rightarrow> Some (\<lparr>h_root = Some m, h_store = st(r := default_links)\<rparr>, Some r))
           | None \<Rightarrow> Some (\<lparr>h_root = None, h_store = (h_store h)(r := default_links)\<rparr>, Some r)))"

text \<open>In \<^verbatim>\<open>remove\<close>, unlinking \<open>v\<close> from its siblings and its parent.\<close>

definition detach :: "'n \<Rightarrow> 'n \<Rightarrow> 'n store \<Rightarrow> 'n store" where
  "detach v prev st =
     (let v_next = link_next (st v);
          st = (case v_next of None \<Rightarrow> st | Some vn \<Rightarrow> set_prev vn (Some prev) st);
          st = (if link_child (st prev) = Some v then set_child prev v_next st else set_next prev v_next st)
      in set_next v None (set_prev v None st))"

definition heap_remove :: "('n \<Rightarrow> 'n \<Rightarrow> bool) \<Rightarrow> 'n \<Rightarrow> 'n heap \<Rightarrow> 'n heap option" where
  "heap_remove lt v h =
     (case link_prev (h_store h v) of
        None \<Rightarrow> map_option fst (delete_min lt h)
      | Some prev \<Rightarrow>
          (let st = detach v prev (h_store h)
           in case link_child (st v) of
                None \<Rightarrow> Some (h\<lparr>h_store := st\<rparr>)
              | Some child \<Rightarrow>
                  (case combine_siblings lt child (set_child v None st) of
                     None \<Rightarrow> None
                   | Some (st, x) \<Rightarrow>
                       (case h_root h of
                          None \<Rightarrow> None
                        | Some r \<Rightarrow> (case meld lt x r st of (st, m) \<Rightarrow> Some \<lparr>h_root = Some m, h_store = st\<rparr>)))))"

text \<open>\<^verbatim>\<open>for_each\<close>: the two inner loops that look for the next node, and the walk. The closure is a
  function on the state it captures.\<close>

partial_function (option) climb :: "'n store \<Rightarrow> 'n \<Rightarrow> 'n option \<Rightarrow> 'n option option" where
  "climb st node prev =
     (case prev of
        None \<Rightarrow> Some None
      | Some p \<Rightarrow> if link_child (st p) = Some node then Some (Some p) else climb st p (link_prev (st p)))"

partial_function (option) step_over :: "'n store \<Rightarrow> 'n \<Rightarrow> 'n option option" where
  "step_over st node =
     (case link_next (st node) of
        Some n \<Rightarrow> Some (Some n)
      | None \<Rightarrow>
          (case climb st node (link_prev (st node)) of
             None \<Rightarrow> None
           | Some None \<Rightarrow> Some None
           | Some (Some p) \<Rightarrow> step_over st p))"

partial_function (option) walk :: "('n \<Rightarrow> 's \<Rightarrow> 's) \<Rightarrow> 'n store \<Rightarrow> 'n \<Rightarrow> 's \<Rightarrow> 's option" where
  "walk f st node s =
     (case link_child (st node) of
        Some child \<Rightarrow> walk f st child (f node s)
      | None \<Rightarrow>
          (case step_over st node of
             None \<Rightarrow> None
           | Some None \<Rightarrow> Some (f node s)
           | Some (Some n) \<Rightarrow> walk f st n (f node s)))"

definition for_each :: "('n \<Rightarrow> 's \<Rightarrow> 's) \<Rightarrow> 'n heap \<Rightarrow> 's \<Rightarrow> 's option" where
  "for_each f h s = (case h_root h of None \<Rightarrow> Some s | Some node \<Rightarrow> walk f (h_store h) node s)"

definition heap_count :: "'n heap \<Rightarrow> nat option" where
  "heap_count h = for_each (\<lambda>node result. result + 1) h 0"

definition find_max :: "('n \<Rightarrow> 'n \<Rightarrow> bool) \<Rightarrow> 'n heap \<Rightarrow> 'n option option" where
  "find_max lt h =
     for_each (\<lambda>node max_so_far. case max_so_far of
         None \<Rightarrow> None
       | Some m \<Rightarrow> if lt m node then Some node else max_so_far) h (h_root h)"

declare merge_right.simps [code] merge_left.simps [code]

section \<open>Trees in the store\<close>

text \<open>A node with its leftmost child and its next sibling is a binary tree: \<^verbatim>\<open>prev\<close> is the parent in it.\<close>

fun rep :: "'n store \<Rightarrow> 'n option \<Rightarrow> 'n tree \<Rightarrow> 'n option \<Rightarrow> bool" where
  "rep st p Leaf q \<longleftrightarrow> q = None"
| "rep st p (Node l x r) q \<longleftrightarrow> q = Some x \<and> link_prev (st x) = p \<and>
     rep st (Some x) l (link_child (st x)) \<and> rep st (Some x) r (link_next (st x))"

lemma rep_upd [simp]: "x \<notin> set (preorder t) \<Longrightarrow> rep (st(x := k)) p t q = rep st p t q"
  by (induction t arbitrary: p q) auto

lemma rep_frame: "(\<And>x. x \<in> set (preorder t) \<Longrightarrow> st' x = st x) \<Longrightarrow> rep st' p t q = rep st p t q"
  by (induction t arbitrary: p q) auto

definition link :: "('n \<Rightarrow> 'n \<Rightarrow> bool) \<Rightarrow> 'n tree \<times> 'n \<Rightarrow> 'n tree \<times> 'n \<Rightarrow> 'n tree \<times> 'n" where
  "link lt a b =
     (if lt (snd a) (snd b) then (Node (fst b) (snd b) (fst a), snd a) else (Node (fst a) (snd a) (fst b), snd b))"

lemma meld_less:
  assumes "lt a b" "rep st (Some a) la (link_child (st a))" "link_next (st a) = None"
    and "rep st (Some b) lb (link_child (st b))" "rep st (Some b) rb (link_next (st b))"
    and "distinct (a # b # preorder la @ preorder lb @ preorder rb)" "meld lt a b st = (st', m)"
  shows "m = a \<and> rep st' (Some a) (Node lb b la) (link_child (st' a)) \<and> rep st' (Some a) rb (link_next (st' a)) \<and>
    link_prev (st' a) = link_prev (st a) \<and>
    (\<forall>x. x \<notin> set (a # b # preorder la @ preorder lb @ preorder rb) \<longrightarrow> st' x = st x)"
proof -
  have "a \<noteq> b" "b \<noteq> a" using assms(6) by auto
  then show ?thesis
    using assms
    by (cases la; cases rb) (clarsimp simp: meld_def Let_def set_child_def set_prev_def set_next_def)+
qed
lemma meld_not_less:
  assumes "\<not> lt a b" "rep st (Some a) la (link_child (st a))" "link_next (st a) = None"
    and "rep st (Some b) lb (link_child (st b))" "rep st (Some b) rb (link_next (st b))"
    and "distinct (a # b # preorder la @ preorder lb @ preorder rb)" "meld lt a b st = (st', m)"
  shows "m = b \<and> rep st' (Some b) (Node la a lb) (link_child (st' b)) \<and> rep st' (Some b) rb (link_next (st' b)) \<and>
    link_prev (st' b) = link_prev (st a) \<and>
    (\<forall>x. x \<notin> set (a # b # preorder la @ preorder lb @ preorder rb) \<longrightarrow> st' x = st x)"
proof -
  have "a \<noteq> b" "b \<noteq> a" using assms(6) by auto
  then show ?thesis
    using assms
    by (cases lb) (clarsimp simp: meld_def Let_def set_child_def set_prev_def set_next_def)+
qed

lemma meld_rep:
  assumes "rep st (Some a) la (link_child (st a))" "link_next (st a) = None"
    and "rep st (Some b) lb (link_child (st b))" "rep st (Some b) rb (link_next (st b))"
    and "distinct (a # b # preorder la @ preorder lb @ preorder rb)" "meld lt a b st = (st', m)"
    and "link lt (la, a) (lb, b) = (l, x)"
  shows "m = x \<and> rep st' (Some x) l (link_child (st' x)) \<and> rep st' (Some x) rb (link_next (st' x)) \<and>
    link_prev (st' x) = link_prev (st a) \<and>
    (\<forall>x. x \<notin> set (a # b # preorder la @ preorder lb @ preorder rb) \<longrightarrow> st' x = st x)"
proof (cases "lt a b")
  case True
  then have "l = Node lb b la" "x = a" using assms(7) by (simp_all add: link_def)
  then show ?thesis using meld_less [OF True assms(1-6)] by blast
next
  case False
  then have "l = Node la a lb" "x = b" using assms(7) by (simp_all add: link_def)
  then show ?thesis using meld_not_less [OF False assms(1-6)] by blast
qed

text \<open>The roots that \<^verbatim>\<open>combine_siblings\<close> has merged so far: the last one, and from each the one before it, by
  \<^verbatim>\<open>prev\<close>. Their \<^verbatim>\<open>next\<close> may still point to a node that was melded under another.\<close>

fun chain :: "'n store \<Rightarrow> ('n tree \<times> 'n) list \<Rightarrow> 'n option \<Rightarrow> bool" where
  "chain st [] q \<longleftrightarrow> q = None"
| "chain st ((l, x) # ms) q \<longleftrightarrow> q = Some x \<and> rep st (Some x) l (link_child (st x)) \<and> chain st ms (link_prev (st x))"

fun chain_nodes :: "('n tree \<times> 'n) list \<Rightarrow> 'n list" where
  "chain_nodes [] = []"
| "chain_nodes ((l, x) # ms) = x # preorder l @ chain_nodes ms"

lemma chain_frame: "(\<And>x. x \<in> set (chain_nodes ms) \<Longrightarrow> st' x = st x) \<Longrightarrow> chain st' ms q = chain st ms q"
proof (induction ms arbitrary: q)
  case (Cons m ms)
  obtain l x where m: "m = (l, x)" by fastforce
  have "rep st' (Some x) l (link_child (st x)) = rep st (Some x) l (link_child (st x))"
    using Cons.prems m by (intro rep_frame) simp
  then show ?case using Cons m by simp
qed simp

fun pairs :: "('n \<Rightarrow> 'n \<Rightarrow> bool) \<Rightarrow> 'n tree \<Rightarrow> ('n tree \<times> 'n) list" where
  "pairs lt Leaf = []"
| "pairs lt (Node l x Leaf) = [(l, x)]"
| "pairs lt (Node lx x (Node ly y r)) = link lt (lx, x) (ly, y) # pairs lt r"

lemma merge_right_rep:
  assumes "rep st p t (Some a)" "chain st ms p" "distinct (preorder t @ chain_nodes ms)"
  shows "\<exists>st' x. merge_right lt a st = Some (st', x) \<and> chain st' (rev (pairs lt t) @ ms) (Some x) \<and> link_next (st' x) = None \<and>
    (\<forall>x. x \<notin> set (preorder t) \<longrightarrow> st' x = st x)"
  using assms
proof (induction lt t arbitrary: st p a ms rule: pairs.induct)
  case (1 lt)
  then show ?case by simp
next
  case (2 lt l x)
  then show ?case by (subst merge_right.simps) auto
next
  case (3 lt lx x ly y r)
  let ?st = "set_next a None st"
  have a: "a = x" "link_next (st a) = Some y" "link_prev (st a) = p" using 3 by simp_all
  have neq: "x \<noteq> y" "x \<notin> set_tree lx" "x \<notin> set_tree ly" "x \<notin> set_tree r" using "3.prems"(3) by auto
  have pre: "rep ?st (Some x) lx (link_child (?st x))" "link_next (?st x) = None" "rep ?st (Some y) ly (link_child (?st y))"
    "rep ?st (Some y) r (link_next (?st y))" "distinct (x # y # preorder lx @ preorder ly @ preorder r)"
    using 3 neq a(1) by (auto simp: set_next_def)
  obtain st1 m l1 x1 where m: "meld lt x y ?st = (st1, m)" "link lt (lx, x) (ly, y) = (l1, x1)" by fastforce
  note r = meld_rep [OF pre m]
  have x1: "x1 \<in> {x, y}" "set (preorder l1) \<union> {x1} = {x, y} \<union> set (preorder lx) \<union> set (preorder ly)"
    "distinct (x1 # preorder l1)"
    using m(2) pre(5) by (auto simp: link_def split: if_splits)
  have fr: "st1 z = st z" if "z \<notin> set (x # y # preorder lx @ preorder ly @ preorder r)" for z
    using r that a(1) by (auto simp: set_next_def)
  have "st1 z = st z" if "z \<in> set (chain_nodes ms)" for z
    by (rule fr) (use that "3.prems"(3) in auto)
  then have c: "chain st1 ms p" using "3.prems"(2) chain_frame by blast
  have prev: "link_prev (st1 x1) = p" using r a neq by (simp add: set_next_def)
  show ?case
  proof (cases r)
    case Leaf
    then have "link_next (st1 x1) = None" using r by simp
    then have "merge_right lt a st = Some (st1, x1)"
      using a m(1) r by (subst merge_right.simps) simp
    then show ?thesis using r c prev Leaf m(2) fr \<open>link_next (st1 x1) = None\<close>
      by (intro exI [of _ st1] exI [of _ x1]) auto
  next
    case (Node lz z rz)
    have "rep st1 (Some x1) r (Some z)" "link_next (st1 x1) = Some z" using r Node by auto
    moreover have "chain st1 ((l1, x1) # ms) (Some x1)" using r c prev by simp
    moreover have "distinct (preorder r @ chain_nodes ((l1, x1) # ms))"
      using "3.prems"(3) x1 by auto
    ultimately obtain st2 w where w: "merge_right lt z st1 = Some (st2, w)"
      "chain st2 (rev (pairs lt r) @ (l1, x1) # ms) (Some w)" "link_next (st2 w) = None"
      "\<forall>x. x \<notin> set (preorder r) \<longrightarrow> st2 x = st1 x"
      using "3.IH" by blast
    have "merge_right lt a st = Some (st2, w)"
      using a m(1) r w(1) \<open>link_next (st1 x1) = Some z\<close> by (subst merge_right.simps) simp
    then show ?thesis using w m(2) fr by (intro exI [of _ st2] exI [of _ w]) auto
  qed
qed

text \<open>The second loop melds them into one, from the last to the first.\<close>

definition fold_links :: "('n \<Rightarrow> 'n \<Rightarrow> bool) \<Rightarrow> 'n tree \<times> 'n \<Rightarrow> ('n tree \<times> 'n) list \<Rightarrow> 'n tree \<times> 'n" where
  "fold_links lt = foldl (\<lambda>acc m. link lt m acc)"

lemma merge_left_rep:
  assumes "chain st ((l, x) # ms) (Some x)" "link_next (st x) = None" "distinct (chain_nodes ((l, x) # ms))"
    and "fold_links lt (l, x) ms = (l', x')"
  shows "\<exists>st'. merge_left lt x st = Some (st', x') \<and> rep st' None (Node l' x' Leaf) (Some x') \<and>
    (\<forall>z. z \<notin> set (chain_nodes ((l, x) # ms)) \<longrightarrow> st' z = st z)"
  using assms
proof (induction ms arbitrary: st l x)
  case Nil
  then show ?case by (subst merge_left.simps) (auto simp: fold_links_def)
next
  case (Cons m ms)
  obtain lb b where m: "m = (lb, b)" by fastforce
  let ?st = "set_next b None st"
  have b: "link_prev (st x) = Some b" "rep st (Some b) lb (link_child (st b))" "chain st ms (link_prev (st b))"
    using Cons.prems(1) m by simp_all
  have d: "distinct (b # x # preorder lb @ preorder l @ preorder Leaf)" using Cons.prems(3) m by auto
  have pre: "rep ?st (Some b) lb (link_child (?st b))" "link_next (?st b) = None" "rep ?st (Some x) l (link_child (?st x))"
    "rep ?st (Some x) Leaf (link_next (?st x))"
    using Cons.prems b d m by (auto simp: set_next_def)
  obtain st1 k l1 x1 where k: "meld lt b x ?st = (st1, k)" "link lt (lb, b) (l, x) = (l1, x1)" by fastforce
  note r = meld_rep [OF pre d k]
  have x1: "set (preorder l1) \<union> {x1} = {x, b} \<union> set (preorder l) \<union> set (preorder lb)" "distinct (x1 # preorder l1)"
    using k(2) d by (auto simp: link_def split: if_splits)
  have fr: "st1 z = st z" if "z \<notin> set (b # x # preorder lb @ preorder l)" for z
    using r that by (auto simp: set_next_def)
  have "st1 z = st z" if "z \<in> set (chain_nodes ms)" for z
    by (rule fr) (use that Cons.prems(3) m in auto)
  then have "chain st1 ms (link_prev (st b))" using b(3) chain_frame by blast
  moreover have "link_prev (st1 x1) = link_prev (st b)" using r by (simp add: set_next_def)
  ultimately have "chain st1 ((l1, x1) # ms) (Some x1)" using r by simp
  moreover have "link_next (st1 x1) = None" using r by simp
  moreover have "distinct (chain_nodes ((l1, x1) # ms))" using Cons.prems(3) m x1 by auto
  moreover have "fold_links lt (l1, x1) ms = (l', x')" using Cons.prems(4) m k(2) by (simp add: fold_links_def)
  ultimately obtain st2 where s2: "merge_left lt x1 st1 = Some (st2, x')" "rep st2 None (Node l' x' Leaf) (Some x')"
    "\<forall>z. z \<notin> set (chain_nodes ((l1, x1) # ms)) \<longrightarrow> st2 z = st1 z"
    using Cons.IH by blast
  have "merge_left lt x st = Some (st2, x')"
    using b(1) k(1) r s2(1) by (subst merge_left.simps) simp
  moreover have "st2 z = st z" if "z \<notin> set (chain_nodes ((l, x) # m # ms))" for z
    using s2(3) fr that m x1(1) by auto
  ultimately show ?case using s2(2) by blast
qed

definition combine :: "('n \<Rightarrow> 'n \<Rightarrow> bool) \<Rightarrow> 'n tree \<Rightarrow> 'n tree" where
  "combine lt t =
     (case rev (pairs lt t) of
        [] \<Rightarrow> Leaf
      | m # ms \<Rightarrow> (case fold_links lt m ms of (l, x) \<Rightarrow> Node l x Leaf))"

lemma pairs_nonempty: "t \<noteq> Leaf \<Longrightarrow> pairs lt t \<noteq> []"
  by (cases "(lt, t)" rule: pairs.cases) auto

lemma link_nodes: "link lt (la, a) (lb, b) = (l, x) \<Longrightarrow>
    mset (x # preorder l) = mset (a # preorder la) + mset (b # preorder lb)"
  by (auto simp: link_def split: if_splits)

lemma pairs_nodes: "mset (chain_nodes (pairs lt t)) = mset (preorder t)"
proof (induction lt t rule: pairs.induct)
  case (3 lt lx x ly y r)
  obtain l z where "link lt (lx, x) (ly, y) = (l, z)" by fastforce
  then show ?case using link_nodes [of lt lx x ly y l z] 3 by simp
qed simp_all

lemma chain_nodes_append: "chain_nodes (xs @ ys) = chain_nodes xs @ chain_nodes ys"
  by (induction xs) auto

lemma chain_nodes_rev: "mset (chain_nodes (rev ms)) = mset (chain_nodes ms)"
  by (induction ms) (auto simp: chain_nodes_append)

lemma fold_links_nodes: "fold_links lt (l, x) ms = (l', x') \<Longrightarrow>
    mset (x' # preorder l') = mset (chain_nodes ((l, x) # ms))"
proof (induction ms arbitrary: l x)
  case (Cons m ms)
  obtain lb b where m: "m = (lb, b)" by fastforce
  obtain l1 x1 where k: "link lt (lb, b) (l, x) = (l1, x1)" by fastforce
  then have "fold_links lt (l1, x1) ms = (l', x')" using Cons.prems m by (simp add: fold_links_def)
  then show ?case using Cons.IH link_nodes [OF k] m by (simp add: ac_simps)
qed (simp add: fold_links_def)

lemma combine_cases:
  assumes "t \<noteq> Leaf"
  obtains l x ms l' x' where "rev (pairs lt t) = (l, x) # ms" "fold_links lt (l, x) ms = (l', x')"
    "combine lt t = Node l' x' Leaf" "mset (x' # preorder l') = mset (preorder t)"
proof -
  obtain l x ms where r: "rev (pairs lt t) = (l, x) # ms"
    using pairs_nonempty [OF assms] by (cases "rev (pairs lt t)") auto
  obtain l' x' where f: "fold_links lt (l, x) ms = (l', x')" by fastforce
  have "mset (chain_nodes ((l, x) # ms)) = mset (preorder t)"
    using r chain_nodes_rev [of "pairs lt t"] pairs_nodes [of lt t] by simp
  then show thesis using that [OF r f] f r fold_links_nodes [OF f] by (simp add: combine_def)
qed

lemma combine_nodes: "mset (preorder (combine lt t)) = mset (preorder t)"
proof (cases t)
  case (Node l x r)
  then have "t \<noteq> Leaf" by simp
  then show ?thesis by (rule combine_cases [of t lt]) simp
qed (simp add: combine_def)

lemma combine_siblings_rep:
  assumes "rep st p t (Some a)" "distinct (preorder t)"
  shows "\<exists>st' l x. combine_siblings lt a st = Some (st', x) \<and> combine lt t = Node l x Leaf \<and>
    rep st' None (combine lt t) (Some x) \<and> (\<forall>z. z \<notin> set (preorder t) \<longrightarrow> st' z = st z)"
proof -
  let ?st = "set_prev a None st"
  have t: "t \<noteq> Leaf" "a \<in> set (preorder t)" using assms(1) by (cases t; simp)+
  have fr: "?st z = st z" if "z \<notin> set (preorder t)" for z using that t(2) by (auto simp: set_prev_def)
  have "rep ?st None t (Some a)" using assms by (cases t) (auto simp: set_prev_def)
  then obtain st1 r where r: "merge_right lt a ?st = Some (st1, r)" "chain st1 (rev (pairs lt t)) (Some r)" "link_next (st1 r) = None"
    "\<forall>x. x \<notin> set (preorder t) \<longrightarrow> st1 x = ?st x"
    using merge_right_rep [of ?st None t a "[]" lt] assms(2) by auto
  obtain l x ms l' x' where c: "rev (pairs lt t) = (l, x) # ms" "fold_links lt (l, x) ms = (l', x')"
    "combine lt t = Node l' x' Leaf" using combine_cases [OF t(1)] by metis
  have m: "mset (chain_nodes ((l, x) # ms)) = mset (preorder t)"
    using c(1) chain_nodes_rev [of "pairs lt t"] pairs_nodes [of lt t] by simp
  then have d: "distinct (chain_nodes ((l, x) # ms))" using assms(2) by (metis mset_eq_imp_distinct_iff)
  have x: "x = r" "chain st1 ((l, x) # ms) (Some x)" using r(2) c(1) by simp_all
  then obtain st2 where st2: "merge_left lt x st1 = Some (st2, x')" "rep st2 None (Node l' x' Leaf) (Some x')"
    "\<forall>z. z \<notin> set (chain_nodes ((l, x) # ms)) \<longrightarrow> st2 z = st1 z"
    using merge_left_rep [OF x(2) _ d c(2)] r(3) by blast
  have "st2 z = st z" if "z \<notin> set (preorder t)" for z
    using st2(3) r(4) fr that m by (metis mset_eq_setD)
  then show ?thesis using r(1) st2(1,2) x(1) c(3) by (auto simp: combine_siblings_def)
qed

section \<open>The heap as a tree\<close>

definition heap_is :: "'n heap \<Rightarrow> 'n tree \<Rightarrow> bool" where
  "heap_is h t \<longleftrightarrow> rep (h_store h) None t (h_root h) \<and> distinct (preorder t) \<and> (t = Leaf \<or> (\<exists>l x. t = Node l x Leaf))"

definition tree_meld :: "('n \<Rightarrow> 'n \<Rightarrow> bool) \<Rightarrow> 'n tree \<Rightarrow> 'n tree \<Rightarrow> 'n tree" where
  "tree_meld lt s t =
     (case (s, t) of (Node la a ra, Node lb b rb) \<Rightarrow> (case link lt (la, a) (lb, b) of (l, x) \<Rightarrow> Node l x rb) | (Leaf, t) \<Rightarrow> t | (s, Leaf) \<Rightarrow> s)"

fun cut :: "'n \<Rightarrow> 'n tree \<Rightarrow> 'n tree" where
  "cut v Leaf = Leaf"
| "cut v (Node l x r) = (if x = v then r else Node (cut v l) x (cut v r))"

fun below :: "'n \<Rightarrow> 'n tree \<Rightarrow> 'n tree" where
  "below v Leaf = Leaf"
| "below v (Node l x r) = (if x = v then l else if v \<in> set_tree l then below v l else below v r)"

lemma heap_insert_is:
  assumes "heap_is h t" "v \<notin> set_tree t" "h_store h v = default_links"
  shows "heap_is (heap_insert lt v h) (tree_meld lt (Node Leaf v Leaf) t)"
    and "x \<notin> insert v (set_tree t) \<Longrightarrow> h_store (heap_insert lt v h) x = h_store h x"
proof -
  have "heap_is (heap_insert lt v h) (tree_meld lt (Node Leaf v Leaf) t) \<and>
    (\<forall>x. x \<notin> insert v (set_tree t) \<longrightarrow> h_store (heap_insert lt v h) x = h_store h x)"
  proof (cases t)
    case Leaf
    then show ?thesis using assms by (simp add: heap_is_def heap_insert_def tree_meld_def default_links_def)
  next
    case (Node l y r)
    then have t: "r = Leaf" "h_root h = Some y" "link_prev (h_store h y) = None" "rep (h_store h) (Some y) l (link_child (h_store h y))"
      "link_next (h_store h y) = None" using assms(1) by (auto simp: heap_is_def)
    have d: "distinct (v # y # preorder Leaf @ preorder l @ preorder Leaf)" using assms Node by (auto simp: heap_is_def)
    obtain st m l1 x1 where m: "meld lt v y (h_store h) = (st, m)" "link lt (Leaf, v) (l, y) = (l1, x1)" by fastforce
    have pre: "rep (h_store h) (Some v) Leaf (link_child (h_store h v))" "link_next (h_store h v) = None"
      "rep (h_store h) (Some y) Leaf (link_next (h_store h y))" using assms(3) t by (simp_all add: default_links_def)
    note r = meld_rep [OF pre(1,2) t(4) pre(3) d m]
    have "distinct (x1 # preorder l1)" using d m(2) by (auto simp: link_def split: if_splits)
    then show ?thesis using r m t assms(3) Node
      by (auto simp: heap_is_def heap_insert_def tree_meld_def default_links_def)
  qed
  then show "heap_is (heap_insert lt v h) (tree_meld lt (Node Leaf v Leaf) t)"
    "x \<notin> insert v (set_tree t) \<Longrightarrow> h_store (heap_insert lt v h) x = h_store h x" by blast+
qed

lemma delete_min_is:
  assumes "heap_is h (Node l x r)"
  shows "\<exists>h'. delete_min lt h = Some (h', Some x) \<and> heap_is h' (combine lt l) \<and> h_store h' x = default_links \<and>
    (\<forall>z. z \<notin> insert x (set_tree l) \<longrightarrow> h_store h' z = h_store h z)"
proof -
  have h: "r = Leaf" "h_root h = Some x" "rep (h_store h) (Some x) l (link_child (h_store h x))" "x \<notin> set_tree l" "distinct (preorder l)"
    using assms by (auto simp: heap_is_def)
  show ?thesis
  proof (cases l)
    case Leaf
    then show ?thesis using h by (auto simp: delete_min_def heap_is_def combine_def)
  next
    case (Node ll y lr)
    then have c: "link_child (h_store h x) = Some y" "rep (h_store h) (Some x) l (Some y)" using h(3) by simp_all
    obtain st l' m where s: "combine_siblings lt y (h_store h) = Some (st, m)" "combine lt l = Node l' m Leaf"
      "rep st None (combine lt l) (Some m)" "\<forall>z. z \<notin> set (preorder l) \<longrightarrow> st z = h_store h z"
      using combine_siblings_rep [OF c(2) h(5)] by blast
    have n: "mset (preorder (combine lt l)) = mset (preorder l)" by (rule combine_nodes)
    then have d: "distinct (preorder (combine lt l))" "set_tree (combine lt l) = set_tree l"
      using h(5) by (metis mset_eq_imp_distinct_iff, metis mset_eq_setD set_preorder)
    have "rep (st(x := default_links)) None (combine lt l) (Some m)" using s(3) d(2) h(4) by simp
    then show ?thesis using h(2) c(1) s d by (auto simp: delete_min_def heap_is_def)
  qed
qed

lemma cut_notin: "v \<notin> set_tree t \<Longrightarrow> cut v t = t"
  by (induction t) auto

lemma below_notin: "v \<notin> set_tree t \<Longrightarrow> below v t = Leaf"
  by (induction t) auto

lemma cut_nodes:
  "distinct (preorder t) \<Longrightarrow> v \<in> set_tree t \<Longrightarrow> mset (preorder t) = add_mset v (mset (preorder (below v t)) + mset (preorder (cut v t)))"
proof (induction t)
  case (Node l x r)
  then have d: "distinct (preorder l)" "distinct (preorder r)" "set_tree l \<inter> set_tree r = {}" by auto
  consider "x = v" | "x \<noteq> v" "v \<in> set_tree l" "v \<notin> set_tree r" | "x \<noteq> v" "v \<notin> set_tree l" "v \<in> set_tree r"
    using Node.prems d by auto
  then show ?case using Node.IH d by cases (simp_all add: cut_notin below_notin)
qed simp

lemma cut_distinct:
  assumes "distinct (preorder t)" "v \<in> set_tree t"
  shows "distinct (preorder (below v t) @ preorder (cut v t))" "v \<notin> set_tree (below v t) \<union> set_tree (cut v t)"
    "set_tree t = insert v (set_tree (below v t) \<union> set_tree (cut v t))"
proof -
  note m = cut_nodes [OF assms]
  have "distinct (v # preorder (below v t) @ preorder (cut v t))"
    using assms(1) mset_eq_imp_distinct_iff [of "preorder t" "v # preorder (below v t) @ preorder (cut v t)"] m by simp
  then show "distinct (preorder (below v t) @ preorder (cut v t))" "v \<notin> set_tree (below v t) \<union> set_tree (cut v t)"
    by auto
  show "set_tree t = insert v (set_tree (below v t) \<union> set_tree (cut v t))"
    using arg_cong [OF m, of set_mset] by (simp only: set_mset_mset set_preorder set_mset_add_mset_insert set_mset_union)
qed

lemma detach_here:
  assumes "rep st (Some p) (Node l v r) (Some v)" "distinct (preorder (Node l v r))" "p \<notin> set_tree (Node l v r)"
  shows "rep (detach v p st) (Some p) r (link_next (st v))" "rep (detach v p st) (Some v) l (link_child (st v))"
    "z \<notin> set_tree (Node l v r) \<Longrightarrow> z \<noteq> p \<Longrightarrow> detach v p st z = st z"
    "detach v p st p = (if link_child (st p) = Some v then (st p)\<lparr>link_child := link_next (st v)\<rparr> else (st p)\<lparr>link_next := link_next (st v)\<rparr>)"
    "detach v p st v = \<lparr>link_child = link_child (st v), link_prev = None, link_next = None\<rparr>"
  using assms
  by (cases r; clarsimp simp: detach_def Let_def set_child_def set_prev_def set_next_def)+

lemma detach_rep:
  assumes "rep st q t a" "distinct (preorder t)" "v \<in> set_tree t" "a \<noteq> Some v"
  shows "\<exists>p. link_prev (st v) = Some p \<and> p \<in> set_tree t \<and> rep (detach v p st) q (cut v t) a \<and>
    rep (detach v p st) (Some v) (below v t) (link_child (st v)) \<and>
    (\<forall>z. z \<notin> set_tree t \<longrightarrow> detach v p st z = st z) \<and>
    detach v p st v = \<lparr>link_child = link_child (st v), link_prev = None, link_next = None\<rparr>"
  using assms
proof (induction t arbitrary: q a)
  case (Node l x r)
  have a: "a = Some x" "link_prev (st x) = q" "rep st (Some x) l (link_child (st x))" "rep st (Some x) r (link_next (st x))" "x \<noteq> v"
    using Node.prems by auto
  have d: "x \<notin> set_tree l" "x \<notin> set_tree r" "set_tree l \<inter> set_tree r = {}" "distinct (preorder l)" "distinct (preorder r)"
    using Node.prems(2) by auto
  consider (l) "link_child (st x) = Some v" | (r) "link_child (st x) \<noteq> Some v" "link_next (st x) = Some v"
    | (ll) "v \<in> set_tree l" "link_child (st x) \<noteq> Some v" | (rr) "v \<in> set_tree r" "link_child (st x) \<noteq> Some v" "link_next (st x) \<noteq> Some v"
    using Node.prems(3) a(5) by auto
  then show ?case
  proof cases
    case l
    then obtain l1 l2 where t: "l = Node l1 v l2" using a(3) by (cases l) auto
    have "rep st (Some x) (Node l1 v l2) (Some v)" "distinct (preorder (Node l1 v l2))" "x \<notin> set_tree (Node l1 v l2)"
      using a(3) d t l by simp_all
    note h = detach_here [OF this]
    have "rep (detach v x st) (Some x) r (link_next (st x))"
      using a(4) by (subst rep_frame [of r _ st]) (use d t in \<open>auto intro!: h(3)\<close>)
    moreover have "v \<notin> set_tree r" using d t by auto
    ultimately show ?thesis using a l t h d by (intro exI [of _ x]) (auto simp: cut_notin below_notin)
  next
    case r
    then obtain l1 l2 where t: "r = Node l1 v l2" using a(4) by (cases r) auto
    have "rep st (Some x) (Node l1 v l2) (Some v)" "distinct (preorder (Node l1 v l2))" "x \<notin> set_tree (Node l1 v l2)"
      using a(4) d t r by simp_all
    note h = detach_here [OF this]
    have "rep (detach v x st) (Some x) l (link_child (st x))"
      using a(3) by (subst rep_frame [of l _ st]) (use d t in \<open>auto intro!: h(3)\<close>)
    moreover have "v \<notin> set_tree l" using d t by auto
    ultimately show ?thesis using a r t h d by (intro exI [of _ x]) (auto simp: cut_notin below_notin)
  next
    case ll
    then obtain p where p: "link_prev (st v) = Some p" "p \<in> set_tree l" "rep (detach v p st) (Some x) (cut v l) (link_child (st x))"
      "rep (detach v p st) (Some v) (below v l) (link_child (st v))" "\<forall>z. z \<notin> set_tree l \<longrightarrow> detach v p st z = st z"
      "detach v p st v = \<lparr>link_child = link_child (st v), link_prev = None, link_next = None\<rparr>"
      using Node.IH(1) [OF a(3) d(4)] by blast
    have "rep (detach v p st) (Some x) r (link_next (st x))"
      using a(4) p(5) d(3) by (subst rep_frame [of r _ st]) auto
    moreover have "v \<notin> set_tree r" using d ll by auto
    ultimately show ?thesis using a p d ll by (intro exI [of _ p]) (auto simp: cut_notin below_notin)
  next
    case rr
    then obtain p where p: "link_prev (st v) = Some p" "p \<in> set_tree r" "rep (detach v p st) (Some x) (cut v r) (link_next (st x))"
      "rep (detach v p st) (Some v) (below v r) (link_child (st v))" "\<forall>z. z \<notin> set_tree r \<longrightarrow> detach v p st z = st z"
      "detach v p st v = \<lparr>link_child = link_child (st v), link_prev = None, link_next = None\<rparr>"
      using Node.IH(2) [OF a(4) d(5)] by blast
    have "rep (detach v p st) (Some x) l (link_child (st x))"
      using a(3) p(5) d(3) by (subst rep_frame [of l _ st]) auto
    moreover have "v \<notin> set_tree l" using d rr by auto
    ultimately show ?thesis using a p d rr by (intro exI [of _ p]) (auto simp: cut_notin below_notin)
  qed
qed simp

definition tree_remove :: "('n \<Rightarrow> 'n \<Rightarrow> bool) \<Rightarrow> 'n \<Rightarrow> 'n tree \<Rightarrow> 'n tree" where
  "tree_remove lt v t =
     (case t of
        Leaf \<Rightarrow> Leaf
      | Node l x r \<Rightarrow> if x = v then combine lt l else tree_meld lt (combine lt (below v t)) (cut v t))"

lemma heap_remove_is:
  assumes "heap_is h t" "v \<in> set_tree t"
  shows "\<exists>h'. heap_remove lt v h = Some h' \<and> heap_is h' (tree_remove lt v t) \<and> h_store h' v = default_links \<and>
    (\<forall>z. z \<notin> set_tree t \<longrightarrow> h_store h' z = h_store h z)"
proof -
  obtain l y where t: "t = Node l y Leaf" using assms by (auto simp: heap_is_def)
  have h: "h_root h = Some y" "link_prev (h_store h y) = None" "link_next (h_store h y) = None"
    "rep (h_store h) (Some y) l (link_child (h_store h y))" "distinct (preorder t)" "rep (h_store h) None t (Some y)"
    using assms(1) t by (auto simp: heap_is_def)
  show ?thesis
  proof (cases "v = y")
    case True
    then show ?thesis using delete_min_is [OF assms(1) [unfolded t], of lt] h(2) t
      by (auto simp: heap_remove_def tree_remove_def)
  next
    case False
    let ?b = "below v t" and ?c = "cut v t"
    obtain p where p: "link_prev (h_store h v) = Some p" "rep (detach v p (h_store h)) None ?c (Some y)"
      "rep (detach v p (h_store h)) (Some v) ?b (link_child (h_store h v))"
      "\<forall>z. z \<notin> set_tree t \<longrightarrow> detach v p (h_store h) z = h_store h z"
      "detach v p (h_store h) v = \<lparr>link_child = link_child (h_store h v), link_prev = None, link_next = None\<rparr>"
      using detach_rep [OF h(6,5) assms(2)] False by blast
    let ?st = "detach v p (h_store h)"
    note d = cut_distinct [OF h(5) assms(2)]
    have c: "?c = Node (cut v l) y Leaf" using t False by simp
    show ?thesis
    proof (cases ?b)
      case Leaf
      then have "link_child (h_store h v) = None" using p(3) by simp
      then show ?thesis using p Leaf h(1) d c t False
        by (auto simp: heap_remove_def Let_def heap_is_def tree_remove_def combine_def tree_meld_def default_links_def)
    next
      case (Node bl a br)
      then have ca: "link_child (h_store h v) = Some a" "rep ?st (Some v) ?b (Some a)" using p(3) by simp_all
      let ?st0 = "set_child v None ?st"
      have r0: "rep ?st0 (Some v) ?b (Some a)" "rep ?st0 None ?c (Some y)"
        using ca(2) p(2) d(2) by (simp_all add: set_child_def)
      obtain st1 l1 x where s1: "combine_siblings lt a ?st0 = Some (st1, x)" "combine lt ?b = Node l1 x Leaf"
        "rep st1 None (combine lt ?b) (Some x)" "\<forall>z. z \<notin> set (preorder ?b) \<longrightarrow> st1 z = ?st0 z"
        using combine_siblings_rep [OF r0(1), of lt] d(1) by auto
      have n: "set_tree (combine lt ?b) = set_tree ?b" "distinct (preorder (combine lt ?b))"
        using combine_nodes [of lt ?b] d(1) by (metis mset_eq_setD set_preorder, metis distinct_append mset_eq_imp_distinct_iff)
      have "rep st1 None ?c (Some y)" using r0(2) s1(4) d(1) by (subst rep_frame [of ?c _ ?st0]) auto
      then have pre: "rep st1 (Some x) l1 (link_child (st1 x))" "link_next (st1 x) = None" "link_prev (st1 x) = None"
        "rep st1 (Some y) (cut v l) (link_child (st1 y))" "rep st1 (Some y) Leaf (link_next (st1 y))"
        using s1(2,3) c by simp_all
      have dd: "distinct (x # y # preorder l1 @ preorder (cut v l) @ preorder Leaf)" "v \<notin> set (x # y # preorder l1 @ preorder (cut v l))"
        using n d(1,2) s1(2) c by auto
      obtain st2 m l2 x2 where m: "meld lt x y st1 = (st2, m)" "link lt (l1, x) (cut v l, y) = (l2, x2)" by fastforce
      note r = meld_rep [OF pre(1,2,4,5) dd(1) m]
      have dl: "distinct (preorder l2)" "x2 \<notin> set_tree l2" using m(2) dd(1) by (auto simp: link_def split: if_splits)
      have e: "heap_remove lt v h = Some \<lparr>h_root = Some m, h_store = st2\<rparr>"
        using p(1,5) ca(1) s1(1) h(1) m(1) by (simp add: heap_remove_def Let_def)
      have hi: "heap_is \<lparr>h_root = Some m, h_store = st2\<rparr> (tree_remove lt v t)"
        using r pre(3) t False s1(2) c m(2) dl by (auto simp: heap_is_def tree_remove_def tree_meld_def)
      have "st2 v = ?st0 v" using r s1(4) dd(2) d(2) by auto
      then have df: "st2 v = default_links" using p(5) by (simp add: set_child_def default_links_def)
      have "st2 z = h_store h z" if z: "z \<notin> set_tree t" for z
      proof -
        have "z \<notin> set (x # y # preorder l1 @ preorder (cut v l))" "z \<notin> set_tree ?b" "z \<noteq> v"
          using z d(3) n(1) s1(2) c by auto
        then show ?thesis using r s1(4) p(4) z by (auto simp: set_child_def)
      qed
      then show ?thesis using e hi df by auto
    qed
  qed
qed

section \<open>The walk\<close>

definition walk_exit :: "'n store \<Rightarrow> 'n \<Rightarrow> 'n option option" where
  "walk_exit st x =
     (case climb st x (link_prev (st x)) of
        None \<Rightarrow> None | Some None \<Rightarrow> Some None | Some (Some p) \<Rightarrow> step_over st p)"

lemma step_over_exit: "link_next (st x) = None \<Longrightarrow> step_over st x = walk_exit st x"
  by (subst step_over.simps) (simp add: walk_exit_def)

lemma climb_sibling: "link_prev (st y) = Some x \<Longrightarrow> link_child (st x) \<noteq> Some y \<Longrightarrow> walk_exit st y = walk_exit st x"
  unfolding walk_exit_def by (subst climb.simps) simp

lemma climb_child: "link_prev (st y) = Some x \<Longrightarrow> link_child (st x) = Some y \<Longrightarrow> walk_exit st y = step_over st x"
  unfolding walk_exit_def by (subst climb.simps) simp

definition walk_on :: "('n \<Rightarrow> 's \<Rightarrow> 's) \<Rightarrow> 'n store \<Rightarrow> 'n option option \<Rightarrow> 's \<Rightarrow> 's option" where
  "walk_on f st r s = (case r of None \<Rightarrow> None | Some None \<Rightarrow> Some s | Some (Some n) \<Rightarrow> walk f st n s)"

lemma walk_rep:
  assumes "rep st p t (Some x)" "distinct (preorder t)"
  shows "walk f st x s = walk_on f st (walk_exit st x) (fold f (preorder t) s)"
  using assms
proof (induction t arbitrary: p x s)
  case (Node l y r)
  then have y: "x = y" "rep st (Some y) l (link_child (st y))" "rep st (Some y) r (link_next (st y))" by simp_all
  have siblings: "walk_on f st (step_over st y) s' = walk_on f st (walk_exit st y) (fold f (preorder r) s')" for s'
  proof (cases r)
    case Leaf
    then show ?thesis using y(3) step_over_exit [of st y] by simp
  next
    case (Node rl z rr)
    then have z: "link_next (st y) = Some z" "link_prev (st z) = Some y" "rep st (Some y) r (Some z)" using y(3) by simp_all
    then have "step_over st y = Some (Some z)" by (subst step_over.simps) simp
    moreover have "link_child (st y) \<noteq> Some z"
      using y(2) Node Node.prems(2) by (cases l) auto
    ultimately show ?thesis using Node.IH(2) [OF z(3), of s'] climb_sibling [of st z y] z(2) Node.prems(2) by (simp add: walk_on_def)
  qed
  show ?case
  proof (cases l)
    case Leaf
    then have "walk f st y s = walk_on f st (step_over st y) (f y s)"
      using y(2) by (subst walk.simps) (simp add: walk_on_def)
    then show ?thesis using siblings [of "f y s"] y(1) Leaf by simp
  next
    case (Node ll z lr)
    then have z: "link_child (st y) = Some z" "link_prev (st z) = Some y" "rep st (Some y) l (Some z)" using y(2) by simp_all
    then have "walk f st y s = walk f st z (f y s)" by (subst walk.simps) simp
    also have "\<dots> = walk_on f st (step_over st y) (fold f (preorder l) (f y s))"
      using Node.IH(1) [OF z(3), of "f y s"] climb_child [of st z y] z(1,2) Node.prems(2) by simp
    finally show ?thesis using siblings y(1) by simp
  qed
qed simp

lemma for_each_is:
  assumes "heap_is h t"
  shows "for_each f h s = Some (fold f (preorder t) s)"
proof (cases t)
  case (Node l x r)
  then have r: "rep (h_store h) None t (Some x)" "h_root h = Some x" "link_prev (h_store h x) = None" "distinct (preorder t)"
    using assms by (auto simp: heap_is_def)
  have "walk_exit (h_store h) x = Some None" using r(3) unfolding walk_exit_def by (subst climb.simps) simp
  then show ?thesis using walk_rep [OF r(1,4), of f s] r(2) by (simp add: for_each_def walk_on_def)
qed (use assms in \<open>simp add: heap_is_def for_each_def\<close>)

section \<open>The order of a heap\<close>

definition le :: "('n \<Rightarrow> 'n \<Rightarrow> bool) \<Rightarrow> 'n \<Rightarrow> 'n \<Rightarrow> bool" where
  "le lt a b \<longleftrightarrow> a = b \<or> \<not> lt b a"

text \<open>What \<^verbatim>\<open>less\<close> has to be on the members: two of them are never both before the other, and what is not
  after is transitive.\<close>

definition orders :: "('n \<Rightarrow> 'n \<Rightarrow> bool) \<Rightarrow> 'n set \<Rightarrow> bool" where
  "orders lt S \<longleftrightarrow> (\<forall>a\<in>S. \<forall>b\<in>S. le lt a b \<or> le lt b a) \<and> (\<forall>a\<in>S. \<forall>b\<in>S. \<forall>c\<in>S. le lt a b \<longrightarrow> le lt b c \<longrightarrow> le lt a c)"

lemma le_refl [simp]: "le lt a a"
  by (simp add: le_def)

lemma orders_subset: "orders lt S \<Longrightarrow> T \<subseteq> S \<Longrightarrow> orders lt T"
  unfolding orders_def by (elim conjE, intro conjI ballI impI) (metis subsetD)+

lemma orders_less: "orders lt S \<Longrightarrow> a \<in> S \<Longrightarrow> b \<in> S \<Longrightarrow> lt a b \<Longrightarrow> le lt a b"
  unfolding orders_def by (metis le_def)

lemma orders_trans: "orders lt S \<Longrightarrow> a \<in> S \<Longrightarrow> b \<in> S \<Longrightarrow> c \<in> S \<Longrightarrow> le lt a b \<Longrightarrow> le lt b c \<Longrightarrow> le lt a c"
  unfolding orders_def by blast

fun ordered :: "('n \<Rightarrow> 'n \<Rightarrow> bool) \<Rightarrow> 'n tree \<Rightarrow> bool" where
  "ordered lt Leaf \<longleftrightarrow> True"
| "ordered lt (Node l x r) \<longleftrightarrow> (\<forall>y\<in>set_tree l. le lt x y) \<and> ordered lt l \<and> ordered lt r"

definition top_ordered :: "('n \<Rightarrow> 'n \<Rightarrow> bool) \<Rightarrow> 'n tree \<times> 'n \<Rightarrow> bool" where
  "top_ordered lt m \<longleftrightarrow> (\<forall>y\<in>set_tree (fst m). le lt (snd m) y) \<and> ordered lt (fst m)"

lemma link_ordered:
  assumes "orders lt S" "insert (snd m) (set_tree (fst m)) \<subseteq> S" "insert (snd n) (set_tree (fst n)) \<subseteq> S"
    and "top_ordered lt m" "top_ordered lt n"
  shows "top_ordered lt (link lt m n)"
proof (cases "lt (snd m) (snd n)")
  case True
  then have "le lt (snd m) (snd n)" using orders_less [OF assms(1)] assms(2,3) by auto
  then have "le lt (snd m) y" if "y \<in> set_tree (fst n)" for y
    using that assms(2,3,5) orders_trans [OF assms(1), of "snd m" "snd n" y] by (auto simp: top_ordered_def)
  then show ?thesis using True assms(4,5) \<open>le lt (snd m) (snd n)\<close> by (auto simp: link_def top_ordered_def)
next
  case False
  then have "le lt (snd n) (snd m)" by (simp add: le_def)
  then have "le lt (snd n) y" if "y \<in> set_tree (fst m)" for y
    using that assms(2,3,4) orders_trans [OF assms(1), of "snd n" "snd m" y] by (auto simp: top_ordered_def)
  then show ?thesis using False assms(4,5) \<open>le lt (snd n) (snd m)\<close> by (auto simp: link_def top_ordered_def)
qed

lemma link_set: "insert (snd (link lt m n)) (set_tree (fst (link lt m n))) =
    insert (snd m) (set_tree (fst m)) \<union> insert (snd n) (set_tree (fst n))"
  by (auto simp: link_def)

lemma pairs_ordered:
  "orders lt S \<Longrightarrow> set_tree t \<subseteq> S \<Longrightarrow> ordered lt t \<Longrightarrow>
    m \<in> set (pairs lt t) \<Longrightarrow> top_ordered lt m \<and> insert (snd m) (set_tree (fst m)) \<subseteq> S"
proof (induction lt t rule: pairs.induct)
  case (3 lt lx x ly y r)
  have "top_ordered lt (link lt (lx, x) (ly, y))"
    using "3.prems" by (intro link_ordered [of lt S]) (auto simp: top_ordered_def)
  moreover have "insert (snd (link lt (lx, x) (ly, y))) (set_tree (fst (link lt (lx, x) (ly, y)))) \<subseteq> S"
    using "3.prems"(2) by (simp only: link_set) auto
  ultimately show ?case using 3 by auto
qed (auto simp: top_ordered_def)

lemma fold_links_ordered:
  assumes "orders lt S" "\<forall>m\<in>insert k (set ms). top_ordered lt m \<and> insert (snd m) (set_tree (fst m)) \<subseteq> S"
  shows "top_ordered lt (fold_links lt k ms)"
  using assms(2)
proof (induction ms arbitrary: k)
  case (Cons m ms)
  have "top_ordered lt (link lt m k)" using Cons.prems by (intro link_ordered [OF assms(1)]) auto
  moreover have "insert (snd (link lt m k)) (set_tree (fst (link lt m k))) \<subseteq> S" using Cons.prems link_set [of lt m k] by auto
  ultimately show ?case using Cons by (simp add: fold_links_def)
qed (simp add: fold_links_def)

lemma combine_ordered:
  assumes "orders lt (set_tree t)" "ordered lt t"
  shows "ordered lt (combine lt t)"
proof (cases "t = Leaf")
  case False
  then obtain l x ms l' x' where c: "rev (pairs lt t) = (l, x) # ms" "fold_links lt (l, x) ms = (l', x')"
    "combine lt t = Node l' x' Leaf" using combine_cases by metis
  have "\<forall>m\<in>insert (l, x) (set ms). top_ordered lt m \<and> insert (snd m) (set_tree (fst m)) \<subseteq> set_tree t"
    using pairs_ordered [OF assms(1) subset_refl assms(2)] c(1) by (metis list.set(2) set_rev)
  then have "top_ordered lt (l', x')" using fold_links_ordered [OF assms(1)] c(2) by metis
  then show ?thesis using c(3) by (simp add: top_ordered_def)
qed (simp add: combine_def)

lemma combine_set [simp]: "set_tree (combine lt t) = set_tree t"
  using combine_nodes [of lt t] by (metis mset_eq_setD set_preorder)

lemma tree_meld_set: "set_tree (tree_meld lt s t) = set_tree s \<union> set_tree t" if "s \<noteq> Leaf \<Longrightarrow> \<exists>l x. s = Node l x Leaf"
  using that by (cases s; cases t) (auto simp: tree_meld_def link_def)

lemma tree_meld_ordered:
  assumes "orders lt (set_tree s \<union> set_tree t)" "ordered lt s" "ordered lt t" "s \<noteq> Leaf \<Longrightarrow> \<exists>l x. s = Node l x Leaf"
  shows "ordered lt (tree_meld lt s t)"
proof (cases "s = Leaf \<or> t = Leaf")
  case True
  then show ?thesis using assms by (cases s; cases t) (auto simp: tree_meld_def)
next
  case False
  then obtain la a lb b rb where st: "s = Node la a Leaf" "t = Node lb b rb" using assms(4) by (cases t) auto
  then have "top_ordered lt (link lt (la, a) (lb, b))"
    using assms(1-3) by (intro link_ordered) (auto simp: top_ordered_def)
  then show ?thesis using st assms(3) by (auto simp: tree_meld_def top_ordered_def split: prod.split)
qed

lemma cut_ordered: "ordered lt t \<Longrightarrow> ordered lt (cut v t)"
  and cut_subset: "set_tree (cut v t) \<subseteq> set_tree t"
proof -
  show s: "set_tree (cut v t) \<subseteq> set_tree t" for t by (induction t) auto
  show "ordered lt t \<Longrightarrow> ordered lt (cut v t)" by (induction t) (use s in auto)
qed

lemma below_ordered: "ordered lt t \<Longrightarrow> ordered lt (below v t)"
  by (induction t) auto

section \<open>Members\<close>

definition heap_set :: "'n heap \<Rightarrow> 'n set \<Rightarrow> bool" where
  "heap_set h S \<longleftrightarrow> (\<exists>t. heap_is h t \<and> set_tree t = S)"

definition heap_inv :: "('n \<Rightarrow> 'n \<Rightarrow> bool) \<Rightarrow> 'n heap \<Rightarrow> 'n set \<Rightarrow> bool" where
  "heap_inv lt h S \<longleftrightarrow> orders lt S \<and> (\<exists>t. heap_is h t \<and> set_tree t = S \<and> ordered lt t)"

definition untouched :: "'n set \<Rightarrow> 'n heap \<Rightarrow> 'n heap \<Rightarrow> bool" where
  "untouched S h h' \<longleftrightarrow> (\<forall>z. z \<notin> S \<longrightarrow> h_store h' z = h_store h z)"

lemma heap_inv_set: "heap_inv lt h S \<Longrightarrow> heap_set h S"
  by (auto simp: heap_inv_def heap_set_def)

lemma heap_set_finite: "heap_set h S \<Longrightarrow> finite S"
  by (auto simp: heap_set_def)

lemma ordered_cong: "(\<And>x y. x \<in> set_tree t \<Longrightarrow> y \<in> set_tree t \<Longrightarrow> lt' x y = lt x y) \<Longrightarrow> ordered lt' t = ordered lt t"
  by (induction t) (auto simp: le_def)

lemma heap_inv_cong:
  assumes "\<And>x y. x \<in> S \<Longrightarrow> y \<in> S \<Longrightarrow> lt' x y = lt x y"
  shows "heap_inv lt' h S = heap_inv lt h S"
proof -
  have "orders lt' S = orders lt S" using assms by (simp add: orders_def le_def)
  moreover have "ordered lt' t = ordered lt t" if "set_tree t = S" for t using ordered_cong [of t lt' lt] assms that by blast
  ultimately show ?thesis by (auto simp: heap_inv_def)
qed

lemma heap_default_set [simp]: "heap_set (heap_default st) {}"
  unfolding heap_set_def by (rule exI [of _ Leaf]) (simp add: heap_is_def heap_default_def)

lemma heap_default_inv [simp]: "heap_inv lt (heap_default st) {}"
  unfolding heap_inv_def by (intro conjI exI [of _ Leaf]) (simp_all add: heap_is_def heap_default_def orders_def)

lemma insert_set:
  assumes "heap_set h S" "v \<notin> S" "h_store h v = default_links"
  shows "heap_set (heap_insert lt v h) (insert v S) \<and> untouched (insert v S) h (heap_insert lt v h)"
proof -
  obtain t where t: "heap_is h t" "set_tree t = S" using assms(1) by (auto simp: heap_set_def)
  then show ?thesis
    using heap_insert_is [OF t(1), of v] assms(2,3) tree_meld_set [of "Node Leaf v Leaf" lt t]
    by (auto simp: heap_set_def untouched_def)
qed

lemma heap_is_empty: "heap_is h t \<Longrightarrow> t = Leaf \<longleftrightarrow> h_root h = None"
  by (cases t) (auto simp: heap_is_def)

lemma delete_min_set:
  assumes "heap_set h S"
  shows "\<exists>h' r. delete_min lt h = Some (h', r) \<and> r = peek h \<and>
    (case r of None \<Rightarrow> S = {} \<and> h' = h
     | Some x \<Rightarrow> x \<in> S \<and> heap_set h' (S - {x}) \<and> h_store h' x = default_links \<and> untouched S h h')"
proof -
  obtain t where t: "heap_is h t" "set_tree t = S" using assms by (auto simp: heap_set_def)
  show ?thesis
  proof (cases t)
    case Leaf
    then show ?thesis using t heap_is_empty [OF t(1)] by (auto simp: delete_min_def peek_def)
  next
    case (Node l x r)
    then have p: "peek h = Some x" "r = Leaf" "x \<notin> set_tree l" using t(1) by (auto simp: heap_is_def peek_def)
    obtain h' where "delete_min lt h = Some (h', Some x)" "heap_is h' (combine lt l)" "h_store h' x = default_links"
      "\<forall>z. z \<notin> insert x (set_tree l) \<longrightarrow> h_store h' z = h_store h z"
      using delete_min_is [OF t(1) [unfolded Node], of lt] by blast
    moreover have "S - {x} = set_tree (combine lt l)" using t(2) Node p by auto
    ultimately show ?thesis using p t(2) Node by (auto simp: heap_set_def untouched_def)
  qed
qed

lemma combine_top: "combine lt t = Leaf \<or> (\<exists>l x. combine lt t = Node l x Leaf)"
  by (simp add: combine_def split: list.split prod.split)

lemma tree_remove_set:
  assumes "heap_is h t" "v \<in> set_tree t"
  shows "set_tree (tree_remove lt v t) = set_tree t - {v}"
proof -
  obtain l x where t: "t = Node l x Leaf" "distinct (preorder t)" using assms by (auto simp: heap_is_def)
  show ?thesis
  proof (cases "x = v")
    case True
    then show ?thesis using t by (auto simp: tree_remove_def)
  next
    case False
    have "set_tree t - {v} = set_tree (below v t) \<union> set_tree (cut v t)"
      using cut_distinct(2,3) [OF t(2) assms(2)] by auto
    moreover have "combine lt (below v t) \<noteq> Leaf \<Longrightarrow> \<exists>l x. combine lt (below v t) = Node l x Leaf"
      using combine_top by blast
    ultimately show ?thesis using t(1) False tree_meld_set [of "combine lt (below v t)" lt "cut v t"]
      by (simp add: tree_remove_def)
  qed
qed

lemma remove_set:
  assumes "heap_set h S" "v \<in> S"
  shows "\<exists>h'. heap_remove lt v h = Some h' \<and> heap_set h' (S - {v}) \<and> h_store h' v = default_links \<and> untouched S h h'"
proof -
  obtain t where t: "heap_is h t" "set_tree t = S" using assms(1) by (auto simp: heap_set_def)
  then show ?thesis using heap_remove_is [OF t(1), of v lt] tree_remove_set [OF t(1), of v lt] assms(2)
    by (auto simp: heap_set_def untouched_def)
qed

text \<open>C16: The intrusive heap keeps its links: on well-formed links \<^verbatim>\<open>insert\<close>, \<^verbatim>\<open>delete_min\<close> and \<^verbatim>\<open>remove\<close> return, keep the
  doubly linked tree well formed, change the members by exactly the node they are given or return, leave every
  other node of the program alone, and reset the links of the node they take out, so it can be inserted again.
  None of this depends on the comparison.\<close>

theorem heap_operations:
  assumes "heap_set h S"
  shows "(\<forall>v. v \<notin> S \<longrightarrow> h_store h v = default_links \<longrightarrow>
        heap_set (heap_insert lt v h) (insert v S) \<and> untouched (insert v S) h (heap_insert lt v h)) \<and>
    (\<exists>h' r. delete_min lt h = Some (h', r) \<and> r = peek h \<and>
        (case r of None \<Rightarrow> S = {} \<and> h' = h
         | Some x \<Rightarrow> x \<in> S \<and> heap_set h' (S - {x}) \<and> h_store h' x = default_links \<and> untouched S h h')) \<and>
    (\<forall>v\<in>S. \<exists>h'. heap_remove lt v h = Some h' \<and> heap_set h' (S - {v}) \<and> h_store h' v = default_links \<and> untouched S h h')"
  using insert_set [OF assms] delete_min_set [OF assms] remove_set [OF assms] by blast

section \<open>A priority queue\<close>

lemma insert_inv:
  assumes "heap_inv lt h S" "v \<notin> S" "h_store h v = default_links" "orders lt (insert v S)"
  shows "heap_inv lt (heap_insert lt v h) (insert v S)"
proof -
  obtain t where t: "heap_is h t" "set_tree t = S" "ordered lt t" using assms(1) by (auto simp: heap_inv_def)
  have "ordered lt (tree_meld lt (Node Leaf v Leaf) t)"
    using t(2,3) assms(4) by (intro tree_meld_ordered) auto
  then show ?thesis
    using heap_insert_is(1) [OF t(1), of v lt] assms t(2) tree_meld_set [of "Node Leaf v Leaf" lt t]
    by (auto simp: heap_inv_def)
qed

lemma delete_min_inv:
  assumes "heap_inv lt h S"
  shows "\<exists>h' r. delete_min lt h = Some (h', r) \<and> r = peek h \<and>
    (case r of None \<Rightarrow> S = {} | Some x \<Rightarrow> x \<in> S \<and> (\<forall>y\<in>S. le lt x y) \<and> heap_inv lt h' (S - {x}) \<and> h_store h' x = default_links)"
proof -
  obtain t where t: "heap_is h t" "set_tree t = S" "ordered lt t" "orders lt S" using assms by (auto simp: heap_inv_def)
  show ?thesis
  proof (cases t)
    case Leaf
    then show ?thesis using t heap_is_empty [OF t(1)] by (auto simp: delete_min_def peek_def)
  next
    case (Node l x r)
    then have p: "peek h = Some x" "r = Leaf" "x \<notin> set_tree l" using t(1) by (auto simp: heap_is_def peek_def)
    have o: "orders lt (set_tree l)" "orders lt (S - {x})" using orders_subset [OF t(4)] t(2) Node by auto
    obtain h' where "delete_min lt h = Some (h', Some x)" "heap_is h' (combine lt l)" "h_store h' x = default_links"
      using delete_min_is [OF t(1) [unfolded Node], of lt] by blast
    moreover have "S - {x} = set_tree (combine lt l)" using t(2) Node p by auto
    moreover have "ordered lt (combine lt l)" using combine_ordered [OF o(1)] t(3) Node by simp
    moreover have "\<forall>y\<in>S. le lt x y" using t(2,3) Node p by auto
    ultimately show ?thesis using p t(2) Node o by (auto simp: heap_inv_def)
  qed
qed

lemma remove_inv:
  assumes "heap_inv lt h S" "v \<in> S"
  shows "\<exists>h'. heap_remove lt v h = Some h' \<and> heap_inv lt h' (S - {v}) \<and> h_store h' v = default_links"
proof -
  obtain t where t: "heap_is h t" "set_tree t = S" "ordered lt t" "orders lt S" using assms by (auto simp: heap_inv_def)
  obtain l x where n: "t = Node l x Leaf" "distinct (preorder t)" using t(1,2) assms(2) by (auto simp: heap_is_def)
  have "ordered lt (tree_remove lt v t)"
  proof (cases "x = v")
    case True
    then show ?thesis using n t combine_ordered [of lt l] orders_subset [OF t(4), of "set_tree l"]
      by (auto simp: tree_remove_def)
  next
    case False
    have v: "v \<in> set_tree t" using assms(2) t(2) by simp
    have sub: "set_tree (below v t) \<subseteq> S" "set_tree (cut v t) \<subseteq> S" using cut_distinct(3) [OF n(2) v] t(2) by auto
    have "combine lt (below v t) \<noteq> Leaf \<Longrightarrow> \<exists>l x. combine lt (below v t) = Node l x Leaf"
      using combine_top by blast
    moreover have "ordered lt (combine lt (below v t))"
      using combine_ordered orders_subset [OF t(4) sub(1)] below_ordered [OF t(3)] by blast
    moreover have "orders lt (set_tree (combine lt (below v t)) \<union> set_tree (cut v t))"
      using orders_subset [OF t(4)] sub by simp
    ultimately have "ordered lt (tree_meld lt (combine lt (below v t)) (cut v t))"
      using tree_meld_ordered cut_ordered [OF t(3)] by blast
    moreover have "tree_remove lt v t = tree_meld lt (combine lt (below v t)) (cut v t)"
      using n(1) False by (simp add: tree_remove_def)
    ultimately show ?thesis by simp
  qed
  then show ?thesis using heap_remove_is [OF t(1), of v lt] tree_remove_set [OF t(1), of v lt] t(2,4) assms(2)
    by (auto simp: heap_inv_def intro: orders_subset)
qed

text \<open>What the timers ask of a priority queue.\<close>

locale priority_queue =
  fixes inv :: "'q \<Rightarrow> 'n set \<Rightarrow> bool" and before :: "'n \<Rightarrow> 'n \<Rightarrow> bool" and pop :: "'q \<Rightarrow> ('q \<times> 'n option) option"
  assumes inv_finite: "inv q S \<Longrightarrow> finite S"
    and pop_least: "inv q S \<Longrightarrow> \<exists>q' r. pop q = Some (q', r) \<and>
      (case r of None \<Rightarrow> S = {} | Some x \<Rightarrow> x \<in> S \<and> (\<forall>y\<in>S. before x y) \<and> inv q' (S - {x}))"

fun pop_all :: "('q \<Rightarrow> ('q \<times> 'n option) option) \<Rightarrow> nat \<Rightarrow> 'q \<Rightarrow> 'n list option" where
  "pop_all pop 0 q = Some []"
| "pop_all pop (Suc n) q =
     (case pop q of
        None \<Rightarrow> None
      | Some (q', None) \<Rightarrow> Some []
      | Some (q', Some x) \<Rightarrow> map_option ((#) x) (pop_all pop n q'))"

context priority_queue
begin

lemma pop_all_sorted:
  "inv q S \<Longrightarrow> card S \<le> n \<Longrightarrow> \<exists>xs. pop_all pop n q = Some xs \<and> set xs = S \<and> distinct xs \<and> sorted_wrt before xs"
proof (induction n arbitrary: q S)
  case 0
  then show ?case using inv_finite by simp
next
  case (Suc n)
  obtain q' r where r: "pop q = Some (q', r)"
    "case r of None \<Rightarrow> S = {} | Some x \<Rightarrow> x \<in> S \<and> (\<forall>y\<in>S. before x y) \<and> inv q' (S - {x})"
    using pop_least [OF Suc.prems(1)] by blast
  show ?case
  proof (cases r)
    case (Some x)
    have "card (S - {x}) \<le> n" using r Some Suc.prems inv_finite [OF Suc.prems(1)] by simp
    then obtain xs where "pop_all pop n q' = Some xs" "set xs = S - {x}" "distinct xs" "sorted_wrt before xs"
      using Suc.IH [of q' "S - {x}"] r Some by auto
    then show ?thesis using r Some by auto
  qed (use r in simp)
qed

end

interpretation heap: priority_queue "heap_inv lt" "le lt" "delete_min lt" for lt :: "'n \<Rightarrow> 'n \<Rightarrow> bool"
proof
  show "heap_inv lt h S \<Longrightarrow> finite S" for h :: "'n heap" and S using heap_inv_set heap_set_finite by blast
  show "\<exists>q' r. delete_min lt q = Some (q', r) \<and>
      (case r of None \<Rightarrow> S = {} | Some x \<Rightarrow> x \<in> S \<and> (\<forall>y\<in>S. le lt x y) \<and> heap_inv lt q' (S - {x}))"
    if "heap_inv lt q S" for q :: "'n heap" and S
    using delete_min_inv [OF that] by (auto split: option.splits)
qed

lemma max_fold:
  assumes "orders lt S" "set xs \<subseteq> S" "m \<in> S" "\<forall>y\<in>T. le lt y m" "T \<subseteq> S"
  shows "\<exists>x. fold (\<lambda>node max_so_far. case max_so_far of None \<Rightarrow> None | Some m \<Rightarrow> if lt m node then Some node else max_so_far) xs (Some m) =
    Some x \<and> x \<in> S \<and> (\<forall>y\<in>T \<union> set xs. le lt y x)"
  using assms(2-)
proof (induction xs arbitrary: m T)
  case (Cons z xs)
  let ?m = "if lt m z then z else m"
  have "\<forall>y\<in>insert z T. le lt y ?m"
  proof
    fix y
    assume y: "y \<in> insert z T"
    then show "le lt y ?m"
      using Cons.prems orders_less [OF assms(1), of m z] orders_trans [OF assms(1), of y m z]
      by (cases "y = z") (auto simp: le_def subset_iff)
  qed
  then show ?case using Cons.IH [of ?m "insert z T"] Cons.prems by auto
qed simp

text \<open>C17: Taking the least node again and again gives every member of the heap once, in order, wherever \<^verbatim>\<open>less\<close> orders the
  members; and \<^verbatim>\<open>find_max\<close> is a greatest member.\<close>

theorem heap_sorts:
  assumes "heap_inv lt h S"
  shows "(\<exists>xs. pop_all (delete_min lt) (card S) h = Some xs \<and> set xs = S \<and> distinct xs \<and> sorted_wrt (le lt) xs) \<and>
    (\<exists>m. find_max lt h = Some m \<and> (case m of None \<Rightarrow> S = {} | Some x \<Rightarrow> x \<in> S \<and> (\<forall>y\<in>S. le lt y x)))"
proof
  show "\<exists>xs. pop_all (delete_min lt) (card S) h = Some xs \<and> set xs = S \<and> distinct xs \<and> sorted_wrt (le lt) xs"
    by (rule heap.pop_all_sorted [OF assms order.refl])
  obtain t where t: "heap_is h t" "set_tree t = S" "orders lt S" using assms by (auto simp: heap_inv_def)
  show "\<exists>m. find_max lt h = Some m \<and> (case m of None \<Rightarrow> S = {} | Some x \<Rightarrow> x \<in> S \<and> (\<forall>y\<in>S. le lt y x))"
  proof (cases "h_root h")
    case None
    then show ?thesis using t heap_is_empty [OF t(1)] by (auto simp: find_max_def for_each_is [OF t(1)])
  next
    case (Some x)
    then have "x \<in> S" using t(1,2) by (cases t) (auto simp: heap_is_def)
    then show ?thesis
      using max_fold [OF t(3), of "preorder t" x "{}"] t(2) Some
      by (auto simp: find_max_def for_each_is [OF t(1)])
  qed
qed

text \<open>\<^verbatim>\<open>for_each\<close> walks without a stack and returns: the closure runs on every member exactly once, in one order
  whatever the closure, and \<^verbatim>\<open>count\<close> is the number of members.\<close>

theorem for_each_once:
  assumes "heap_set h S"
  shows "(\<exists>xs. distinct xs \<and> set xs = S \<and> (\<forall>(f :: 'n \<Rightarrow> 's \<Rightarrow> 's) s. for_each f h s = Some (fold f xs s))) \<and>
    heap_count h = Some (card S)"
proof -
  obtain t where t: "heap_is h t" "set_tree t = S" using assms by (auto simp: heap_set_def)
  then have d: "distinct (preorder t)" by (simp add: heap_is_def)
  have "fold (\<lambda>node result. result + 1) xs n = n + length xs" for xs :: "'n list" and n :: nat
    by (induction xs arbitrary: n) auto
  then have "heap_count h = Some (card S)"
    using t(2) distinct_card [OF d] by (simp add: heap_count_def for_each_is [OF t(1)])
  then show ?thesis using for_each_is [OF t(1)] d t(2) by (intro conjI exI [of _ "preorder t"]) auto
qed

definition sample_heap :: "nat heap" where
  "sample_heap = heap_insert (<) 5 (heap_insert (<) 1 (heap_insert (<) 3 (heap_default (\<lambda>_. default_links))))"

lemma nat_orders: "orders (<) (S :: nat set)"
  unfolding orders_def le_def by auto

lemma sample_heap_inv: "heap_inv (<) sample_heap {1, 3, 5}"
proof -
  let ?h0 = "heap_default (\<lambda>_. default_links) :: nat heap"
  let ?h1 = "heap_insert (<) 3 ?h0" and ?h2 = "heap_insert (<) 1 (heap_insert (<) 3 ?h0)"
  have u: "h_store ?h1 1 = default_links" "h_store ?h2 5 = default_links"
    by (simp_all add: heap_default_def heap_insert_def meld_def default_links_def set_child_def set_prev_def set_next_def Let_def)
  have "heap_inv (<) ?h1 {3}"
    by (rule insert_inv) (simp_all add: nat_orders, simp add: heap_default_def)
  then have "heap_inv (<) ?h2 {1, 3}" using insert_inv [of "(<)" ?h1 "{3}" 1] nat_orders u(1) by simp
  then have "heap_inv (<) sample_heap {5, 1, 3}"
    using insert_inv [of "(<)" ?h2 "{1, 3}" 5] nat_orders u(2) by (simp add: sample_heap_def)
  then show ?thesis by (simp add: insert_commute)
qed

lemma sample_card: "card {1, 3, 5 :: nat} = 3"
  by simp

lemma heap_operations_witness:
  "\<exists>h'. heap_remove (<) 3 sample_heap = Some h' \<and> heap_set h' {1, 5} \<and> h_store h' 3 = default_links"
  using heap_operations [OF heap_inv_set [OF sample_heap_inv], of "(<)"] by (auto simp: insert_Diff_if)

lemma heap_sorts_witness:
  "\<exists>xs. pop_all (delete_min (<)) 3 sample_heap = Some xs \<and> set xs = {1, 3, 5} \<and> distinct xs \<and> sorted_wrt (le (<)) xs"
  using heap_sorts [OF sample_heap_inv] by (simp only: sample_card)

lemma for_each_once_witness: "heap_count sample_heap = Some 3"
  using for_each_once [OF heap_inv_set [OF sample_heap_inv]] unfolding sample_card by (rule conjunct2)

end
