(* ===== verification/Timespec.thy ===== *)
theory Timespec
  imports Prelude "HOL-Library.Signed_Division"
begin

text \<open>
  \<^verbatim>\<open>Timespec\<close> of \<^verbatim>\<open>src/bun_core/util.rs\<close>: seconds and nanoseconds, both signed 64-bit words. The lemmas
  show that the order is a total order, that it is the order of the instant in nanoseconds on normal
  values, and that the arithmetic is exact where nothing overflows. \<^verbatim>\<open>add_ms_float\<close> (floating point)
  and the clocks themselves are not modelled.
\<close>

record timespec =
  sec :: i64
  nsec :: i64

definition epoch_ts :: timespec where
  "epoch_ts = \<lparr>sec = 0, nsec = 0\<rparr>"

definition ns_per_s :: i64 where "ns_per_s = 1000000000"
definition ns_per_ms :: i64 where "ns_per_ms = 1000000"

definition ts_duration :: "timespec \<Rightarrow> timespec \<Rightarrow> timespec" where
  "ts_duration self other =
     (let s = sec self - sec other; n = nsec self - nsec other
      in if sint n < 0 then \<lparr>sec = s - 1, nsec = n + ns_per_s\<rparr> else \<lparr>sec = s, nsec = n\<rparr>)"

definition ts_order :: "timespec \<Rightarrow> timespec \<Rightarrow> ordering" where
  "ts_order self other =
     (case cmp (sint (sec self)) (sint (sec other)) of
        Equal \<Rightarrow> cmp (sint (nsec self)) (sint (nsec other)) | r \<Rightarrow> r)"

definition saturating_mul_u64 :: "u64 \<Rightarrow> u64 \<Rightarrow> u64" where
  "saturating_mul_u64 a b = (if uint a * uint b < 2 ^ 64 then a * b else u64_max)"

definition ts_ns :: "timespec \<Rightarrow> u64" where
  "ts_ns self =
     (let n = (if sint (nsec self) < 0 then 0 else nsec self)
      in if sint (sec self) \<le> 0 then n
         else (case checked_add_u64 (saturating_mul_u64 (sec self) ns_per_s) n of
                 Some v \<Rightarrow> v | None \<Rightarrow> 0x7FFFFFFFFFFFFFFF))"

definition ts_ms :: "timespec \<Rightarrow> i64" where
  "ts_ms self = sec self * 1000 + word_of_int (sint (nsec self) div sint ns_per_ms)"

definition ts_ms_unsigned :: "timespec \<Rightarrow> u64" where
  "ts_ms_unsigned self = ts_ns self div ns_per_ms"

definition ts_greater :: "timespec \<Rightarrow> timespec \<Rightarrow> bool" where
  "ts_greater self other \<longleftrightarrow> ts_order self other = Greater"

definition ts_add_ms :: "timespec \<Rightarrow> i64 \<Rightarrow> timespec" where
  "ts_add_ms self interval =
     (let sec_inc = word_of_int (sint interval sdiv 1000);
          nsec_inc = word_of_int (sint interval smod 1000) * ns_per_ms;
          s = sec self + sec_inc; n = nsec self + nsec_inc
      in if sint n \<ge> sint ns_per_s then \<lparr>sec = s + 1, nsec = n - ns_per_s\<rparr> else \<lparr>sec = s, nsec = n\<rparr>)"

definition order_ignore_epoch :: "timespec \<Rightarrow> timespec \<Rightarrow> ordering" where
  "order_ignore_epoch a b =
     (if a = b then Equal else if a = epoch_ts then Greater else if b = epoch_ts then Less else ts_order a b)"

definition min_ignore_epoch :: "timespec \<Rightarrow> timespec \<Rightarrow> timespec" where
  "min_ignore_epoch self b = (if order_ignore_epoch self b = Less then self else b)"

definition from_ns :: "i64 \<Rightarrow> timespec" where
  "from_ns ns = \<lparr>sec = word_of_int (sint ns div sint ns_per_s), nsec = word_of_int (sint ns mod sint ns_per_s)\<rparr>"

section \<open>The instant\<close>

definition instant :: "timespec \<Rightarrow> int" where
  "instant t = sint (sec t) * 10 ^ 9 + sint (nsec t)"

definition normal :: "timespec \<Rightarrow> bool" where
  "normal t \<longleftrightarrow> 0 \<le> sint (nsec t) \<and> sint (nsec t) < 10 ^ 9"

lemma sint_inject: "sint (a :: i64) = sint b \<longleftrightarrow> a = b"
  by (auto intro: signed_word_eqI)

lemma uint_nonneg_sint: "0 \<le> sint (a :: i64) \<Longrightarrow> uint a = sint a"
  using sint_lt [of a] by (simp add: uint_sint take_bit_int_eq_self)

interpretation ts: comparison ts_order
proof
  show "ts_order a a = Equal" for a by (simp add: ts_order_def cmp_def)
  show "ts_order b a = reverse_ordering (ts_order a b)" for a b by (auto simp: ts_order_def cmp_def)
  show "ts_order a d \<noteq> Greater" if "ts_order a b \<noteq> Greater" "ts_order b d \<noteq> Greater" for a b d
    using that by (auto simp: ts_order_def cmp_def split: if_splits)
qed

lemma ts_order_instant:
  assumes "normal a" "normal b"
  shows "ts_order a b = cmp (instant a) (instant b)"
  using assms by (auto simp: ts_order_def cmp_def instant_def normal_def)

lemma sint_minus: "- (2 ^ 63) \<le> x \<Longrightarrow> x < 2 ^ 63 \<Longrightarrow> sint (word_of_int x :: i64) = x"
  by (simp add: signed_of_int signed_take_bit_int_eq_self)

lemma sint_diff: "- (2 ^ 63) \<le> sint a - sint b \<Longrightarrow> sint a - sint b < 2 ^ 63 \<Longrightarrow> sint (a - b :: i64) = sint a - sint b"
  using sint_minus [of "sint a - sint b"] by simp

lemma sint_sum: "- (2 ^ 63) \<le> sint a + sint b \<Longrightarrow> sint a + sint b < 2 ^ 63 \<Longrightarrow> sint (a + b :: i64) = sint a + sint b"
  using sint_minus [of "sint a + sint b"] by simp

lemma duration_instant:
  assumes "normal a" "normal b" "instant b \<le> instant a" "sint (sec a) - sint (sec b) < 2 ^ 63"
  shows "normal (ts_duration a b)" "instant (ts_duration a b) = instant a - instant b"
proof -
  have n: "sint (nsec a - nsec b) = sint (nsec a) - sint (nsec b)"
    using assms(1,2) by (intro sint_diff) (auto simp: normal_def)
  have d: "0 \<le> sint (sec a) - sint (sec b)" using assms(1-3) by (auto simp: normal_def instant_def)
  have s: "sint (sec a - sec b) = sint (sec a) - sint (sec b)" using d assms(4) by (intro sint_diff) auto
  have b: "sint (nsec a) < sint (nsec b) \<Longrightarrow> 0 < sint (sec a) - sint (sec b)"
    using assms(1-3) by (auto simp: normal_def instant_def)
  have s1: "sint (nsec a) < sint (nsec b) \<Longrightarrow> sint (sec a - sec b - 1) = sint (sec a) - sint (sec b) - 1"
    using s b assms(4) sint_diff [of "sec a - sec b" 1] by simp
  have n1: "sint (nsec a) < sint (nsec b) \<Longrightarrow> sint (nsec a - nsec b + ns_per_s) = sint (nsec a) - sint (nsec b) + 10 ^ 9"
    using n assms(1,2) sint_sum [of "nsec a - nsec b" ns_per_s] by (simp add: ns_per_s_def normal_def)
  show "normal (ts_duration a b)" "instant (ts_duration a b) = instant a - instant b"
    using assms(1,2) n s s1 n1 by (auto simp: ts_duration_def Let_def normal_def instant_def algebra_simps)
qed

lemma add_ms_instant:
  assumes "normal t" "0 \<le> sint k" "sint (sec t) + sint k div 1000 + 1 < 2 ^ 63"
  shows "normal (ts_add_ms t k)" "instant (ts_add_ms t k) = instant t + sint k * 10 ^ 6"
proof -
  let ?q = "sint k div 1000" and ?r = "sint k mod 1000"
  have q: "sint k sdiv 1000 = ?q" "sint k smod 1000 = ?r"
    using assms(2) by (simp_all add: signed_divide_int_def signed_modulo_int_def sgn_if)
  have r: "0 \<le> ?r" "?r < 1000" "0 \<le> ?q" "sint k < 2 ^ 63" "?q < 2 ^ 63"
    using assms(2) sint_lt [of k] by (auto simp: pos_imp_zdiv_nonneg_iff intro: le_less_trans [of _ "sint k"] zdiv_mono2_neg)
  have kk: "sint k = ?q * 1000 + ?r" by simp
  have nn: "0 \<le> sint (nsec t)" "sint (nsec t) < 10 ^ 9" using assms(1) by (simp_all add: normal_def)
  have sq: "sint (word_of_int ?q :: i64) = ?q" using r by (intro sint_minus) auto
  have sr: "(word_of_int ?r :: i64) * ns_per_ms = word_of_int (?r * 10 ^ 6)" by (simp add: ns_per_ms_def)
  have "sint (word_of_int (?r * 10 ^ 6) :: i64) = ?r * 10 ^ 6" using r by (intro sint_minus) auto
  then have n: "sint (nsec t + word_of_int ?r * ns_per_ms) = sint (nsec t) + ?r * 10 ^ 6"
    using r nn sint_sum [of "nsec t" "word_of_int (?r * 10 ^ 6)"] by (simp add: sr)
  have s: "sint (sec t + word_of_int ?q) = sint (sec t) + ?q"
    using sq r assms(3) sint_ge [of "sec t"] sint_sum [of "sec t" "word_of_int ?q"] by simp
  have s1: "sint (sec t + word_of_int ?q + 1) = sint (sec t) + ?q + 1"
    using s r assms(3) sint_ge [of "sec t"] sint_sum [of "sec t + word_of_int ?q" 1] by simp
  have n1: "sint (nsec t) + ?r * 10 ^ 6 \<ge> 10 ^ 9 \<Longrightarrow>
      sint (nsec t + word_of_int ?r * ns_per_ms - ns_per_s) = sint (nsec t) + ?r * 10 ^ 6 - 10 ^ 9"
    using n r nn sint_diff [of "nsec t + word_of_int ?r * ns_per_ms" ns_per_s] by (simp add: ns_per_s_def)
  have g: "sint ns_per_s = 10 ^ 9" by (simp add: ns_per_s_def)
  show "normal (ts_add_ms t k)"
    using n n1 nn by (simp add: ts_add_ms_def Let_def q g normal_def) (use r in linarith)
  show "instant (ts_add_ms t k) = instant t + sint k * 10 ^ 6"
    using n n1 s s1 by (simp add: ts_add_ms_def Let_def q g instant_def) (use kk in linarith)
qed

lemma uint_sum: "uint a + uint b < 2 ^ 64 \<Longrightarrow> uint (a + b :: u64) = uint a + uint b"
  by (simp add: uint_word_ariths mod_pos_pos_trivial)

lemma uint_prod: "uint a * uint b < 2 ^ 64 \<Longrightarrow> uint (a * b :: u64) = uint a * uint b"
  by (simp add: uint_word_ariths mod_pos_pos_trivial)

lemma ns_instant:
  assumes "normal t" "0 \<le> sint (sec t)" "instant t < 2 ^ 64"
  shows "uint (ts_ns t) = instant t"
proof -
  have n: "0 \<le> sint (nsec t)" "uint (nsec t) = sint (nsec t)" and s: "uint (sec t) = sint (sec t)"
    using assms(1,2) uint_nonneg_sint by (auto simp: normal_def)
  show ?thesis
  proof (cases "sint (sec t) = 0")
    case False
    have g: "uint ns_per_s = 10 ^ 9" by (simp add: ns_per_s_def)
    have m: "uint (sec t) * uint ns_per_s < 2 ^ 64" using assms(3) n(1) s g by (simp add: instant_def)
    then have p: "uint (sec t * ns_per_s) = sint (sec t) * 10 ^ 9" using uint_prod [OF m] s g by simp
    have a: "uint (sec t * ns_per_s) + uint (nsec t) < 2 ^ 64" using assms(3) p n(2) by (simp add: instant_def)
    then have "uint (sec t * ns_per_s + nsec t) = instant t" using uint_sum p n(2) by (simp add: instant_def)
    moreover have "int (unat (sec t * ns_per_s) + unat (nsec t)) < int (2 ^ 64)" using a by simp
    then have "unat (sec t * ns_per_s) + unat (nsec t) < 2 ^ 64" by (simp only: of_nat_less_iff)
    ultimately
    show ?thesis using False assms(2) n(1) m
      by (simp add: ts_ns_def Let_def saturating_mul_u64_def checked_add_u64_def)
  qed (use n in \<open>simp add: ts_ns_def Let_def instant_def\<close>)
qed

lemma from_ns_instant: "normal (from_ns x)" "instant (from_ns x) = sint x"
proof -
  have g: "sint ns_per_s = 10 ^ 9" by (simp add: ns_per_s_def)
  have r: "0 \<le> sint x mod 10 ^ 9" "sint x mod 10 ^ 9 < 10 ^ 9" by simp_all
  have q: "- (2 ^ 63) \<le> sint x div 10 ^ 9" "sint x div 10 ^ 9 < 2 ^ 63" using sint_ge [of x] sint_lt [of x] by auto
  have "sint (word_of_int (sint x mod 10 ^ 9) :: i64) = sint x mod 10 ^ 9" using r by (intro sint_minus) auto
  moreover have "sint (word_of_int (sint x div 10 ^ 9) :: i64) = sint x div 10 ^ 9" using q by (intro sint_minus) auto
  ultimately show "normal (from_ns x)" "instant (from_ns x) = sint x"
    using r by (simp_all add: from_ns_def normal_def instant_def g)
qed

text \<open>C27: \<^verbatim>\<open>Timespec\<close> arithmetic is exact on instants in nanoseconds: on values with normal nanoseconds the order is
  that of the instants; a difference that is not negative, a number of milliseconds added and a count of
  nanoseconds made into a \<^verbatim>\<open>Timespec\<close> are normal and have the instant they should; and \<^verbatim>\<open>ns\<close> is the instant
  when it fits.\<close>

theorem timespec_exact:
  assumes "normal a" "normal b"
  shows "(ts_greater a b \<longleftrightarrow> instant b < instant a) \<and>
    (instant b \<le> instant a \<and> sint (sec a) - sint (sec b) < 2 ^ 63 \<longrightarrow>
      normal (ts_duration a b) \<and> instant (ts_duration a b) = instant a - instant b) \<and>
    (0 \<le> sint k \<and> sint (sec a) + sint k div 1000 + 1 < 2 ^ 63 \<longrightarrow>
      normal (ts_add_ms a k) \<and> instant (ts_add_ms a k) = instant a + sint k * 10 ^ 6) \<and>
    (0 \<le> sint (sec a) \<and> instant a < 2 ^ 64 \<longrightarrow> uint (ts_ns a) = instant a) \<and>
    normal (from_ns k) \<and> instant (from_ns k) = sint k"
  using assms ts_order_instant duration_instant add_ms_instant ns_instant from_ns_instant
  by (auto simp: ts_greater_def cmp_def)

lemma timespec_exact_witness:
  "ts_duration \<lparr>sec = 7, nsec = 1\<rparr> \<lparr>sec = 5, nsec = 3\<rparr> = \<lparr>sec = 1, nsec = 999999998\<rparr> \<and>
   instant (ts_duration \<lparr>sec = 7, nsec = 1\<rparr> \<lparr>sec = 5, nsec = 3\<rparr>) = 1999999998 \<and>
   instant (ts_add_ms \<lparr>sec = 7, nsec = 1\<rparr> 1500) = 8500000001"
  using timespec_exact [of "\<lparr>sec = 7, nsec = 1\<rparr>" "\<lparr>sec = 5, nsec = 3\<rparr>" 1500]
  by (simp add: normal_def instant_def ts_duration_def Let_def ns_per_s_def)

text \<open>Before the zero of the clock \<^verbatim>\<open>ns\<close> is not the instant, nor zero.\<close>

lemma ns_of_negative: "instant (from_ns (- 1)) = - 1 \<and> ts_ns (from_ns (- 1)) = 999999999"
  by code_simp

end
