(* ===== verification/Timer.thy ===== *)
theory Timer
  imports Pairing_Heap Timespec
begin

text \<open>One timer: \<^verbatim>\<open>EventLoopTimer\<close>, its tags and states and the packed \<^verbatim>\<open>TimerFlags\<close> of a JavaScript timer
  (\<^verbatim>\<open>src/event_loop/EventLoopTimer.rs\<close>), and the order the heaps of timers are built on, \<^verbatim>\<open>EventLoopTimer::less\<close>.
  The flags of the object a timer is a field of are a field of the timer here, \<open>container_flags\<close>, which only the
  tags of JavaScript timers read. The lemmas show that the eight fields of the flags are independent, and where the
  order is one.\<close>

unbundle bit_operations_syntax

type_synonym i32 = "32 word"

datatype timer_tag = TimeoutObject | ImmediateObject | StatWatcherScheduler | UpgradedDuplex | DNSResolver | DnsSdConnection
  | WindowsNamedPipe | WTFTimer | PostgresSQLConnectionTimeout | PostgresSQLConnectionMaxLifetime | MySQLConnectionTimeout
  | MySQLConnectionMaxLifetime | ValkeyConnectionTimeout | ValkeyConnectionReconnect | SubprocessTimeout
  | DevServerSweepSourceMaps | DevServerMemoryVisualizerTick | AbortSignalTimeout | DateHeaderTimer | BunTest
  | EventLoopDelayMonitor | CronJob | GcRepeating | QuicEndpoint | FakeTimersTick | ViWait | UvTimer | WorkerWaitsForRoom

definition allow_fake_timers :: "timer_tag \<Rightarrow> bool" where
  "allow_fake_timers tag \<longleftrightarrow> tag \<in> {TimeoutObject, ImmediateObject, AbortSignalTimeout, CronJob}"

definition is_housekeeping :: "timer_tag \<Rightarrow> bool" where
  "is_housekeeping tag \<longleftrightarrow> tag \<in> {WTFTimer, DevServerSweepSourceMaps, DevServerMemoryVisualizerTick, DateHeaderTimer, BunTest,
     EventLoopDelayMonitor, GcRepeating}"

datatype timer_state = PENDING | ACTIVE | CANCELLED | FIRED

datatype timer_kind = SetTimeout | SetInterval | SetImmediate

datatype in_heap = InNone | InRegular | InFake

subsection \<open>The flags of a JavaScript timer\<close>

type_synonym timer_flags = u32

definition epoch_mask :: u32 where "epoch_mask = push_bit 24 1 - 1"
definition fake_mask :: u32 where "fake_mask = push_bit 24 1"
definition kind_shift :: nat where "kind_shift = 25"
definition kind_mask :: u32 where "kind_mask = push_bit kind_shift 3"
definition has_cleared_timer_mask :: u32 where "has_cleared_timer_mask = push_bit 27 1"
definition is_keeping_event_loop_alive_mask :: u32 where "is_keeping_event_loop_alive_mask = push_bit 28 1"
definition has_accessed_primitive_mask :: u32 where "has_accessed_primitive_mask = push_bit 29 1"
definition has_js_ref_mask :: u32 where "has_js_ref_mask = push_bit 30 1"
definition in_callback_mask :: u32 where "in_callback_mask = push_bit 31 1"

definition default_flags :: timer_flags where "default_flags = push_bit 30 1"

definition flags_epoch :: "timer_flags \<Rightarrow> u32" where
  "flags_epoch f = f AND epoch_mask"

definition set_epoch :: "u32 \<Rightarrow> timer_flags \<Rightarrow> timer_flags" where
  "set_epoch v f = (f AND NOT epoch_mask) OR (v AND epoch_mask)"

definition flags_kind :: "timer_flags \<Rightarrow> timer_kind option" where
  "flags_kind f =
     (let k = unat (drop_bit kind_shift (f AND kind_mask)) mod 256
      in if k = 0 then Some SetTimeout else if k = 1 then Some SetInterval else if k = 2 then Some SetImmediate else None)"

fun kind_number :: "timer_kind \<Rightarrow> u32" where
  "kind_number SetTimeout = 0" | "kind_number SetInterval = 1" | "kind_number SetImmediate = 2"

definition set_kind :: "timer_kind \<Rightarrow> timer_flags \<Rightarrow> timer_flags" where
  "set_kind k f = (f AND NOT kind_mask) OR push_bit kind_shift (kind_number k)"

definition flags_fake :: "timer_flags \<Rightarrow> bool" where
  "flags_fake f \<longleftrightarrow> f AND fake_mask \<noteq> 0"

definition set_fake :: "bool \<Rightarrow> timer_flags \<Rightarrow> timer_flags" where
  "set_fake v f = (if v then f OR fake_mask else f AND NOT fake_mask)"

definition has_cleared_timer :: "timer_flags \<Rightarrow> bool" where
  "has_cleared_timer f \<longleftrightarrow> f AND has_cleared_timer_mask \<noteq> 0"

definition set_has_cleared_timer :: "bool \<Rightarrow> timer_flags \<Rightarrow> timer_flags" where
  "set_has_cleared_timer v f = (if v then f OR has_cleared_timer_mask else f AND NOT has_cleared_timer_mask)"

definition is_keeping_event_loop_alive :: "timer_flags \<Rightarrow> bool" where
  "is_keeping_event_loop_alive f \<longleftrightarrow> f AND is_keeping_event_loop_alive_mask \<noteq> 0"

definition set_is_keeping_event_loop_alive :: "bool \<Rightarrow> timer_flags \<Rightarrow> timer_flags" where
  "set_is_keeping_event_loop_alive v f =
     (if v then f OR is_keeping_event_loop_alive_mask else f AND NOT is_keeping_event_loop_alive_mask)"

definition has_accessed_primitive :: "timer_flags \<Rightarrow> bool" where
  "has_accessed_primitive f \<longleftrightarrow> f AND has_accessed_primitive_mask \<noteq> 0"

definition set_has_accessed_primitive :: "bool \<Rightarrow> timer_flags \<Rightarrow> timer_flags" where
  "set_has_accessed_primitive v f = (if v then f OR has_accessed_primitive_mask else f AND NOT has_accessed_primitive_mask)"

definition has_js_ref :: "timer_flags \<Rightarrow> bool" where
  "has_js_ref f \<longleftrightarrow> f AND has_js_ref_mask \<noteq> 0"

definition set_has_js_ref :: "bool \<Rightarrow> timer_flags \<Rightarrow> timer_flags" where
  "set_has_js_ref v f = (if v then f OR has_js_ref_mask else f AND NOT has_js_ref_mask)"

definition in_callback :: "timer_flags \<Rightarrow> bool" where
  "in_callback f \<longleftrightarrow> f AND in_callback_mask \<noteq> 0"

definition set_in_callback :: "bool \<Rightarrow> timer_flags \<Rightarrow> timer_flags" where
  "set_in_callback v f = (if v then f OR in_callback_mask else f AND NOT in_callback_mask)"

subsection \<open>The order\<close>

record event_loop_timer =
  next_at :: timespec
  t_state :: timer_state
  t_tag :: timer_tag
  t_in_heap :: in_heap
  is_due_when_idle :: bool
  container_flags :: timer_flags

definition init_paused :: "timer_tag \<Rightarrow> timer_flags \<Rightarrow> event_loop_timer" where
  "init_paused tag flags = \<lparr>next_at = epoch_ts, t_state = PENDING, t_tag = tag, t_in_heap = InNone,
     is_due_when_idle = False, container_flags = flags\<rparr>"

definition js_timer_flags :: "event_loop_timer \<Rightarrow> timer_flags option" where
  "js_timer_flags t =
     (if t_tag t \<in> {TimeoutObject, ImmediateObject, AbortSignalTimeout} then Some (container_flags t) else None)"

definition js_timer_epoch :: "event_loop_timer \<Rightarrow> u32 option" where
  "js_timer_epoch t = map_option flags_epoch (js_timer_flags t)"

definition timer_less :: "event_loop_timer \<Rightarrow> event_loop_timer \<Rightarrow> bool" where
  "timer_less a b =
     (let sec_order = cmp (sint (sec (next_at a))) (sint (sec (next_at b)))
      in if sec_order \<noteq> Equal then sec_order = Less
         else
           (let maybe_a_epoch = js_timer_epoch a;
                maybe_b_epoch = js_timer_epoch b;
                a_ns = nsec (next_at a);
                b_ns = nsec (next_at b);
                a_ns = (if maybe_a_epoch \<noteq> None then ns_per_ms * word_of_int (sint a_ns sdiv sint ns_per_ms) else a_ns);
                b_ns = (if maybe_b_epoch \<noteq> None then ns_per_ms * word_of_int (sint b_ns sdiv sint ns_per_ms) else b_ns);
                order = cmp (sint a_ns) (sint b_ns)
            in if order = Equal \<and> (t_tag a = ImmediateObject) \<noteq> (t_tag b = ImmediateObject) then t_tag a = ImmediateObject
               else (case (if order = Equal then (maybe_a_epoch, maybe_b_epoch) else (None, None)) of
                       (Some a_epoch, Some b_epoch) \<Rightarrow> (b_epoch - a_epoch) AND epoch_mask < epoch_mask div 2
                     | _ \<Rightarrow> order = Less)))"

section \<open>The flags\<close>

lemma bit_and_mask: "(f AND push_bit n 1 \<noteq> 0) \<longleftrightarrow> bit f n" for f :: u32
  by (simp add: bit_iff_and_push_bit_not_eq_0)

lemma bit_put: "bit (if v then f OR push_bit n 1 else f AND NOT (push_bit n 1)) m \<longleftrightarrow> (if m = n \<and> n < 32 then v else bit f m)" for f :: u32
  using bit_imp_le_length [of f m] by (auto simp: bit_simps)

lemma epoch_take: "f AND epoch_mask = take_bit 24 f"
  by (simp add: epoch_mask_def take_bit_eq_mask mask_eq_exp_minus_1)

lemma take_bit_two: "take_bit 2 x = (of_bool (bit x 0) + (if bit x 1 then 2 else 0) :: u32)"
  by (rule bit_word_eqI) (auto simp: bit_simps numeral_2_eq_2 less_Suc_eq)

lemma epoch_mask_bits: "bit epoch_mask m \<longleftrightarrow> m < 24"
proof -
  have "epoch_mask = mask 24" by (simp add: epoch_mask_def mask_eq_exp_minus_1)
  then have "bit epoch_mask m = bit (mask 24 :: u32) m" by (rule arg_cong)
  also have "\<dots> \<longleftrightarrow> m < 24" by (simp only: bit_mask_iff possible_bit_word) auto
  finally show ?thesis .
qed

lemma kind_mask_bits: "bit kind_mask m \<longleftrightarrow> m = 25 \<or> m = 26"
proof -
  have "kind_mask = push_bit 25 1 OR push_bit 26 1" by code_simp
  then have "bit kind_mask m = bit (push_bit 25 1 OR push_bit 26 1 :: u32) m" by (rule arg_cong)
  also have "\<dots> \<longleftrightarrow> m = 25 \<or> m = 26"
    by (simp only: bit_or_iff bit_push_bit_iff bit_1_iff possible_bit_word) auto
  finally show ?thesis .
qed

lemma kind_field: "drop_bit 25 (f AND kind_mask) = take_bit 2 (drop_bit 25 f)"
  by (rule bit_word_eqI) (auto simp: bit_simps kind_mask_bits)

definition kind_of_bits :: "bool \<Rightarrow> bool \<Rightarrow> timer_kind option" where
  "kind_of_bits b0 b1 = (if b1 then (if b0 then None else Some SetImmediate) else Some (if b0 then SetInterval else SetTimeout))"

lemma kind_bits: "flags_kind f = kind_of_bits (bit f 25) (bit f 26)"
proof -
  have "unat (drop_bit kind_shift (f AND kind_mask)) mod 256 = of_bool (bit f 25) + (if bit f 26 then 2 else 0)"
    unfolding kind_shift_def kind_field take_bit_two by (simp add: bit_simps)
  then show ?thesis unfolding flags_kind_def Let_def by (simp add: kind_of_bits_def)
qed

lemma set_kind_bits: "bit (set_kind k f) m \<longleftrightarrow> (if m = 25 then k = SetInterval else if m = 26 then k = SetImmediate else bit f m)"
proof -
  have "bit (push_bit 25 (kind_number k)) m \<longleftrightarrow> m = 25 \<and> k = SetInterval \<or> m = 26 \<and> k = SetImmediate"
    by (cases k; simp only: kind_number.simps push_bit_of_0 bit_0_eq bit_push_bit_iff bit_1_iff bit_2_iff possible_bit_word) auto
  then show ?thesis
    using bit_imp_le_length [of f m] by (auto simp: set_kind_def kind_shift_def bit_or_iff bit_and_iff bit_not_iff kind_mask_bits)
qed

lemma set_epoch_bits: "bit (set_epoch v f) m \<longleftrightarrow> (if m < 24 then bit v m else bit f m)"
  using bit_imp_le_length [of f m] by (auto simp: set_epoch_def bit_or_iff bit_and_iff bit_not_iff epoch_mask_bits)

lemmas flag_masks = fake_mask_def has_cleared_timer_mask_def is_keeping_event_loop_alive_mask_def
  has_accessed_primitive_mask_def has_js_ref_mask_def in_callback_mask_def

lemmas flag_setters = set_fake_def set_has_cleared_timer_def set_is_keeping_event_loop_alive_def
  set_has_accessed_primitive_def set_has_js_ref_def set_in_callback_def

lemmas flag_getters = flags_fake_def has_cleared_timer_def is_keeping_event_loop_alive_def
  has_accessed_primitive_def has_js_ref_def in_callback_def

text \<open>Everything the flags say.\<close>

definition flags_view :: "timer_flags \<Rightarrow> u32 \<times> bool \<times> timer_kind option \<times> bool \<times> bool \<times> bool \<times> bool \<times> bool" where
  "flags_view f = (flags_epoch f, flags_fake f, flags_kind f, has_cleared_timer f, is_keeping_event_loop_alive f,
     has_accessed_primitive f, has_js_ref f, in_callback f)"

lemma flags_view_bits: "flags_view f = (take_bit 24 f, bit f 24, kind_of_bits (bit f 25) (bit f 26), bit f 27, bit f 28, bit f 29, bit f 30, bit f 31)"
  by (simp only: flags_view_def flags_epoch_def epoch_take kind_bits flag_getters flag_masks bit_and_mask)

lemma take_bit_cong: "(\<And>m. m < 24 \<Longrightarrow> bit f m = bit g m) \<Longrightarrow> take_bit 24 f = take_bit 24 (g :: u32)"
  by (rule bit_word_eqI) (auto simp: bit_simps)

lemma take_bit_put: "24 \<le> n \<Longrightarrow> take_bit 24 (if v then f OR push_bit n 1 else f AND NOT (push_bit n 1)) = take_bit 24 f" for f :: u32
  by (rule take_bit_cong) (simp only: bit_put, simp)

text \<open>The packed state of a JavaScript timer: each of the eight fields reads back what was written to it, and writing
  one leaves the other seven alone, for every value of the word.\<close>

theorem flags_independent:
  assumes "flags_view f = (e, fk, k, c, l, p, j, i)"
  shows "flags_view (set_epoch v f) = (v AND epoch_mask, fk, k, c, l, p, j, i) \<and>
    flags_view (set_fake b f) = (e, b, k, c, l, p, j, i) \<and>
    flags_view (set_kind q f) = (e, fk, Some q, c, l, p, j, i) \<and>
    flags_view (set_has_cleared_timer b f) = (e, fk, k, b, l, p, j, i) \<and>
    flags_view (set_is_keeping_event_loop_alive b f) = (e, fk, k, c, b, p, j, i) \<and>
    flags_view (set_has_accessed_primitive b f) = (e, fk, k, c, l, b, j, i) \<and>
    flags_view (set_has_js_ref b f) = (e, fk, k, c, l, p, b, i) \<and>
    flags_view (set_in_callback b f) = (e, fk, k, c, l, p, j, b)"
proof -
  have "take_bit 24 (set_epoch v f) = take_bit 24 v" "take_bit 24 (set_kind q f) = take_bit 24 f"
    by (rule take_bit_cong, simp add: set_epoch_bits set_kind_bits)+
  moreover have "kind_of_bits (q = SetInterval) (q = SetImmediate) = Some q" by (cases q) (simp_all add: kind_of_bits_def)
  ultimately show ?thesis
    using assms unfolding flags_view_bits epoch_take flag_setters flag_masks
    by (simp only: prod.inject set_epoch_bits set_kind_bits bit_put take_bit_put) simp
qed

lemma flags_independent_witness:
  "flags_view default_flags = (0, False, Some SetTimeout, False, False, False, True, False) \<and>
   flags_view (set_kind SetImmediate (set_epoch 0x1FFFFFF default_flags)) = (0xFFFFFF, False, Some SetImmediate, False, False, False, True, False)"
proof -
  have d: "flags_view default_flags = (0, False, Some SetTimeout, False, False, False, True, False)" by code_simp
  have "(0x1FFFFFF :: u32) AND epoch_mask = 0xFFFFFF" by code_simp
  then have e: "flags_view (set_epoch 0x1FFFFFF default_flags) = (0xFFFFFF, False, Some SetTimeout, False, False, False, True, False)"
    using flags_independent [OF d, of "0x1FFFFFF"] by simp
  show ?thesis using d flags_independent [OF e, of 0 False SetImmediate] by simp
qed

section \<open>The order of timers\<close>

text \<open>What two timers are compared by first: the second, and the nanoseconds, in whole milliseconds for a
  JavaScript timer.\<close>

definition deadline_ns :: "event_loop_timer \<Rightarrow> i64" where
  "deadline_ns t =
     (if js_timer_epoch t \<noteq> None then ns_per_ms * word_of_int (sint (nsec (next_at t)) sdiv sint ns_per_ms) else nsec (next_at t))"

definition bucket :: "event_loop_timer \<Rightarrow> int \<times> int" where
  "bucket t = (sint (sec (next_at t)), sint (deadline_ns t))"

definition before_bucket :: "event_loop_timer \<Rightarrow> event_loop_timer \<Rightarrow> bool" where
  "before_bucket a b \<longleftrightarrow> fst (bucket a) < fst (bucket b) \<or> fst (bucket a) = fst (bucket b) \<and> snd (bucket a) < snd (bucket b)"

definition is_immediate :: "event_loop_timer \<Rightarrow> bool" where
  "is_immediate t \<longleftrightarrow> t_tag t = ImmediateObject"

definition epoch_less :: "u32 \<Rightarrow> u32 \<Rightarrow> bool" where
  "epoch_less a b \<longleftrightarrow> (b - a) AND epoch_mask < epoch_mask div 2"

lemma timer_less_buckets:
  "timer_less a b \<longleftrightarrow>
    (if bucket a \<noteq> bucket b then before_bucket a b
     else if is_immediate a \<noteq> is_immediate b then is_immediate a
     else (case (js_timer_epoch a, js_timer_epoch b) of (Some x, Some y) \<Rightarrow> epoch_less x y | _ \<Rightarrow> False))"
proof (cases "js_timer_epoch a"; cases "js_timer_epoch b")
qed (auto simp: timer_less_def Let_def cmp_def bucket_def before_bucket_def deadline_ns_def is_immediate_def epoch_less_def
    split: option.splits if_splits)

text \<open>The distance of an epoch from the oldest one.\<close>

definition age :: "u32 \<Rightarrow> u32 \<Rightarrow> nat" where
  "age oldest e = unat ((e - oldest) AND epoch_mask)"

lemma masked_diff: "int (unat ((x - y) AND epoch_mask)) = (uint x - uint y) mod 2 ^ 24" for x y :: u32
proof -
  have "(uint x - uint y) mod 2 ^ 32 mod 2 ^ 24 = (uint x - uint y) mod 2 ^ 24" by (rule mod_mod_cancel) simp
  moreover have "uint (take_bit 24 (x - y)) = take_bit 24 (uint (x - y))" by (rule unsigned_take_bit_eq)
  ultimately show ?thesis by (simp add: epoch_take uint_word_ariths take_bit_eq_mod)
qed

lemma epoch_less_iff: "epoch_less a b \<longleftrightarrow> (uint b - uint a) mod 2 ^ 24 < 2 ^ 23 - 1"
proof -
  have "epoch_mask div 2 = 8388607" by code_simp
  then have "epoch_less a b \<longleftrightarrow> unat ((b - a) AND epoch_mask) < 8388607"
    by (simp add: epoch_less_def word_less_nat_alt)
  also have "\<dots> \<longleftrightarrow> int (unat ((b - a) AND epoch_mask)) < 8388607" by linarith
  finally show ?thesis unfolding masked_diff by simp
qed

lemma epoch_less_age:
  assumes "age oldest a < 2 ^ 23 - 1" "age oldest b < 2 ^ 23 - 1" "age oldest a \<noteq> age oldest b"
  shows "epoch_less a b \<longleftrightarrow> age oldest a < age oldest b"
proof -
  define x y where "x = int (age oldest a)" and "y = int (age oldest b)"
  have xy: "0 \<le> x" "x < 2 ^ 23 - 1" "0 \<le> y" "y < 2 ^ 23 - 1" "x \<noteq> y"
    using assms by (auto simp: x_def y_def)
  have "(uint b - uint a) mod 2 ^ 24 = ((uint b - uint oldest) mod 2 ^ 24 - (uint a - uint oldest) mod 2 ^ 24) mod 2 ^ 24"
    by (simp add: mod_diff_eq)
  also have "\<dots> = (y - x) mod 2 ^ 24" by (simp only: x_def y_def age_def masked_diff)
  finally have d: "(uint b - uint a) mod 2 ^ 24 = (y - x) mod 2 ^ 24" .
  have "(y - x) mod 2 ^ 24 = (if x < y then y - x else y - x + 2 ^ 24)"
  proof (cases "x < y")
    case True
    then show ?thesis using xy by simp
  next
    case False
    have "(y - x) mod 2 ^ 24 = (y - x + 2 ^ 24) mod 2 ^ 24" by simp
    also have "\<dots> = y - x + 2 ^ 24" using False xy by (intro mod_pos_pos_trivial) auto
    finally show ?thesis using False by simp
  qed
  then have "epoch_less a b \<longleftrightarrow> x < y" using xy unfolding epoch_less_iff d by auto
  then show ?thesis by (simp add: x_def y_def)
qed

text \<open>Timers that have an order: the epochs of the JavaScript timers are different and span less than half of the
  24 bits, and none of them is in the bucket of a timer of the runtime.\<close>

definition timers_spread :: "u32 \<Rightarrow> ('n \<Rightarrow> event_loop_timer) \<Rightarrow> 'n set \<Rightarrow> bool" where
  "timers_spread oldest d S \<longleftrightarrow>
     (\<forall>x\<in>S. \<forall>e. js_timer_epoch (d x) = Some e \<longrightarrow> age oldest e < 2 ^ 23 - 1) \<and>
     (\<forall>x\<in>S. \<forall>y\<in>S. \<forall>e f. x \<noteq> y \<longrightarrow> js_timer_epoch (d x) = Some e \<longrightarrow> js_timer_epoch (d y) = Some f \<longrightarrow> age oldest e \<noteq> age oldest f) \<and>
     (\<forall>x\<in>S. \<forall>y\<in>S. js_timer_epoch (d x) \<noteq> None \<longrightarrow> js_timer_epoch (d y) = None \<longrightarrow> bucket (d x) \<noteq> bucket (d y))"

definition timer_age :: "u32 \<Rightarrow> event_loop_timer \<Rightarrow> nat" where
  "timer_age oldest t = (case js_timer_epoch t of None \<Rightarrow> 0 | Some e \<Rightarrow> age oldest e)"

text \<open>The place of a timer: its bucket, immediates first, then its age.\<close>

definition key_less :: "u32 \<Rightarrow> event_loop_timer \<Rightarrow> event_loop_timer \<Rightarrow> bool" where
  "key_less oldest a b \<longleftrightarrow>
     (if bucket a \<noteq> bucket b then before_bucket a b
      else if is_immediate a \<noteq> is_immediate b then is_immediate a else timer_age oldest a < timer_age oldest b)"

lemma immediate_epoch: "is_immediate t \<Longrightarrow> js_timer_epoch t \<noteq> None"
  by (simp add: is_immediate_def js_timer_epoch_def js_timer_flags_def)

lemma timer_less_key:
  assumes "timers_spread oldest d S" "x \<in> S" "y \<in> S" "x \<noteq> y"
  shows "timer_less (d x) (d y) \<longleftrightarrow> key_less oldest (d x) (d y)"
proof (cases "bucket (d x) = bucket (d y) \<and> is_immediate (d x) = is_immediate (d y)")
  case False
  then show ?thesis by (auto simp: timer_less_buckets key_less_def)
next
  case True
  then have "js_timer_epoch (d x) = None \<longleftrightarrow> js_timer_epoch (d y) = None"
    using assms unfolding timers_spread_def by metis
  then show ?thesis
  proof (cases "js_timer_epoch (d x)")
    case (Some e)
    then obtain f where f: "js_timer_epoch (d y) = Some f" using \<open>_ = None \<longleftrightarrow> _ = None\<close> by auto
    have "age oldest e < 2 ^ 23 - 1" "age oldest f < 2 ^ 23 - 1" "age oldest e \<noteq> age oldest f"
      using assms Some f unfolding timers_spread_def by blast+
    then show ?thesis using True Some f epoch_less_age by (simp add: timer_less_buckets key_less_def timer_age_def)
  qed (use True in \<open>simp add: timer_less_buckets key_less_def timer_age_def\<close>)
qed

lemma key_total:
  "\<not> key_less k a b \<or> \<not> key_less k b a" "\<not> key_less k b a \<Longrightarrow> \<not> key_less k c b \<Longrightarrow> \<not> key_less k c a"
  by (auto simp: key_less_def before_bucket_def prod_eq_iff split: if_splits)

text \<open>C24: \<^verbatim>\<open>EventLoopTimer::less\<close> orders the timers, so the heap of timers is sorted, as long as the epochs of the
  JavaScript timers span less than half of their 24 bits and no JavaScript timer shares its millisecond with a
  timer of the runtime due exactly then: a timer comes first by its second and nanosecond (JavaScript timers by
  millisecond), then a faked immediate, then the one that was armed earlier, across the overflow of the epoch.\<close>

theorem timer_less_orders:
  assumes "timers_spread oldest d S"
  shows "orders (\<lambda>x y. timer_less (d x) (d y)) S \<and>
    (\<forall>x\<in>S. \<forall>y\<in>S. x \<noteq> y \<longrightarrow> (timer_less (d x) (d y) \<longleftrightarrow> key_less oldest (d x) (d y)))"
proof -
  have key: "timer_less (d x) (d y) \<longleftrightarrow> key_less oldest (d x) (d y)" if "x \<in> S" "y \<in> S" "x \<noteq> y" for x y
    by (rule timer_less_key [OF assms that])
  have le: "le (\<lambda>x y. timer_less (d x) (d y)) x y \<longleftrightarrow> x = y \<or> \<not> key_less oldest (d y) (d x)" if "x \<in> S" "y \<in> S" for x y
    using key [of y x] that by (auto simp: le_def)
  let ?le = "le (\<lambda>x y. timer_less (d x) (d y))"
  have total: "\<forall>x\<in>S. \<forall>y\<in>S. ?le x y \<or> ?le y x" using le key_total(1) by blast
  have "?le x z" if "x \<in> S" "y \<in> S" "z \<in> S" "?le x y" "?le y z" for x y z
    using that le [of x z] le [of x y] le [of y z] key_total(2) [of oldest "d y" "d x" "d z"] by blast
  with total key show ?thesis unfolding orders_def by blast
qed

lemma timer_less_place [simp]:
  "timer_less (x\<lparr>t_in_heap := c\<rparr>) y = timer_less x y" "timer_less x (y\<lparr>t_in_heap := c\<rparr>) = timer_less x y"
  by (simp_all add: timer_less_def js_timer_epoch_def js_timer_flags_def)

lemma timer_less_state [simp]:
  "timer_less (x\<lparr>t_state := c\<rparr>) y = timer_less x y" "timer_less x (y\<lparr>t_state := c\<rparr>) = timer_less x y"
  by (simp_all add: timer_less_def js_timer_epoch_def js_timer_flags_def)

section \<open>Examples\<close>

definition at_ms :: "timer_tag \<Rightarrow> i64 \<Rightarrow> event_loop_timer" where
  "at_ms tag ms = (init_paused tag default_flags)\<lparr>next_at := \<lparr>sec = 0, nsec = ms * 1000000\<rparr>\<rparr>"

lemma orders_pair: "\<not> lt x y \<or> \<not> lt y x \<Longrightarrow> orders lt {x, y}"
  by (auto simp: orders_def le_def)

lemma orders_single: "orders lt {x}"
  using orders_pair [of lt x x] by (simp add: orders_def)

text \<open>A timeout of before the overflow of the epoch, one of after it, and a timer of the runtime.\<close>

definition overflow_data :: "nat \<Rightarrow> event_loop_timer" where
  "overflow_data = ((\<lambda>_. at_ms PostgresSQLConnectionTimeout 7)
     (1 := (at_ms TimeoutObject 4)\<lparr>container_flags := set_epoch 0xFFFFFF default_flags\<rparr>,
      2 := (at_ms TimeoutObject 4)\<lparr>container_flags := set_epoch 3 default_flags\<rparr>))"

lemma timer_less_orders_witness:
  "timer_less (overflow_data 1) (overflow_data 2) \<and> orders (\<lambda>x y. timer_less (overflow_data x) (overflow_data y)) {1, 2, 3}"
proof -
  have e: "js_timer_epoch (overflow_data 1) = Some 0xFFFFFF" "js_timer_epoch (overflow_data 2) = Some 3"
    "js_timer_epoch (overflow_data 3) = None" by code_simp+
  have g: "age 0xFFFFF0 0xFFFFFF = 15" "age 0xFFFFF0 3 = 19" by code_simp+
  have b: "bucket (overflow_data 1) \<noteq> bucket (overflow_data 3)" "bucket (overflow_data 2) \<noteq> bucket (overflow_data 3)"
    "bucket (overflow_data 1) = bucket (overflow_data 2)" "is_immediate (overflow_data 1) = is_immediate (overflow_data 2)" by code_simp+
  have "timers_spread 0xFFFFF0 overflow_data {1, 2, 3}" using e g b by (auto simp: timers_spread_def)
  from timer_less_orders [OF this] show ?thesis using e g b by (simp add: key_less_def timer_age_def)
qed

end
