(* ===== verification/Timers.thy ===== *)
theory Timers
  imports Timer
begin

text \<open>All timers of a thread: \<^verbatim>\<open>All\<close> of \<^verbatim>\<open>src/runtime/timer/mod.rs\<close>, with its heaps of real, faked and WTF timers over one
  store of links, and the calls that arm, move and cancel a timer. The lemmas show what every call keeps: which heap
  a timer is in, and that the fields of the timer say so. Of \<^verbatim>\<open>FakeTimers\<close>, what these calls read and write is here;
  the locks, the debug assertions and the Windows handles are not.\<close>

unbundle bit_operations_syntax

section \<open>All timers of a thread\<close>

datatype clock = Real | Fake

datatype tick_mode = Manual | NextAsync | Interval u32

text \<open>Of \<^verbatim>\<open>FakeTimers\<close>, what \<^verbatim>\<open>All::insert\<close> reads and writes: the set of faked functions, of which bit 0 is
  \<^verbatim>\<open>setTimeout\<close>, the mode, the numbers of pending drives and ticks, and the step posted to the event loop.\<close>

record fake_state =
  faked :: "16 word"
  fakes_abort_signal_timeout :: bool
  tick_mode :: tick_mode
  auto_step_posted :: bool
  drives :: nat
  ticks :: nat

record 'n all_timers =
  reg_root :: "'n option"
  fake_root :: "'n option"
  wtf_root :: "'n option"
  a_links :: "'n store"
  a_data :: "'n \<Rightarrow> event_loop_timer"
  a_epoch :: u32
  a_fake :: fake_state
  active_timer_count :: i32
  immediate_ref_count :: i32
  last_timer_id :: u64

definition reg_heap :: "'n all_timers \<Rightarrow> 'n heap" where
  "reg_heap a = \<lparr>h_root = reg_root a, h_store = a_links a\<rparr>"

definition put_reg :: "'n heap \<Rightarrow> 'n all_timers \<Rightarrow> 'n all_timers" where
  "put_reg h a = a\<lparr>reg_root := h_root h, a_links := h_store h\<rparr>"

definition fake_heap :: "'n all_timers \<Rightarrow> 'n heap" where
  "fake_heap a = \<lparr>h_root = fake_root a, h_store = a_links a\<rparr>"

definition put_fake :: "'n heap \<Rightarrow> 'n all_timers \<Rightarrow> 'n all_timers" where
  "put_fake h a = a\<lparr>fake_root := h_root h, a_links := h_store h\<rparr>"

definition wtf_heap :: "'n all_timers \<Rightarrow> 'n heap" where
  "wtf_heap a = \<lparr>h_root = wtf_root a, h_store = a_links a\<rparr>"

definition put_wtf :: "'n heap \<Rightarrow> 'n all_timers \<Rightarrow> 'n all_timers" where
  "put_wtf h a = a\<lparr>wtf_root := h_root h, a_links := h_store h\<rparr>"

definition timer_lt :: "'n all_timers \<Rightarrow> 'n \<Rightarrow> 'n \<Rightarrow> bool" where
  "timer_lt a x y = timer_less (a_data a x) (a_data a y)"

definition update_timer :: "'n \<Rightarrow> (event_loop_timer \<Rightarrow> event_loop_timer) \<Rightarrow> 'n all_timers \<Rightarrow> 'n all_timers" where
  "update_timer t f a = a\<lparr>a_data := (a_data a)(t := f (a_data a t))\<rparr>"

definition next_id :: "'n all_timers \<Rightarrow> u64 \<times> 'n all_timers" where
  "next_id a = (last_timer_id a, a\<lparr>last_timer_id := last_timer_id a + 1\<rparr>)"

definition set_timeout_clock :: "fake_state \<Rightarrow> clock" where
  "set_timeout_clock f = (if faked f AND push_bit 0 1 \<noteq> 0 then Fake else Real)"

definition abort_signal_timeout_clock :: "fake_state \<Rightarrow> clock" where
  "abort_signal_timeout_clock f = (if fakes_abort_signal_timeout f then set_timeout_clock f else Real)"

definition fake_is_empty :: "'n all_timers \<Rightarrow> bool" where
  "fake_is_empty a \<longleftrightarrow> fake_root a = None \<and> ticks (a_fake a) = 0"

definition post_auto_step :: "'n all_timers \<Rightarrow> 'n all_timers" where
  "post_auto_step a =
     (if tick_mode (a_fake a) = NextAsync \<and> \<not> auto_step_posted (a_fake a) \<and> drives (a_fake a) = 0 \<and> \<not> fake_is_empty a
      then a\<lparr>a_fake := (a_fake a)\<lparr>auto_step_posted := True\<rparr>\<rparr> else a)"

text \<open>\<^verbatim>\<open>All::insert\<close>. The timer is on the fake clock when its tag and the fake timers say so.\<close>

definition bump_epoch :: "'n \<Rightarrow> 'n all_timers \<Rightarrow> 'n all_timers" where
  "bump_epoch timer a =
     (case js_timer_flags (a_data a timer) of
        None \<Rightarrow> a
      | Some flags \<Rightarrow>
          (let e = (a_epoch a + 1) AND epoch_mask
           in update_timer timer (\<lambda>t. t\<lparr>container_flags := set_epoch e flags\<rparr>) (a\<lparr>a_epoch := e\<rparr>)))"

definition goes_fake :: "'n \<Rightarrow> 'n all_timers \<Rightarrow> bool" where
  "goes_fake timer a =
     (let t = a_data a timer; tag = t_tag t
      in if tag = TimeoutObject \<or> tag = ImmediateObject then
           (case js_timer_flags t of Some flags \<Rightarrow> flags_fake flags | None \<Rightarrow> False)
         else if tag = AbortSignalTimeout then abort_signal_timeout_clock (a_fake a) = Fake
         else allow_fake_timers tag \<and> set_timeout_clock (a_fake a) = Fake)"

definition all_insert :: "'n \<Rightarrow> 'n all_timers \<Rightarrow> 'n all_timers" where
  "all_insert timer a =
     (let a = bump_epoch timer a
      in if goes_fake timer a then
           post_auto_step (update_timer timer (\<lambda>t. t\<lparr>t_state := ACTIVE, t_in_heap := InFake\<rparr>)
             (put_fake (heap_insert (timer_lt a) timer (fake_heap a)) a))
         else
           update_timer timer (\<lambda>t. t\<lparr>t_state := ACTIVE, t_in_heap := InRegular\<rparr>)
             (put_reg (heap_insert (timer_lt a) timer (reg_heap a)) a))"

definition all_remove :: "'n \<Rightarrow> 'n all_timers \<Rightarrow> 'n all_timers option" where
  "all_remove timer a =
     map_option (update_timer timer (\<lambda>t. t\<lparr>t_in_heap := InNone, t_state := CANCELLED\<rparr>))
       (case t_in_heap (a_data a timer) of
          InNone \<Rightarrow> Some a
        | InRegular \<Rightarrow> map_option (\<lambda>h. put_reg h a) (heap_remove (timer_lt a) timer (reg_heap a))
        | InFake \<Rightarrow> map_option (\<lambda>h. put_fake h a) (heap_remove (timer_lt a) timer (fake_heap a)))"

definition all_update :: "'n \<Rightarrow> timespec \<Rightarrow> 'n all_timers \<Rightarrow> 'n all_timers option" where
  "all_update timer time a =
     map_option (\<lambda>a. all_insert timer (update_timer timer (\<lambda>t. t\<lparr>next_at := time\<rparr>) a))
       (if t_state (a_data a timer) = ACTIVE then all_remove timer a else Some a)"

definition wtf_arm :: "'n \<Rightarrow> timespec \<Rightarrow> 'n all_timers \<Rightarrow> 'n all_timers option" where
  "wtf_arm timer time a =
     map_option (\<lambda>a.
         let a = update_timer timer (\<lambda>t. t\<lparr>next_at := time\<rparr>) a
         in update_timer timer (\<lambda>t. t\<lparr>t_state := ACTIVE\<rparr>) (put_wtf (heap_insert (timer_lt a) timer (wtf_heap a)) a))
       (if t_state (a_data a timer) = ACTIVE
        then map_option (\<lambda>h. put_wtf h a) (heap_remove (timer_lt a) timer (wtf_heap a)) else Some a)"

definition wtf_disarm :: "'n \<Rightarrow> 'n all_timers \<Rightarrow> 'n all_timers option" where
  "wtf_disarm timer a =
     (if t_state (a_data a timer) = ACTIVE then
        map_option (\<lambda>h. update_timer timer (\<lambda>t. t\<lparr>t_state := CANCELLED\<rparr>) (put_wtf h a))
          (heap_remove (timer_lt a) timer (wtf_heap a))
      else Some a)"

section \<open>Keeping the event loop alive\<close>

text \<open>The calls on the loop are the change of its reference count, which comes back with the timers.\<close>

definition count_ref :: "i32 \<Rightarrow> i32 \<Rightarrow> int" where
  "count_ref old new = (if sint old \<le> 0 \<and> sint new > 0 then 1 else if sint old > 0 \<and> sint new \<le> 0 then - 1 else 0)"

definition increment_immediate_ref :: "i32 \<Rightarrow> 'n all_timers \<times> int \<Rightarrow> 'n all_timers \<times> int" where
  "increment_immediate_ref delta w =
     (let old = immediate_ref_count (fst w); new = old + delta
      in ((fst w)\<lparr>immediate_ref_count := new\<rparr>, snd w + count_ref old new))"

definition increment_timer_ref :: "i32 \<Rightarrow> 'n all_timers \<times> int \<Rightarrow> 'n all_timers \<times> int" where
  "increment_timer_ref delta w =
     (let old = active_timer_count (fst w); new = old + delta
      in ((fst w)\<lparr>active_timer_count := new\<rparr>, snd w + count_ref old new))"

definition deadline_if_due_when_idle :: "'n all_timers \<Rightarrow> timespec option" where
  "deadline_if_due_when_idle a =
     (case reg_root a of
        None \<Rightarrow> None
      | Some r \<Rightarrow> (let first = a_data a r in if is_due_when_idle first then Some (next_at first) else None))"

text \<open>\<^verbatim>\<open>All::next\<close>: \<open>now\<close> is \<open>None\<close> until the clock is read.\<close>

definition drain_now :: "timespec \<Rightarrow> timespec option \<Rightarrow> 'n all_timers \<Rightarrow> timespec" where
  "drain_now clock now a =
     (case now of
        Some now \<Rightarrow> now
      | None \<Rightarrow>
          (case deadline_if_due_when_idle a of
             Some deadline \<Rightarrow> if ts_greater deadline clock then deadline else clock
           | None \<Rightarrow> clock))"

definition all_next ::
  "timespec \<Rightarrow> timespec option \<Rightarrow> 'n all_timers \<Rightarrow> ('n option \<times> timespec option \<times> 'n all_timers) option" where
  "all_next clock now a =
     (case reg_root a of
        None \<Rightarrow> Some (None, now, a)
      | Some timer \<Rightarrow>
          (let n = drain_now clock now a
           in if ts_greater (next_at (a_data a timer)) n then Some (None, Some n, a)
              else (case delete_min (timer_lt a) (reg_heap a) of
                      None \<Rightarrow> None
                    | Some (h, _) \<Rightarrow> Some (Some timer, Some n, put_reg h a))))"

section \<open>The invariant of all timers\<close>

text \<open>The three heaps are well formed in one store, no timer is in two of them, and the links of every other timer
  are reset.\<close>

definition linked :: "'n all_timers \<Rightarrow> 'n set \<Rightarrow> 'n set \<Rightarrow> 'n set \<Rightarrow> bool" where
  "linked a R F W \<longleftrightarrow> heap_set (reg_heap a) R \<and> heap_set (fake_heap a) F \<and> heap_set (wtf_heap a) W \<and>
     R \<inter> F = {} \<and> R \<inter> W = {} \<and> F \<inter> W = {} \<and> (\<forall>t. t \<notin> R \<longrightarrow> t \<notin> F \<longrightarrow> t \<notin> W \<longrightarrow> a_links a t = default_links)"

text \<open>What the fields of a timer say of where it is.\<close>

definition placed :: "('n \<Rightarrow> event_loop_timer) \<Rightarrow> 'n set \<Rightarrow> 'n set \<Rightarrow> 'n set \<Rightarrow> 'n \<Rightarrow> bool" where
  "placed d R F W t \<longleftrightarrow>
     (t_state (d t) = ACTIVE \<longleftrightarrow> t \<in> R \<or> t \<in> F \<or> t \<in> W) \<and>
     (t \<in> R \<longrightarrow> t_in_heap (d t) = InRegular) \<and> (t \<in> F \<longrightarrow> t_in_heap (d t) = InFake) \<and>
     (t \<in> R \<or> t \<in> F \<longrightarrow> t_tag (d t) \<noteq> WTFTimer) \<and> (t \<in> W \<longrightarrow> t_tag (d t) = WTFTimer)"

definition timers_ok :: "'n all_timers \<Rightarrow> 'n set \<Rightarrow> 'n set \<Rightarrow> 'n set \<Rightarrow> bool" where
  "timers_ok a R F W \<longleftrightarrow> linked a R F W \<and> (\<forall>t. placed (a_data a) R F W t)"

lemma heap_set_frame:
  assumes "heap_set h S" "\<forall>z\<in>S. st z = h_store h z"
  shows "heap_set \<lparr>h_root = h_root h, h_store = st\<rparr> S"
proof -
  obtain t where t: "heap_is h t" "set_tree t = S" using assms(1) by (auto simp: heap_set_def)
  have "rep st None t (h_root h) = rep (h_store h) None t (h_root h)"
    by (rule rep_frame) (use assms(2) t(2) in auto)
  then have "heap_is \<lparr>h_root = h_root h, h_store = st\<rparr> t" using t(1) by (simp add: heap_is_def)
  then show ?thesis using t(2) by (auto simp: heap_set_def)
qed

lemma heap_set_apart:
  assumes "heap_set h S" "untouched T g g'" "h_store g = h_store h" "S \<inter> T = {}"
  shows "heap_set \<lparr>h_root = h_root h, h_store = h_store g'\<rparr> S"
  by (rule heap_set_frame) (use assms in \<open>auto simp: untouched_def\<close>)

lemma reset_apart:
  "untouched (S \<union> S') g g' \<Longrightarrow> \<forall>t\<in>S - S'. h_store g' t = default_links \<Longrightarrow> t \<notin> S' \<Longrightarrow> (t \<notin> S \<Longrightarrow> h_store g t = default_links) \<Longrightarrow>
    h_store g' t = default_links"
  by (cases "t \<in> S") (auto simp: untouched_def)

lemma heap_eta [simp]: "\<lparr>h_root = h_root h, h_store = h_store h\<rparr> = h"
  by (cases h) simp

lemma linked_put_reg:
  assumes "linked a R F W" "heap_set h R'" "untouched (R \<union> R') (reg_heap a) h" "R' \<inter> F = {}" "R' \<inter> W = {}"
    and "\<forall>t\<in>R - R'. h_store h t = default_links"
  shows "linked (put_reg h a) R' F W"
proof -
  have "heap_set \<lparr>h_root = h_root (fake_heap a), h_store = h_store h\<rparr> F"
    "heap_set \<lparr>h_root = h_root (wtf_heap a), h_store = h_store h\<rparr> W"
    by (rule heap_set_apart [OF _ assms(3)]; use assms in \<open>auto simp: linked_def reg_heap_def fake_heap_def wtf_heap_def\<close>)+
  moreover have "h_store h t = default_links" if "t \<notin> R'" "t \<notin> F" "t \<notin> W" for t
    by (rule reset_apart [OF assms(3,6)]) (use assms(1) that in \<open>auto simp: linked_def reg_heap_def\<close>)
  ultimately show ?thesis
    using assms by (simp add: linked_def put_reg_def reg_heap_def fake_heap_def wtf_heap_def)
qed

lemma linked_put_fake:
  assumes "linked a R F W" "heap_set h F'" "untouched (F \<union> F') (fake_heap a) h" "R \<inter> F' = {}" "F' \<inter> W = {}"
    and "\<forall>t\<in>F - F'. h_store h t = default_links"
  shows "linked (put_fake h a) R F' W"
proof -
  have "heap_set \<lparr>h_root = h_root (reg_heap a), h_store = h_store h\<rparr> R"
    "heap_set \<lparr>h_root = h_root (wtf_heap a), h_store = h_store h\<rparr> W"
    by (rule heap_set_apart [OF _ assms(3)]; use assms in \<open>auto simp: linked_def reg_heap_def fake_heap_def wtf_heap_def\<close>)+
  moreover have "h_store h t = default_links" if "t \<notin> F'" "t \<notin> R" "t \<notin> W" for t
    by (rule reset_apart [OF assms(3,6)]) (use assms(1) that in \<open>auto simp: linked_def fake_heap_def\<close>)
  ultimately show ?thesis
    using assms by (simp add: linked_def put_fake_def reg_heap_def fake_heap_def wtf_heap_def)
qed

lemma linked_put_wtf:
  assumes "linked a R F W" "heap_set h W'" "untouched (W \<union> W') (wtf_heap a) h" "R \<inter> W' = {}" "F \<inter> W' = {}"
    and "\<forall>t\<in>W - W'. h_store h t = default_links"
  shows "linked (put_wtf h a) R F W'"
proof -
  have "heap_set \<lparr>h_root = h_root (reg_heap a), h_store = h_store h\<rparr> R"
    "heap_set \<lparr>h_root = h_root (fake_heap a), h_store = h_store h\<rparr> F"
    by (rule heap_set_apart [OF _ assms(3)]; use assms in \<open>auto simp: linked_def reg_heap_def fake_heap_def wtf_heap_def\<close>)+
  moreover have "h_store h t = default_links" if "t \<notin> W'" "t \<notin> R" "t \<notin> F" for t
    by (rule reset_apart [OF assms(3,6)]) (use assms(1) that in \<open>auto simp: linked_def wtf_heap_def\<close>)
  ultimately show ?thesis
    using assms by (simp add: linked_def put_wtf_def reg_heap_def fake_heap_def wtf_heap_def)
qed

lemma linked_cong:
  "reg_root b = reg_root a \<Longrightarrow> fake_root b = fake_root a \<Longrightarrow> wtf_root b = wtf_root a \<Longrightarrow> a_links b = a_links a \<Longrightarrow>
    linked b R F W = linked a R F W"
  by (simp add: linked_def reg_heap_def fake_heap_def wtf_heap_def)

lemma update_timer_simps [simp]:
  "reg_root (update_timer t f a) = reg_root a" "fake_root (update_timer t f a) = fake_root a"
  "wtf_root (update_timer t f a) = wtf_root a" "a_links (update_timer t f a) = a_links a"
  "a_data (update_timer t f a) = (a_data a)(t := f (a_data a t))"
  by (simp_all add: update_timer_def)

lemma linked_update [simp]: "linked (update_timer t f a) R F W = linked a R F W"
  by (rule linked_cong) simp_all

lemma put_data [simp]: "a_data (put_reg h a) = a_data a" "a_data (put_fake h a) = a_data a" "a_data (put_wtf h a) = a_data a"
  by (simp_all add: put_reg_def put_fake_def put_wtf_def)

lemma post_auto_step_simps [simp]:
  "a_data (post_auto_step a) = a_data a" "linked (post_auto_step a) R F W = linked a R F W"
  by (simp add: post_auto_step_def, rule linked_cong) (simp_all add: post_auto_step_def)

definition bumped :: "'n \<Rightarrow> 'n all_timers \<Rightarrow> event_loop_timer" where
  "bumped t a = a_data (bump_epoch t a) t"

lemma bump_epoch_simps [simp]:
  "linked (bump_epoch t a) R F W = linked a R F W" "a_data (bump_epoch t a) = (a_data a)(t := bumped t a)"
  "t_tag (bumped t a) = t_tag (a_data a t)" "t_state (bumped t a) = t_state (a_data a t)"
  "next_at (bumped t a) = next_at (a_data a t)" "a_fake (bump_epoch t a) = a_fake a"
proof -
  show "linked (bump_epoch t a) R F W = linked a R F W"
    by (rule linked_cong) (simp_all add: bump_epoch_def Let_def split: option.split)
qed (simp_all add: bumped_def bump_epoch_def Let_def update_timer_def split: option.split)

lemma goes_fake_bump [simp]: "goes_fake t (bump_epoch t a) = goes_fake t a"
proof -
  have "flags_fake (set_epoch e f) = flags_fake f" for e f
    by (simp only: flags_fake_def fake_mask_def bit_and_mask set_epoch_bits) simp
  then show ?thesis
    by (auto simp: goes_fake_def Let_def js_timer_flags_def bumped_def bump_epoch_def update_timer_def split: option.split)
qed

lemma all_insert_ok:
  assumes "linked a R F W" "\<forall>u. u \<noteq> t \<longrightarrow> placed (a_data a) R F W u" "t \<notin> R" "t \<notin> F" "t \<notin> W" "t_tag (a_data a t) \<noteq> WTFTimer"
  shows "timers_ok (all_insert t a) (if goes_fake t a then R else insert t R) (if goes_fake t a then insert t F else F) W"
proof -
  let ?b = "bump_epoch t a"
  have b: "linked ?b R F W" "a_links ?b t = default_links" "h_store (reg_heap ?b) t = default_links"
    "h_store (fake_heap ?b) t = default_links"
    using assms bump_epoch_simps(1) [of t a R F W] by (auto simp: linked_def reg_heap_def fake_heap_def)
  have r: "linked (put_reg (heap_insert (timer_lt ?b) t (reg_heap ?b)) ?b) (insert t R) F W"
    by (rule linked_put_reg [OF b(1)])
      (use insert_set [of "reg_heap ?b" R t "timer_lt ?b"] b assms(3-5) in \<open>auto simp: linked_def insert_absorb Un_absorb1\<close>)
  have f: "linked (put_fake (heap_insert (timer_lt ?b) t (fake_heap ?b)) ?b) R (insert t F) W"
    by (rule linked_put_fake [OF b(1)])
      (use insert_set [of "fake_heap ?b" F t "timer_lt ?b"] b assms(3-5) in \<open>auto simp: linked_def insert_absorb Un_absorb1\<close>)
  show ?thesis
    using r f assms(2-) by (auto simp: timers_ok_def all_insert_def Let_def placed_def)
qed

lemma all_remove_ok:
  assumes "timers_ok a R F W" "t \<in> R \<or> t \<in> F"
  shows "\<exists>b. all_remove t a = Some b \<and> timers_ok b (R - {t}) (F - {t}) W \<and>
    a_data b = (a_data a)(t := (a_data a t)\<lparr>t_in_heap := InNone, t_state := CANCELLED\<rparr>)"
proof -
  have l: "linked a R F W" and p: "\<forall>u. placed (a_data a) R F W u" using assms(1) by (auto simp: timers_ok_def)
  have d: "R \<inter> F = {}" "R \<inter> W = {}" "F \<inter> W = {}" using l by (auto simp: linked_def)
  show ?thesis
  proof (cases "t \<in> R")
    case True
    then obtain h where h: "heap_remove (timer_lt a) t (reg_heap a) = Some h" "heap_set h (R - {t})" "h_store h t = default_links"
      "untouched R (reg_heap a) h" using remove_set [of "reg_heap a" R t "timer_lt a"] l by (auto simp: linked_def)
    have "linked (put_reg h a) (R - {t}) F W"
      by (rule linked_put_reg [OF l h(2)]) (use h d in \<open>auto simp: Un_absorb2\<close>)
    moreover have "t_in_heap (a_data a t) = InRegular" using p True by (auto simp: placed_def)
    moreover have "F - {t} = F" using d True by auto
    ultimately show ?thesis using h(1) p d True by (auto simp: all_remove_def timers_ok_def placed_def)
  next
    case False
    then have tF: "t \<in> F" using assms(2) by simp
    then obtain h where h: "heap_remove (timer_lt a) t (fake_heap a) = Some h" "heap_set h (F - {t})" "h_store h t = default_links"
      "untouched F (fake_heap a) h" using remove_set [of "fake_heap a" F t "timer_lt a"] l by (auto simp: linked_def)
    have "linked (put_fake h a) R (F - {t}) W"
      by (rule linked_put_fake [OF l h(2)]) (use h d in \<open>auto simp: Un_absorb2\<close>)
    moreover have "t_in_heap (a_data a t) = InFake" using p tF by (auto simp: placed_def)
    moreover have "R - {t} = R" using False by auto
    ultimately show ?thesis using h(1) p d tF False by (auto simp: all_remove_def timers_ok_def placed_def)
  qed
qed

lemma all_insert_data: "a_data (all_insert t a) t = (bumped t a)\<lparr>t_state := ACTIVE, t_in_heap := (if goes_fake t a then InFake else InRegular)\<rparr>"
  "u \<noteq> t \<Longrightarrow> a_data (all_insert t a) u = a_data a u"
  by (simp_all add: all_insert_def Let_def)

lemma goes_fake_next_at [simp]: "goes_fake t (update_timer t (\<lambda>t. t\<lparr>next_at := x\<rparr>) a) = goes_fake t a"
  by (simp add: goes_fake_def Let_def js_timer_flags_def update_timer_def)

lemma goes_fake_cong: "t_tag (a_data b t) = t_tag (a_data a t) \<Longrightarrow> container_flags (a_data b t) = container_flags (a_data a t) \<Longrightarrow>
    a_fake b = a_fake a \<Longrightarrow> goes_fake t b = goes_fake t a"
  by (simp add: goes_fake_def Let_def js_timer_flags_def)

lemma all_remove_fake: "all_remove t a = Some b \<Longrightarrow> a_fake b = a_fake a"
  by (auto simp: all_remove_def update_timer_def put_reg_def put_fake_def split: in_heap.splits option.splits)

lemma all_update_ok:
  assumes "timers_ok a R F W" "t \<notin> W" "t_tag (a_data a t) \<noteq> WTFTimer"
  shows "\<exists>b. all_update t time a = Some b \<and> next_at (a_data b t) = time \<and>
    timers_ok b (if goes_fake t a then R - {t} else insert t R) (if goes_fake t a then insert t F else F - {t}) W"
proof -
  let ?set = "update_timer t (\<lambda>t. t\<lparr>next_at := time\<rparr>)"
  have p: "\<forall>u. placed (a_data a) R F W u" using assms(1) by (auto simp: timers_ok_def)
  obtain b where b: "(if t_state (a_data a t) = ACTIVE then all_remove t a else Some a) = Some b"
    "linked b (R - {t}) (F - {t}) W" "\<forall>u. u \<noteq> t \<longrightarrow> placed (a_data b) (R - {t}) (F - {t}) W u"
    "t_tag (a_data b t) = t_tag (a_data a t)" "goes_fake t b = goes_fake t a"
  proof (cases "t_state (a_data a t) = ACTIVE")
    case True
    then have "t \<in> R \<or> t \<in> F" using p assms(2) by (auto simp: placed_def)
    then obtain b where b: "all_remove t a = Some b" "timers_ok b (R - {t}) (F - {t}) W"
      "a_data b = (a_data a)(t := (a_data a t)\<lparr>t_in_heap := InNone, t_state := CANCELLED\<rparr>)"
      using all_remove_ok [OF assms(1)] by blast
    have "goes_fake t b = goes_fake t a" by (rule goes_fake_cong) (use b(3) all_remove_fake [OF b(1)] in simp_all)
    then show ?thesis using that [of b] b True by (simp add: timers_ok_def)
  next
    case False
    then have "R - {t} = R" "F - {t} = F" using p by (auto simp: placed_def)
    then show ?thesis using that [of a] False assms(1) by (simp add: timers_ok_def)
  qed
  have "timers_ok (all_insert t (?set b)) (if goes_fake t (?set b) then R - {t} else insert t (R - {t}))
      (if goes_fake t (?set b) then insert t (F - {t}) else F - {t}) W"
    by (rule all_insert_ok) (use b(2-4) assms(2,3) in \<open>simp_all add: placed_def\<close>)
  then show ?thesis using b(1,5) by (simp add: all_update_def all_insert_data split: if_splits)
qed

lemma wtf_remove_ok:
  assumes "timers_ok a R F W" "t \<in> W"
  shows "\<exists>h. heap_remove (timer_lt a) t (wtf_heap a) = Some h \<and> linked (put_wtf h a) R F (W - {t})"
proof -
  have l: "linked a R F W" using assms(1) by (simp add: timers_ok_def)
  then obtain h where h: "heap_remove (timer_lt a) t (wtf_heap a) = Some h" "heap_set h (W - {t})" "h_store h t = default_links"
    "untouched W (wtf_heap a) h" using remove_set [of "wtf_heap a" W t "timer_lt a"] assms(2) by (auto simp: linked_def)
  have "linked (put_wtf h a) R F (W - {t})"
    by (rule linked_put_wtf [OF l h(2)]) (use h l in \<open>auto simp: Un_absorb2 linked_def\<close>)
  then show ?thesis using h(1) by blast
qed

lemma wtf_disarm_ok:
  assumes "timers_ok a R F W" "t_tag (a_data a t) = WTFTimer"
  shows "\<exists>b. wtf_disarm t a = Some b \<and> timers_ok b R F (W - {t})"
proof (cases "t \<in> W")
  case True
  then obtain h where "heap_remove (timer_lt a) t (wtf_heap a) = Some h" "linked (put_wtf h a) R F (W - {t})"
    using wtf_remove_ok [OF assms(1)] by blast
  then show ?thesis using assms True by (auto simp: wtf_disarm_def timers_ok_def placed_def)
next
  case False
  then have "t_state (a_data a t) \<noteq> ACTIVE" "W - {t} = W" using assms by (auto simp: timers_ok_def placed_def)
  then show ?thesis using assms by (simp add: wtf_disarm_def)
qed

lemma wtf_arm_ok:
  assumes "timers_ok a R F W" "t_tag (a_data a t) = WTFTimer"
  shows "\<exists>b. wtf_arm t time a = Some b \<and> timers_ok b R F (insert t W) \<and> next_at (a_data b t) = time"
proof -
  let ?set = "update_timer t (\<lambda>t. t\<lparr>next_at := time\<rparr>)"
  have p: "\<forall>u. placed (a_data a) R F W u" using assms(1) by (simp add: timers_ok_def)
  obtain b where b: "(if t_state (a_data a t) = ACTIVE
        then map_option (\<lambda>h. put_wtf h a) (heap_remove (timer_lt a) t (wtf_heap a)) else Some a) = Some b"
    "linked b R F (W - {t})" "a_data b = a_data a"
  proof (cases "t \<in> W")
    case True
    then have "t_state (a_data a t) = ACTIVE" using p by (simp add: placed_def)
    then show ?thesis using wtf_remove_ok [OF assms(1) True] that by auto
  next
    case False
    then have "t_state (a_data a t) \<noteq> ACTIVE" "W - {t} = W" using p assms(2) by (auto simp: placed_def)
    then show ?thesis using that [of a] assms(1) by (simp add: timers_ok_def)
  qed
  have out: "t \<notin> R" "t \<notin> F" using p assms(2) by (auto simp: placed_def)
  have l: "linked (?set b) R F (W - {t})" using b(2) by simp
  then have h: "heap_set (wtf_heap (?set b)) (W - {t})" "h_store (wtf_heap (?set b)) t = default_links"
    using out by (auto simp: linked_def wtf_heap_def)
  have "linked (put_wtf (heap_insert (timer_lt (?set b)) t (wtf_heap (?set b))) (?set b)) R F (insert t W)"
    by (rule linked_put_wtf [OF l])
      (use insert_set [OF h(1) _ h(2), of "timer_lt (?set b)"] out l in \<open>auto simp: linked_def untouched_def\<close>)
  then show ?thesis using b(1,3) p assms(2) out by (auto simp: wtf_arm_def Let_def timers_ok_def placed_def)
qed

lemma all_next_ok:
  assumes "timers_ok a R F W"
  shows "\<exists>r n b. all_next clock now a = Some (r, n, b) \<and>
    (case r of None \<Rightarrow> b = a
     | Some t \<Rightarrow> reg_root a = Some t \<and> t \<in> R \<and> n = Some (drain_now clock now a) \<and> linked b (R - {t}) F W \<and> a_data b = a_data a)"
proof (cases "reg_root a")
  case None
  then show ?thesis by (simp add: all_next_def)
next
  case (Some t)
  have l: "linked a R F W" using assms by (simp add: timers_ok_def)
  obtain h where h: "delete_min (timer_lt a) (reg_heap a) = Some (h, Some t)" "t \<in> R" "heap_set h (R - {t})"
    "h_store h t = default_links" "untouched R (reg_heap a) h"
    using delete_min_set [of "reg_heap a" R "timer_lt a"] l Some by (auto simp: linked_def peek_def reg_heap_def)
  have "linked (put_reg h a) (R - {t}) F W"
    by (rule linked_put_reg [OF l h(3)]) (use h l in \<open>auto simp: Un_absorb2 linked_def\<close>)
  then show ?thesis using Some h by (simp add: all_next_def Let_def)
qed

definition fired :: "'n \<Rightarrow> 'n all_timers \<Rightarrow> 'n all_timers" where
  "fired t a = update_timer t (\<lambda>t. t\<lparr>t_state := FIRED\<rparr>) a"

lemma all_next_fired:
  assumes "timers_ok a R F W" "all_next clock now a = Some (Some t, n, b)"
  shows "t \<in> R \<and> timers_ok (fired t b) (R - {t}) F W"
proof -
  have "t \<in> R" "linked b (R - {t}) F W" "a_data b = a_data a" using all_next_ok [OF assms(1), of clock now] assms(2) by auto
  moreover have "R \<inter> F = {}" "R \<inter> W = {}" using assms(1) by (auto simp: timers_ok_def linked_def)
  ultimately show ?thesis using assms(1) by (auto simp: timers_ok_def fired_def placed_def)
qed

text \<open>Each operation returns and keeps the three heaps well formed over one store of links and disjoint, with the fields of
  each timer naming the heap it is in. A timer that \<^verbatim>\<open>next\<close> hands out is \<^verbatim>\<open>ACTIVE\<close> and in no heap until its handler
  sets it to \<^verbatim>\<open>FIRED\<close>.\<close>

lemma timers_ops_ok:
  assumes "timers_ok a R F W"
  shows "(t \<notin> R \<union> F \<union> W \<and> t_tag (a_data a t) \<noteq> WTFTimer \<longrightarrow>
      timers_ok (all_insert t a) (if goes_fake t a then R else insert t R) (if goes_fake t a then insert t F else F) W) \<and>
    (t \<in> R \<union> F \<longrightarrow> (\<exists>b. all_remove t a = Some b \<and> timers_ok b (R - {t}) (F - {t}) W)) \<and>
    (t_tag (a_data a t) \<noteq> WTFTimer \<longrightarrow> (\<exists>b. all_update t time a = Some b \<and> next_at (a_data b t) = time \<and>
      timers_ok b (if goes_fake t a then R - {t} else insert t R) (if goes_fake t a then insert t F else F - {t}) W)) \<and>
    (t_tag (a_data a t) = WTFTimer \<longrightarrow> (\<exists>b. wtf_arm t time a = Some b \<and> next_at (a_data b t) = time \<and> timers_ok b R F (insert t W)) \<and>
      (\<exists>b. wtf_disarm t a = Some b \<and> timers_ok b R F (W - {t}))) \<and>
    (\<exists>r n b. all_next clock now a = Some (r, n, b) \<and>
      (case r of None \<Rightarrow> b = a | Some u \<Rightarrow> u \<in> R \<and> timers_ok (fired u b) (R - {u}) F W))"
proof (intro conjI impI)
  have l: "linked a R F W" "\<forall>u. placed (a_data a) R F W u" using assms by (auto simp: timers_ok_def)
  show "timers_ok (all_insert t a) (if goes_fake t a then R else insert t R) (if goes_fake t a then insert t F else F) W"
    if "t \<notin> R \<union> F \<union> W \<and> t_tag (a_data a t) \<noteq> WTFTimer"
    by (rule all_insert_ok) (use l that in auto)
  show "\<exists>b. all_remove t a = Some b \<and> timers_ok b (R - {t}) (F - {t}) W" if "t \<in> R \<union> F"
    using all_remove_ok [OF assms] that by blast
  have "t \<notin> W" if "t_tag (a_data a t) \<noteq> WTFTimer" using l(2) that by (auto simp: placed_def)
  then show "\<exists>b. all_update t time a = Some b \<and> next_at (a_data b t) = time \<and>
      timers_ok b (if goes_fake t a then R - {t} else insert t R) (if goes_fake t a then insert t F else F - {t}) W"
    if "t_tag (a_data a t) \<noteq> WTFTimer" using all_update_ok [OF assms] that by blast
  obtain r n b where n: "all_next clock now a = Some (r, n, b)" "r = None \<Longrightarrow> b = a"
    using all_next_ok [OF assms, of clock now] by (elim exE conjE) (auto split: option.splits)
  show "\<exists>r n b. all_next clock now a = Some (r, n, b) \<and>
      (case r of None \<Rightarrow> b = a | Some u \<Rightarrow> u \<in> R \<and> timers_ok (fired u b) (R - {u}) F W)"
    using n all_next_fired [OF assms] by (cases r) auto
qed (use wtf_arm_ok [OF assms] wtf_disarm_ok [OF assms] in blast)+

section \<open>Order of insertion\<close>

definition reg_ordered :: "'n all_timers \<Rightarrow> 'n set \<Rightarrow> bool" where
  "reg_ordered a R \<longleftrightarrow> heap_inv (timer_lt a) (reg_heap a) R"

lemma bump_epoch_links [simp]: "reg_root (bump_epoch t a) = reg_root a" "a_links (bump_epoch t a) = a_links a"
  by (simp_all add: bump_epoch_def Let_def split: option.split)

lemma reg_heap_bump [simp]: "reg_heap (bump_epoch t a) = reg_heap a"
  by (simp add: reg_heap_def)

lemma all_insert_ordered:
  assumes "reg_ordered a R" "t \<notin> R" "a_links a t = default_links" "\<not> goes_fake t a"
    and "orders (timer_lt (bump_epoch t a)) (insert t R)"
  shows "reg_ordered (all_insert t a) (insert t R)"
proof -
  let ?b = "bump_epoch t a" and ?h = "heap_insert (timer_lt (bump_epoch t a)) t (reg_heap a)"
  have "heap_inv (timer_lt ?b) (reg_heap a) R = heap_inv (timer_lt a) (reg_heap a) R"
    by (rule heap_inv_cong) (use assms(2) in \<open>auto simp: timer_lt_def\<close>)
  then have "heap_inv (timer_lt ?b) ?h (insert t R)"
    using assms by (intro insert_inv) (simp_all add: reg_ordered_def reg_heap_def)
  moreover have "timer_lt (all_insert t a) = timer_lt ?b"
    using assms(4) by (intro ext) (simp add: timer_lt_def all_insert_def Let_def)
  moreover have "reg_heap (all_insert t a) = ?h"
    using assms(4) by (simp add: all_insert_def Let_def reg_heap_def put_reg_def update_timer_def)
  ultimately show ?thesis by (simp add: reg_ordered_def)
qed

section \<open>The references on the loop\<close>

text \<open>The loop holds one reference while there are active timers and one while there are immediates.\<close>

definition loop_refs :: "'n all_timers \<times> int \<Rightarrow> int" where
  "loop_refs w = of_bool (0 < sint (active_timer_count (fst w))) + of_bool (0 < sint (immediate_ref_count (fst w)))"

lemma increments_balance:
  "snd (increment_timer_ref d w) - loop_refs (increment_timer_ref d w) = snd w - loop_refs w"
  "snd (increment_immediate_ref d w) - loop_refs (increment_immediate_ref d w) = snd w - loop_refs w"
  by (auto simp: increment_timer_ref_def increment_immediate_ref_def loop_refs_def count_ref_def Let_def)

section \<open>Examples\<close>

definition fake_default :: fake_state where
  "fake_default = \<lparr>faked = 0, fakes_abort_signal_timeout = False, tick_mode = Manual, auto_step_posted = False, drives = 0, ticks = 0\<rparr>"

definition all_init :: "('n \<Rightarrow> event_loop_timer) \<Rightarrow> 'n all_timers" where
  "all_init d = \<lparr>reg_root = None, fake_root = None, wtf_root = None, a_links = (\<lambda>_. default_links), a_data = d, a_epoch = 0,
     a_fake = fake_default, active_timer_count = 0, immediate_ref_count = 0, last_timer_id = 1\<rparr>"

lemma all_init_ok: "\<forall>t. t_state (d t) \<noteq> ACTIVE \<Longrightarrow> timers_ok (all_init d) {} {} {}"
  using heap_default_set [of "\<lambda>_. default_links"]
  by (simp add: timers_ok_def linked_def placed_def all_init_def reg_heap_def fake_heap_def wtf_heap_def heap_default_def)

text \<open>Timeouts 1 and 2 after two and one milliseconds.\<close>

definition sample_data :: "nat \<Rightarrow> event_loop_timer" where
  "sample_data = ((\<lambda>_. at_ms TimeoutObject 2)(2 := at_ms TimeoutObject 1))"

definition sample_one :: "nat all_timers" where
  "sample_one = all_insert 1 (all_init sample_data)"

definition sample_timers :: "nat all_timers" where
  "sample_timers = all_insert 2 sample_one"

lemma sample_one_ok: "timers_ok sample_one {1} {} {}"
proof -
  have "timers_ok (all_init sample_data) {} {} {}" by (rule all_init_ok) (simp add: sample_data_def at_ms_def init_paused_def)
  moreover have "\<not> goes_fake 1 (all_init sample_data)" "t_tag (a_data (all_init sample_data) 1) \<noteq> WTFTimer" by code_simp+
  ultimately show ?thesis
    using all_insert_ok [of "all_init sample_data" "{}" "{}" "{}" 1] by (simp add: sample_one_def timers_ok_def)
qed

lemma sample_two: "\<not> goes_fake 2 sample_one" "t_tag (a_data sample_one 2) \<noteq> WTFTimer"
  by code_simp+

lemma sample_timers_ok: "timers_ok sample_timers {1, 2} {} {}"
  using all_insert_ok [of sample_one "{1}" "{}" "{}" 2] sample_one_ok sample_two
  by (simp add: sample_timers_def timers_ok_def insert_commute)

lemma sample_ordered: "reg_ordered sample_timers {1, 2}"
proof -
  have i: "reg_ordered (all_init sample_data) {}"
    by (simp add: reg_ordered_def reg_heap_def all_init_def heap_inv_def heap_is_def orders_def)
  have "\<not> goes_fake 1 (all_init sample_data)" by code_simp
  then have o: "reg_ordered sample_one {1}" unfolding sample_one_def
    by (intro all_insert_ordered [OF i]) (simp_all add: all_init_def orders_single)
  have "a_links sample_one 2 = default_links" using sample_one_ok by (simp add: timers_ok_def linked_def)
  moreover have "\<not> timer_lt (bump_epoch 2 sample_one) 1 2" by code_simp
  ultimately have "reg_ordered (all_insert 2 sample_one) (insert 2 {1})"
    using sample_two(1) by (intro all_insert_ordered [OF o] orders_pair) simp_all
  then show ?thesis by (simp add: sample_timers_def insert_commute)
qed

end
