(* ===== verification/Timer_Drain.thy ===== *)
theory Timer_Drain
  imports Timers
begin

text \<open>Running timers: \<^verbatim>\<open>drain_timers\<close>, \<^verbatim>\<open>get_timeout\<close> and the teardown of \<^verbatim>\<open>src/runtime/timer/mod.rs\<close>. The handlers are a
  parameter, which may change all timers and the rest of the program. The lemmas show that a drain returns and what
  it fires, how long the event loop may sleep, and what the teardown leaves.\<close>

unbundle bit_operations_syntax

section \<open>Running timers\<close>

text \<open>\<open>fire\<close> is \<^verbatim>\<open>EventLoopTimer::fire\<close> folded by \<^verbatim>\<open>fold_timer\<close>: it may do anything to the timers and to the
  rest \<open>'s\<close> of the program, and its answer is whether the drain goes on. \<open>clock\<close> is what the clock
  reads; a loop reads it at most once.\<close>

type_synonym ('n, 's) fire = "'n \<Rightarrow> timespec \<Rightarrow> 'n all_timers \<times> 's \<Rightarrow> bool \<times> 'n all_timers \<times> 's"

partial_function (option) drain_due_wtf_timers ::
  "('n, 's) fire \<Rightarrow> timespec \<Rightarrow> timespec option \<Rightarrow> 'n all_timers \<times> 's \<Rightarrow>
    (timespec option \<times> timespec option \<times> 'n all_timers \<times> 's) option" where
  "drain_due_wtf_timers fire clock maybe_now w =
     (case wtf_root (fst w) of
        None \<Rightarrow> Some (None, maybe_now, w)
      | Some least \<Rightarrow>
          (let a = fst w;
               min_next = next_at (a_data a least);
               now = (case maybe_now of None \<Rightarrow> clock | Some now \<Rightarrow> now)
           in if ts_greater min_next now then Some (Some min_next, Some now, w)
              else (case delete_min (timer_lt a) (wtf_heap a) of
                      None \<Rightarrow> None
                    | Some (h, _) \<Rightarrow>
                        (case fire least now (update_timer least (\<lambda>t. t\<lparr>t_state := FIRED\<rparr>) (put_wtf h a), snd w) of
                           (_, w) \<Rightarrow> drain_due_wtf_timers fire clock (Some now) w))))"

definition soonest :: "timespec option \<Rightarrow> timespec option \<Rightarrow> timespec option" where
  "soonest x y =
     (case (x, y) of
        (Some a, Some b) \<Rightarrow> Some (if ts_greater a b then b else a)
      | (None, y) \<Rightarrow> y
      | (x, None) \<Rightarrow> x)"

definition us_to_ts :: "i64 \<Rightarrow> timespec" where
  "us_to_ts us = \<lparr>sec = word_of_int (sint us sdiv 1000000), nsec = word_of_int (sint us smod 1000000) * 1000\<rparr>"

definition clamp_to_quic :: "timespec \<Rightarrow> i64 \<Rightarrow> timespec" where
  "clamp_to_quic spec us =
     (let cur_us = sec spec * 1000000 + word_of_int (sint (nsec spec) sdiv 1000)
      in if sint us < sint cur_us then us_to_ts us else spec)"

text \<open>\<^verbatim>\<open>get_timeout\<close>, on Unix; no timeout is the answer \<^verbatim>\<open>false\<close>.\<close>

definition get_timeout ::
  "('n, 's) fire \<Rightarrow> timespec \<Rightarrow> bool \<Rightarrow> i64 option \<Rightarrow> timespec option \<Rightarrow> 'n all_timers \<times> 's \<Rightarrow>
    (timespec option \<times> timespec option \<times> 'n all_timers \<times> 's) option" where
  "get_timeout fire clock has_pending_immediate quic_next_tick_us now_out w =
     (if has_pending_immediate then Some (Some epoch_ts, now_out, w)
      else (case drain_due_wtf_timers fire clock now_out w of
              None \<Rightarrow> None
            | Some (wtf_next, maybe_now, w) \<Rightarrow>
                (let reg_next = map_option (\<lambda>least. next_at (a_data (fst w) least)) (reg_root (fst w))
                 in case soonest wtf_next reg_next of
                      None \<Rightarrow>
                        (case quic_next_tick_us of
                           Some us \<Rightarrow> if sint us \<ge> 0 then Some (Some (us_to_ts us), maybe_now, w) else Some (None, maybe_now, w)
                         | None \<Rightarrow> Some (None, maybe_now, w))
                    | Some next \<Rightarrow>
                        (let now = (case maybe_now of None \<Rightarrow> clock | Some now \<Rightarrow> now);
                             spec = (if ts_greater next now \<and> deadline_if_due_when_idle (fst w) = None then
                                 (let spec = ts_duration next now
                                  in case quic_next_tick_us of
                                       Some us \<Rightarrow> if sint us \<ge> 0 then clamp_to_quic spec us else spec
                                     | None \<Rightarrow> spec)
                               else epoch_ts)
                         in Some (Some spec, Some now, w)))))"

partial_function (option) drain_loop ::
  "('n, 's) fire \<Rightarrow> timespec \<Rightarrow> timespec option \<Rightarrow> 'n all_timers \<times> 's \<Rightarrow> ('n all_timers \<times> 's) option" where
  "drain_loop fire clock now w =
     (case all_next clock now (fst w) of
        None \<Rightarrow> None
      | Some (None, now, a) \<Rightarrow> Some (a, snd w)
      | Some (Some t, now, a) \<Rightarrow>
          (case fire t (the now) (a, snd w) of
             (go_on, w) \<Rightarrow> if go_on then drain_loop fire clock now w else Some w))"

definition drain_timers ::
  "('n, 's) fire \<Rightarrow> timespec \<Rightarrow> timespec \<Rightarrow> 'n all_timers \<times> 's \<Rightarrow> ('n all_timers \<times> 's) option" where
  "drain_timers fire wtf_clock clock w =
     (case drain_due_wtf_timers fire wtf_clock None w of
        None \<Rightarrow> None
      | Some (_, _, w) \<Rightarrow> drain_loop fire clock None w)"

section \<open>Walks with a stack\<close>

partial_function (option) has_program_timer_loop :: "'n all_timers \<Rightarrow> 'n option list \<Rightarrow> bool option" where
  "has_program_timer_loop a stack =
     (case stack of
        [] \<Rightarrow> Some False
      | None # stack \<Rightarrow> has_program_timer_loop a stack
      | Some node # stack \<Rightarrow>
          if \<not> is_housekeeping (t_tag (a_data a node)) then Some True
          else has_program_timer_loop a (link_next (a_links a node) # link_child (a_links a node) # stack))"

definition has_program_timer :: "'n all_timers \<Rightarrow> 'n option \<Rightarrow> bool option" where
  "has_program_timer a root = has_program_timer_loop a [root]"

partial_function (option) first_immediate_loop :: "'n all_timers \<Rightarrow> 'n option \<Rightarrow> 'n option list \<Rightarrow> 'n option option" where
  "first_immediate_loop a first stack =
     (case stack of
        [] \<Rightarrow> Some first
      | None # stack \<Rightarrow> first_immediate_loop a first stack
      | Some node # stack \<Rightarrow>
          (let first' = (if t_tag (a_data a node) = ImmediateObject \<and>
                   (case first of None \<Rightarrow> True | Some f \<Rightarrow> timer_less (a_data a node) (a_data a f)) then Some node else first)
           in first_immediate_loop a first' (link_next (a_links a node) # link_child (a_links a node) # stack)))"

definition first_immediate :: "'n all_timers \<Rightarrow> 'n option \<Rightarrow> 'n option option" where
  "first_immediate a root = first_immediate_loop a None [root]"

partial_function (option) collect_loop :: "'n store \<Rightarrow> 'n list \<Rightarrow> 'n list \<Rightarrow> 'n list option" where
  "collect_loop st found stack =
     (case stack of
        [] \<Rightarrow> Some found
      | node # stack \<Rightarrow>
          (let stack = (case link_child (st node) of None \<Rightarrow> stack | Some c \<Rightarrow> c # stack);
               stack = (case link_next (st node) of None \<Rightarrow> stack | Some n \<Rightarrow> n # stack)
           in collect_loop st (found @ [node]) stack))"

fun remove_all :: "'n list \<Rightarrow> 'n all_timers \<Rightarrow> 'n all_timers option" where
  "remove_all [] a = Some a"
| "remove_all (node # rest) a = (case all_remove node a of None \<Rightarrow> None | Some a \<Rightarrow> remove_all rest a)"

definition disarm_all_for_vm_teardown :: "'n all_timers \<Rightarrow> 'n all_timers option" where
  "disarm_all_for_vm_teardown a =
     (let push = (\<lambda>root stack. case root of None \<Rightarrow> stack | Some r \<Rightarrow> r # stack)
      in case collect_loop (a_links a) [] (push (fake_root a) (push (reg_root a) [])) of
           None \<Rightarrow> None
         | Some found \<Rightarrow> remove_all found a)"

section \<open>Draining\<close>

definition due :: "timespec \<Rightarrow> 'n all_timers \<Rightarrow> 'n \<Rightarrow> bool" where
  "due now a t \<longleftrightarrow> \<not> ts_greater (next_at (a_data a t)) now"

text \<open>What a handler that is called for a timer out of the heaps has to do: leave the timers in order, and make no
  other timer due by \<open>now\<close>. It may cancel timers, and arm any timer again for later.\<close>

definition handler_ok :: "('n, 's) fire \<Rightarrow> timespec \<Rightarrow> bool" where
  "handler_ok fire now \<longleftrightarrow>
     (\<forall>t a s R F W. timers_ok (fired t a) R F W \<and> t \<notin> R \<and> t \<notin> F \<and> t \<notin> W \<longrightarrow>
        (case fire t now (a, s) of (_, b, _) \<Rightarrow>
           \<exists>R' F' W'. timers_ok b R' F' W' \<and> (\<forall>u\<in>R'. due now b u \<longrightarrow> u \<in> R \<and> due now a u) \<and>
             (\<forall>u\<in>W'. due now b u \<longrightarrow> u \<in> W \<and> due now a u)))"

lemma fired_idem [simp]: "fired t (fired t a) = fired t a"
  by (simp add: fired_def update_timer_def)

lemma fired_simps [simp]: "linked (fired t a) R F W = linked a R F W" "due now (fired t a) u = due now a u"
  "reg_root (fired t a) = reg_root a" "reg_heap (fired t a) = reg_heap a" "wtf_heap (fired t a) = wtf_heap a"
  by (simp_all add: fired_def due_def reg_heap_def wtf_heap_def)

lemma timers_finite: "timers_ok a R F W \<Longrightarrow> finite R \<and> finite F \<and> finite W"
  by (auto simp: timers_ok_def linked_def dest: heap_set_finite)

lemma handler_okD:
  assumes "handler_ok fire now" "timers_ok (fired t a) R F W" "t \<notin> R" "t \<notin> F" "t \<notin> W" "fire t now (a, s) = (g, b, s')"
  shows "\<exists>R' F' W'. timers_ok b R' F' W' \<and> (\<forall>u\<in>R'. due now b u \<longrightarrow> u \<in> R \<and> due now a u) \<and>
    (\<forall>u\<in>W'. due now b u \<longrightarrow> u \<in> W \<and> due now a u)"
proof -
  have "case fire t now (a, s) of (_, b, _) \<Rightarrow>
      \<exists>R' F' W'. timers_ok b R' F' W' \<and> (\<forall>u\<in>R'. due now b u \<longrightarrow> u \<in> R \<and> due now a u) \<and>
        (\<forall>u\<in>W'. due now b u \<longrightarrow> u \<in> W \<and> due now a u)"
    by (rule assms(1) [unfolded handler_ok_def, rule_format], rule conjI [OF assms(2)]) (use assms(3-5) in simp)
  then show ?thesis by (simp add: assms(6))
qed

lemma fewer_due:
  assumes "\<forall>u\<in>R'. due now b u \<longrightarrow> u \<in> R - {t} \<and> due now a u" "t \<in> R" "due now a t" "finite R"
  shows "card {u \<in> R'. due now b u} < card {u \<in> R. due now a u}"
  by (rule psubset_card_mono) (use assms in auto)

lemma timers_apart: "timers_ok a R F W \<Longrightarrow> t \<in> R \<Longrightarrow> t \<notin> F \<and> t \<notin> W"
  and timers_apart_wtf: "timers_ok a R F W \<Longrightarrow> t \<in> W \<Longrightarrow> t \<notin> R \<and> t \<notin> F"
  by (auto simp: timers_ok_def linked_def)

lemma drain_now_Some [simp]: "drain_now clock (Some n) a = n"
  by (simp add: drain_now_def)

lemma all_next_cases:
  assumes "timers_ok a R F W"
  obtains "all_next clock now a = Some (None, now, a)" "reg_root a = None"
  | h where "all_next clock now a = Some (None, Some (drain_now clock now a), a)" "reg_root a = Some h" "\<not> due (drain_now clock now a) a h"
  | t b where "all_next clock now a = Some (Some t, Some (drain_now clock now a), b)" "t \<in> R" "due (drain_now clock now a) a t"
      "timers_ok (fired t b) (R - {t}) F W" "a_data b = a_data a"
proof -
  obtain r n b where n: "all_next clock now a = Some (r, n, b)"
    "case r of None \<Rightarrow> b = a
     | Some t \<Rightarrow> reg_root a = Some t \<and> t \<in> R \<and> n = Some (drain_now clock now a) \<and> linked b (R - {t}) F W \<and> a_data b = a_data a"
    using all_next_ok [OF assms, of clock now] by blast
  show ?thesis
  proof (cases r)
    case None
    then show ?thesis using n(1) that(1,2)
      by (auto simp: all_next_def Let_def due_def split: option.splits if_splits)
  next
    case (Some t)
    then have "due (drain_now clock now a) a t"
      using n by (auto simp: all_next_def Let_def due_def split: option.splits if_splits)
    then show ?thesis using that(3) n Some all_next_fired [OF assms] by auto
  qed
qed

lemma drain_loop_end: "all_next clock now a = Some (None, n, b) \<Longrightarrow> drain_loop fire clock now (a, s) = Some (b, s)"
  by (subst drain_loop.simps) simp

lemma drain_loop_step: "all_next clock now a = Some (Some t, Some n, b) \<Longrightarrow> drain_loop fire clock now (a, s) =
    (case fire t n (b, s) of (go_on, w) \<Rightarrow> if go_on then drain_loop fire clock (Some n) w else Some w)"
  by (subst drain_loop.simps) simp

lemma drain_loop_returns:
  assumes "handler_ok fire n"
  shows "timers_ok a R F W \<Longrightarrow> drain_now clock now a = n \<Longrightarrow>
    \<exists>b s' R' F' W'. drain_loop fire clock now (a, s) = Some (b, s') \<and> timers_ok b R' F' W'"
proof (induction "card {u \<in> R. due n a u}" arbitrary: a s R F W now rule: less_induct)
  case less
  show ?case
  proof (cases rule: all_next_cases [OF less.prems(1), of clock now])
    case (3 t b)
    obtain g c s' where f: "fire t n (b, s) = (g, c, s')" by (metis prod_cases3)
    have d: "due n b t" "\<And>u. due n b u = due n a u" using 3 less.prems(2) by (simp_all add: due_def)
    obtain R' F' W' where c: "timers_ok c R' F' W'" "\<forall>u\<in>R'. due n c u \<longrightarrow> u \<in> R - {t} \<and> due n b u"
      using handler_okD [OF assms 3(4) _ _ _ f] timers_apart [OF less.prems(1) 3(2)] by auto
    show ?thesis
    proof (cases g)
      case True
      have "card {u \<in> R'. due n c u} < card {u \<in> R. due n a u}"
        by (rule fewer_due) (use c(2) d 3(2) timers_finite [OF less.prems(1)] in auto)
      then obtain e s'' R'' F'' W'' where "drain_loop fire clock (Some n) (c, s') = Some (e, s'')" "timers_ok e R'' F'' W''"
        using less.hyps [OF _ c(1), of "Some n" s'] by auto
      then show ?thesis using 3(1) f True less.prems(2) by (auto simp: drain_loop_step)
    next
      case False
      then show ?thesis using 3(1) f c(1) less.prems(2) by (auto simp: drain_loop_step)
    qed
  qed (use less.prems in \<open>auto simp: drain_loop_end\<close>)
qed

lemma drain_wtf_cases:
  assumes "timers_ok a R F W"
  obtains "wtf_root a = None" "drain_due_wtf_timers fire clock now (a, s) = Some (None, now, (a, s))"
  | h where "wtf_root a = Some h" "\<not> due (case now of None \<Rightarrow> clock | Some now \<Rightarrow> now) a h" "drain_due_wtf_timers fire clock now (a, s) =
      Some (Some (next_at (a_data a h)), Some (case now of None \<Rightarrow> clock | Some now \<Rightarrow> now), (a, s))"
  | t b where "t \<in> W" "due (case now of None \<Rightarrow> clock | Some now \<Rightarrow> now) a t" "timers_ok (fired t b) R F (W - {t})" "a_data b = a_data a"
      "drain_due_wtf_timers fire clock now (a, s) =
        (case fire t (case now of None \<Rightarrow> clock | Some now \<Rightarrow> now) (fired t b, s) of
          (_, w) \<Rightarrow> drain_due_wtf_timers fire clock (Some (case now of None \<Rightarrow> clock | Some now \<Rightarrow> now)) w)"
proof (cases "wtf_root a")
  case None
  show ?thesis by (rule that(1) [OF None]) (subst drain_due_wtf_timers.simps, simp add: None)
next
  case (Some t)
  let ?now = "case now of None \<Rightarrow> clock | Some now \<Rightarrow> now"
  have l: "linked a R F W" "\<forall>u. placed (a_data a) R F W u" using assms by (auto simp: timers_ok_def)
  then obtain h where h: "delete_min (timer_lt a) (wtf_heap a) = Some (h, Some t)" "t \<in> W" "heap_set h (W - {t})"
    "h_store h t = default_links" "untouched W (wtf_heap a) h"
    using delete_min_set [of "wtf_heap a" W "timer_lt a"] Some by (auto simp: linked_def peek_def wtf_heap_def)
  have b: "linked (put_wtf h a) R F (W - {t})"
    by (rule linked_put_wtf [OF l(1) h(3)]) (use h l in \<open>auto simp: Un_absorb2 linked_def\<close>)
  have "t \<notin> R" "t \<notin> F" using timers_apart_wtf [OF assms h(2)] by simp_all
  then have ok: "timers_ok (fired t (put_wtf h a)) R F (W - {t})" using b l by (auto simp: timers_ok_def fired_def placed_def)
  show ?thesis
  proof (cases "due ?now a t")
    case True
    then have "\<not> ts_greater (next_at (a_data a t)) ?now" by (simp add: due_def)
    then show ?thesis using True h ok Some
      by (intro that(3) [of t "put_wtf h a"]) (simp_all, subst drain_due_wtf_timers.simps, simp add: Let_def fired_def)
  next
    case False
    then have "ts_greater (next_at (a_data a t)) ?now" by (simp add: due_def)
    then show ?thesis using False Some by (intro that(2)) (simp_all, subst drain_due_wtf_timers.simps, simp add: Let_def)
  qed
qed

lemma drain_wtf_returns:
  assumes "handler_ok fire n"
  shows "timers_ok a R F W \<Longrightarrow> (case now of None \<Rightarrow> clock | Some now \<Rightarrow> now) = n \<Longrightarrow>
    \<exists>x now' b s' R' F' W'. drain_due_wtf_timers fire clock now (a, s) = Some (x, now', (b, s')) \<and> timers_ok b R' F' W' \<and>
      now' \<in> {now, Some n} \<and> x = map_option (\<lambda>h. next_at (a_data b h)) (wtf_root b) \<and> (\<forall>d. x = Some d \<longrightarrow> ts_greater d n)"
proof (induction "card {u \<in> W. due n a u}" arbitrary: a s R F W now rule: less_induct)
  case less
  let ?now = "case now of None \<Rightarrow> clock | Some now \<Rightarrow> now"
  show ?case
  proof (cases rule: drain_wtf_cases [OF less.prems(1), of fire clock now s])
    case (3 t b)
    obtain g c s' where f: "fire t n (fired t b, s) = (g, c, s')" by (metis prod_cases3)
    have d: "due n b t" "\<And>u. due n b u = due n a u" using 3(2,4) less.prems(2) by (simp_all add: due_def)
    obtain R' F' W' where c: "timers_ok c R' F' W'" "\<forall>u\<in>W'. due n c u \<longrightarrow> u \<in> W - {t} \<and> due n b u"
      using handler_okD [OF assms _ _ _ _ f, of R F "W - {t}"] 3(3) timers_apart_wtf [OF less.prems(1) 3(1)] by auto
    have "card {u \<in> W'. due n c u} < card {u \<in> W. due n a u}"
      by (rule fewer_due) (use c(2) d 3(1) timers_finite [OF less.prems(1)] in auto)
    then obtain x now' e s'' R'' F'' W'' where
      "drain_due_wtf_timers fire clock (Some n) (c, s') = Some (x, now', (e, s''))" "timers_ok e R'' F'' W''" "now' = Some n"
      "x = map_option (\<lambda>h. next_at (a_data e h)) (wtf_root e)" "\<forall>d. x = Some d \<longrightarrow> ts_greater d n"
      using less.hyps [OF _ c(1), of "Some n" s'] by auto
    moreover have "drain_due_wtf_timers fire clock now (a, s) = drain_due_wtf_timers fire clock (Some n) (c, s')"
      using 3(5) f less.prems(2) by simp
    ultimately show ?thesis by auto
  qed (use less.prems in \<open>auto simp: due_def\<close>)
qed

text \<open>C22: A drain of the timers returns, whatever its handlers do to the timers, as long as each of them keeps the timers
  in order and makes no timer due by the time of the drain, the fired one included: a repeating timer that is armed
  for later waits for the next turn. The drain leaves the timers in order; the one of WTF timers also leaves none
  due at its front and reports the next deadline.\<close>

theorem drain_returns:
  assumes "timers_ok a R F W"
  shows "(handler_ok fire (drain_now clock now a) \<longrightarrow>
      (\<exists>b s' R' F' W'. drain_loop fire clock now (a, s) = Some (b, s') \<and> timers_ok b R' F' W')) \<and>
    (handler_ok fire clock \<longrightarrow>
      (\<exists>x now' b s' R' F' W'. drain_due_wtf_timers fire clock None (a, s) = Some (x, now', (b, s')) \<and> timers_ok b R' F' W' \<and>
        now' \<in> {None, Some clock} \<and> x = map_option (\<lambda>h. next_at (a_data b h)) (wtf_root b) \<and> (\<forall>d. x = Some d \<longrightarrow> ts_greater d clock)))"
proof (intro conjI impI)
  show "\<exists>x now' b s' R' F' W'. drain_due_wtf_timers fire clock None (a, s) = Some (x, now', (b, s')) \<and> timers_ok b R' F' W' \<and>
      now' \<in> {None, Some clock} \<and> x = map_option (\<lambda>h. next_at (a_data b h)) (wtf_root b) \<and> (\<forall>d. x = Some d \<longrightarrow> ts_greater d clock)"
    if "handler_ok fire clock" by (rule drain_wtf_returns [OF that assms]) simp
qed (rule drain_loop_returns [OF _ assms refl])

section \<open>The order of a drain\<close>

lemma timer_lt_fired [simp]: "timer_lt (fired t a) = timer_lt a"
  by (intro ext) (simp add: timer_lt_def fired_def)

lemma timer_lt_data: "a_data b = a_data a \<Longrightarrow> timer_lt b = timer_lt a"
  by (intro ext) (simp add: timer_lt_def)

text \<open>A handler that only notes that it ran.\<close>

definition note_fire :: "('n, 'n list) fire" where
  "note_fire t now w = (True, fired t (fst w), snd w @ [t])"

lemma peek_least: "heap_inv lt h S \<Longrightarrow> h_root h = Some x \<Longrightarrow> x \<in> S \<and> (\<forall>y\<in>S. le lt x y)"
  and peek_empty: "heap_inv lt h S \<Longrightarrow> h_root h = None \<Longrightarrow> S = {}"
  by (frule delete_min_inv; elim exE conjE; simp add: peek_def)+

lemma all_next_ordered:
  assumes "reg_ordered a R" "all_next clock now a = Some (Some t, n, b)"
  shows "reg_ordered (fired t b) (R - {t}) \<and> (\<forall>y\<in>R. le (timer_lt a) t y)"
proof -
  have root: "reg_root a = Some t"
    using assms(2) by (simp add: all_next_def Let_def split: option.splits if_splits prod.splits)
  have "\<exists>h. delete_min (timer_lt a) (reg_heap a) = Some (h, Some t) \<and> t \<in> R \<and> (\<forall>y\<in>R. le (timer_lt a) t y) \<and>
      heap_inv (timer_lt a) h (R - {t})"
    using delete_min_inv [OF assms(1) [unfolded reg_ordered_def]] root by (elim exE) (simp add: peek_def reg_heap_def)
  then obtain h where h: "delete_min (timer_lt a) (reg_heap a) = Some (h, Some t)" "\<forall>y\<in>R. le (timer_lt a) t y"
    "heap_inv (timer_lt a) h (R - {t})" by blast
  have b: "b = put_reg h a"
    using assms(2) unfolding all_next_def Let_def root h(1) option.case prod.case by (simp split: if_split_asm)
  then have "reg_heap b = h" by (simp add: put_reg_def reg_heap_def)
  moreover have "timer_lt b = timer_lt a" using b by (intro timer_lt_data) simp
  ultimately show ?thesis using h(2,3) by (simp add: reg_ordered_def)
qed

definition drained :: "timespec \<Rightarrow> 'n all_timers \<Rightarrow> 'n set \<Rightarrow> 'n list \<Rightarrow> bool" where
  "drained n a R ts \<longleftrightarrow> distinct ts \<and> set ts \<subseteq> R \<and> (\<forall>t\<in>set ts. due n a t) \<and> sorted_wrt (le (timer_lt a)) ts \<and>
     (\<forall>t\<in>set ts. \<forall>u\<in>R - set ts. le (timer_lt a) t u) \<and>
     (R - set ts \<noteq> {} \<longrightarrow> (\<exists>h\<in>R - set ts. \<not> due n a h \<and> (\<forall>u\<in>R - set ts. le (timer_lt a) h u)))"

lemma drained_Nil: "R = {} \<Longrightarrow> drained n a R []" "h \<in> R \<Longrightarrow> \<not> due n a h \<Longrightarrow> \<forall>u\<in>R. le (timer_lt a) h u \<Longrightarrow> drained n a R []"
  by (auto simp: drained_def)

lemma drained_Cons:
  assumes "drained n a (R - {t}) ts" "t \<in> R" "due n a t" "\<forall>y\<in>R. le (timer_lt a) t y"
  shows "drained n a R (t # ts)"
proof -
  have "R - set (t # ts) = R - {t} - set ts" by auto
  then show ?thesis using assms unfolding drained_def by (simp only:) auto
qed

lemma drained_cong: "(\<And>u. due n b u = due n a u) \<Longrightarrow> timer_lt b = timer_lt a \<Longrightarrow> drained n b R ts = drained n a R ts"
  by (simp add: drained_def)

lemma drain_notes:
  "timers_ok a R F W \<Longrightarrow> reg_ordered a R \<Longrightarrow> drain_now clock now a = n \<Longrightarrow>
    \<exists>ts b. drain_loop note_fire clock now (a, s) = Some (b, s @ ts) \<and> timers_ok b (R - set ts) F W \<and> drained n a R ts"
proof (induction "card R" arbitrary: a s R now rule: less_induct)
  case less
  show ?case
  proof (cases rule: all_next_cases [OF less.prems(1), of clock now])
    case 1
    then have "R = {}" using peek_empty [OF less.prems(2) [unfolded reg_ordered_def]] by (simp add: reg_heap_def)
    then show ?thesis using drain_loop_end [OF 1(1)] drained_Nil(1) [of R n a] less.prems(1) by (intro exI [of _ "[]"] exI [of _ a]) simp
  next
    case (2 h)
    then have "drained n a R []"
      using peek_least [OF less.prems(2) [unfolded reg_ordered_def], of h] less.prems(3) by (intro drained_Nil(2)) (auto simp: reg_heap_def)
    then show ?thesis using drain_loop_end [OF 2(1)] less.prems(1) by (intro exI [of _ "[]"] exI [of _ a]) simp
  next
    case (3 t b)
    have o: "reg_ordered (fired t b) (R - {t})" "\<forall>y\<in>R. le (timer_lt a) t y" using all_next_ordered [OF less.prems(2) 3(1)] by auto
    have "card (R - {t}) < card R" using 3(2) timers_finite [OF less.prems(1)] by (intro card_Diff1_less) simp_all
    from less.hyps [OF this 3(4) o(1) drain_now_Some, of "s @ [t]"] obtain ts c where
      c: "drain_loop note_fire clock (Some n) (fired t b, s @ [t]) = Some (c, (s @ [t]) @ ts)" "timers_ok c (R - {t} - set ts) F W"
      "drained n (fired t b) (R - {t}) ts" by (elim exE conjE) (rule that)
    have "drained n (fired t b) (R - {t}) ts = drained n a (R - {t}) ts"
      by (rule drained_cong) (use 3(5) timer_lt_data [OF 3(5)] in \<open>simp_all, simp add: due_def\<close>)
    then have "drained n a R (t # ts)" using drained_Cons [OF _ 3(2) _ o(2)] c(3) 3(3) less.prems(3) by simp
    moreover have "drain_loop note_fire clock now (a, s) = Some (c, s @ t # ts)"
      using drain_loop_step [OF 3(1), of note_fire s] c(1) less.prems(3) by (simp add: note_fire_def)
    moreover have "R - set (t # ts) = R - {t} - set ts" by auto
    ultimately show ?thesis using c(2) by (intro exI [of _ "t # ts"] exI [of _ c]) (simp only: simp_thms)
  qed
qed

subsection \<open>Milliseconds\<close>

lemma deadline_ns_normal:
  assumes "normal (next_at t)"
  shows "0 \<le> sint (deadline_ns t)" "sint (deadline_ns t) \<le> sint (nsec (next_at t))" "sint (nsec (next_at t)) < sint (deadline_ns t) + 10 ^ 6"
proof -
  let ?x = "sint (nsec (next_at t))"
  have x: "0 \<le> ?x" "?x < 10 ^ 9" using assms by (simp_all add: normal_def)
  have q: "?x sdiv sint ns_per_ms = ?x div 10 ^ 6"
    using x by (simp add: signed_divide_int_def ns_per_ms_def sgn_if)
  have "ns_per_ms * word_of_int (?x div 10 ^ 6) = (word_of_int (10 ^ 6 * (?x div 10 ^ 6)) :: i64)" by (simp add: ns_per_ms_def)
  moreover have "0 \<le> 10 ^ 6 * (?x div 10 ^ 6)" "10 ^ 6 * (?x div 10 ^ 6) \<le> ?x" "?x < 10 ^ 6 * (?x div 10 ^ 6) + 10 ^ 6" using x by auto
  moreover have "sint (word_of_int (10 ^ 6 * (?x div 10 ^ 6)) :: i64) = 10 ^ 6 * (?x div 10 ^ 6)"
    by (rule sint_minus) (use x in auto)
  ultimately show "0 \<le> sint (deadline_ns t)" "sint (deadline_ns t) \<le> ?x" "?x < sint (deadline_ns t) + 10 ^ 6"
    using x q by (simp_all add: deadline_ns_def)
qed

text \<open>A timer that is not after another in the order is less than a millisecond later.\<close>

lemma not_after_instant:
  assumes "normal (next_at x)" "normal (next_at y)" "\<not> timer_less y x"
  shows "instant (next_at x) < instant (next_at y) + 10 ^ 6"
proof -
  have "\<not> before_bucket y x" using assms(3) by (auto simp: timer_less_buckets before_bucket_def split: if_splits)
  then have "sint (sec (next_at x)) < sint (sec (next_at y)) \<or>
      sint (sec (next_at x)) = sint (sec (next_at y)) \<and> sint (deadline_ns x) \<le> sint (deadline_ns y)"
    by (auto simp: before_bucket_def bucket_def)
  then show ?thesis
    using deadline_ns_normal [OF assms(1)] deadline_ns_normal [OF assms(2)] assms(1,2) by (auto simp: instant_def normal_def)
qed

lemma le_instant:
  assumes "\<forall>u\<in>S. normal (next_at (a_data a u))" "h \<in> S" "u \<in> S" "le (timer_lt a) h u"
  shows "instant (next_at (a_data a h)) < instant (next_at (a_data a u)) + 10 ^ 6"
  using assms not_after_instant by (auto simp: le_def timer_lt_def)

lemma due_instant: "normal now \<Longrightarrow> normal (next_at (a_data a u)) \<Longrightarrow> due now a u \<longleftrightarrow> instant (next_at (a_data a u)) \<le> instant now"
  by (auto simp: due_def ts_greater_def ts_order_instant cmp_def)


section \<open>The time to wait\<close>

lemma duration_spec:
  assumes "normal d" "normal now" "0 \<le> sint (sec now)" "ts_greater d now"
  shows "normal (ts_duration d now) \<and> instant (ts_duration d now) = instant d - instant now \<and> 0 < instant (ts_duration d now)"
proof -
  have "instant now < instant d" using assms by (simp add: ts_greater_def ts_order_instant cmp_def split: if_splits)
  moreover have "sint (sec d) - sint (sec now) < 2 ^ 63" using assms(3) sint_lt [of "sec d"] by simp
  ultimately show ?thesis using duration_instant [OF assms(1,2)] by simp
qed

lemma normal_epoch: "normal epoch_ts" "instant epoch_ts = 0"
  by (simp_all add: normal_def instant_def epoch_ts_def)

lemma soonest_cases:
  "soonest x y = None \<longleftrightarrow> x = None \<and> y = None"
  "soonest x y = Some d \<Longrightarrow> x = Some d \<or> y = Some d"
  by (auto simp: soonest_def split: option.splits if_splits)

lemma soonest_least:
  assumes "soonest x y = Some d" "e \<in> set_option x \<union> set_option y" "\<forall>e\<in>set_option x \<union> set_option y. normal e"
  shows "instant d \<le> instant e"
  using assms by (auto simp: soonest_def ts_greater_def ts_order_instant cmp_def split: option.splits if_splits)

lemma drain_wtf_none_due:
  assumes "timers_ok a R F W" "\<forall>u\<in>W. \<not> due clock a u"
  shows "\<exists>now. drain_due_wtf_timers fire clock None (a, s) = Some (map_option (\<lambda>h. next_at (a_data a h)) (wtf_root a), now, (a, s)) \<and>
    now \<in> {None, Some clock}"
  by (cases rule: drain_wtf_cases [OF assms(1), of fire clock None s]) (use assms(2) in auto)

lemma reg_least: "reg_ordered a R \<Longrightarrow> reg_root a = Some h \<Longrightarrow> h \<in> R \<and> (\<forall>u\<in>R. le (timer_lt a) h u)"
  "reg_ordered a R \<Longrightarrow> reg_root a = None \<Longrightarrow> R = {}"
  using peek_least [of "timer_lt a" "reg_heap a" R h] peek_empty [of "timer_lt a" "reg_heap a" R] by (simp_all add: reg_ordered_def reg_heap_def)

definition wtf_ordered :: "'n all_timers \<Rightarrow> 'n set \<Rightarrow> bool" where
  "wtf_ordered a W \<longleftrightarrow> heap_inv (timer_lt a) (wtf_heap a) W"

lemma wtf_least: "wtf_ordered a W \<Longrightarrow> wtf_root a = Some h \<Longrightarrow> h \<in> W \<and> (\<forall>u\<in>W. le (timer_lt a) h u)"
  "wtf_ordered a W \<Longrightarrow> wtf_root a = None \<Longrightarrow> W = {}"
  using peek_least [of "timer_lt a" "wtf_heap a" W h] peek_empty [of "timer_lt a" "wtf_heap a" W] by (simp_all add: wtf_ordered_def wtf_heap_def)

text \<open>The sooner of the two roots is at most a millisecond later than any timer.\<close>

lemma soonest_near:
  assumes "reg_ordered a R" "wtf_ordered a W" "\<forall>u\<in>R \<union> W. normal (next_at (a_data a u))" "u \<in> R \<union> W"
    and "soonest (map_option (\<lambda>h. next_at (a_data a h)) (wtf_root a)) (map_option (\<lambda>h. next_at (a_data a h)) (reg_root a)) = Some d"
  shows "instant d < instant (next_at (a_data a u)) + 10 ^ 6"
proof -
  let ?at = "\<lambda>h. next_at (a_data a h)"
  let ?x = "map_option ?at (wtf_root a)" and ?y = "map_option ?at (reg_root a)"
  have "\<exists>e\<in>set_option ?x \<union> set_option ?y. instant e < instant (?at u) + 10 ^ 6"
  proof (cases "u \<in> R")
    case True
    then obtain r where r: "reg_root a = Some r" "r \<in> R" "le (timer_lt a) r u"
      using reg_least [OF assms(1)] by (cases "reg_root a") auto
    then show ?thesis using le_instant [of R a r u] True assms(3) by auto
  next
    case False
    then obtain r where r: "wtf_root a = Some r" "r \<in> W" "le (timer_lt a) r u"
      using wtf_least [OF assms(2)] assms(4) by (cases "wtf_root a") auto
    then show ?thesis using le_instant [of W a r u] False assms(3,4) by auto
  qed
  moreover have "\<forall>e\<in>set_option ?x \<union> set_option ?y. normal e"
    using wtf_least(1) [OF assms(2)] reg_least(1) [OF assms(1)] assms(3) by auto
  ultimately show ?thesis using soonest_least [OF assms(5)] by force
qed

text \<open>C25: With no immediate and no QUIC tick pending and no WTF timer due, the event loop waits without limit exactly when
  there is no timer. Otherwise it waits until the deadline of a timer, or not at all, and it never sleeps through a
  deadline by a millisecond; it does wait when every timer is in the future and none is to fire on an idle loop.\<close>

theorem timeout_wakes:
  assumes "timers_ok a R F W" "reg_ordered a R" "wtf_ordered a W" "\<forall>u\<in>R \<union> W. normal (next_at (a_data a u))"
    and "normal clock" "0 \<le> sint (sec clock)" "\<forall>u\<in>W. \<not> due clock a u"
  shows "\<exists>spec now. get_timeout fire clock False None None (a, s) = Some (spec, now, (a, s)) \<and> (spec = None \<longleftrightarrow> R \<union> W = {}) \<and>
    (\<forall>d. spec = Some d \<longrightarrow> normal d \<and>
      (instant d = 0 \<or> (\<exists>u\<in>R \<union> W. instant clock + instant d = instant (next_at (a_data a u)))) \<and>
      (\<forall>u\<in>R \<union> W. instant d = 0 \<or> instant clock + instant d < instant (next_at (a_data a u)) + 10 ^ 6) \<and>
      ((\<forall>u\<in>R \<union> W. \<not> due clock a u \<and> \<not> is_due_when_idle (a_data a u)) \<longrightarrow> 0 < instant d))"
proof -
  let ?at = "\<lambda>h. next_at (a_data a h)"
  let ?x = "map_option ?at (wtf_root a)" and ?y = "map_option ?at (reg_root a)"
  obtain n where n: "drain_due_wtf_timers fire clock None (a, s) = Some (?x, n, (a, s))" "n \<in> {None, Some clock}"
    using drain_wtf_none_due [OF assms(1,7), of fire s] by (elim exE conjE) (rule that)
  have none: "?x = None \<longleftrightarrow> W = {}"
    by (cases "wtf_root a") (use wtf_least [OF assms(3)] in auto)
  have none': "?y = None \<longleftrightarrow> R = {}"
    by (cases "reg_root a") (use reg_least [OF assms(2)] in auto)
  show ?thesis
  proof (cases "soonest ?x ?y")
    case None
    then have "R \<union> W = {}" "get_timeout fire clock False None None (a, s) = Some (None, n, (a, s))"
      using none none' n(1) soonest_cases(1) [of ?x ?y] by (auto simp: get_timeout_def Let_def)
    then show ?thesis by simp
  next
    case (Some d)
    then obtain h where h: "h \<in> R \<union> W" "d = ?at h"
      using soonest_cases(2) [OF Some] wtf_least(1) [OF assms(3)] reg_least(1) [OF assms(2)] by auto
    have nd: "normal d" using h assms(4) by simp
    have near: "instant d < instant (?at u) + 10 ^ 6" if "u \<in> R \<union> W" for u
      by (rule soonest_near [OF assms(2,3,4) that Some])
    let ?spec = "if ts_greater d clock \<and> deadline_if_due_when_idle a = None then ts_duration d clock else epoch_ts"
    have g: "get_timeout fire clock False None None (a, s) = Some (Some ?spec, Some clock, (a, s))"
      using n Some by (auto simp: get_timeout_def Let_def)
    have dur: "normal ?spec \<and> (instant ?spec = 0 \<or> instant ?spec = instant d - instant clock)"
      using duration_spec [OF nd assms(5,6)] normal_epoch by simp
    have busy: "0 < instant ?spec" if "\<forall>u\<in>R \<union> W. \<not> due clock a u \<and> \<not> is_due_when_idle (a_data a u)"
    proof -
      have "ts_greater d clock" using that h by (auto simp: due_def)
      moreover have "deadline_if_due_when_idle a = None"
        using that reg_least(1) [OF assms(2)] by (auto simp: deadline_if_due_when_idle_def Let_def split: option.split)
      ultimately show ?thesis using duration_spec [OF nd assms(5,6)] by simp
    qed
    have "instant ?spec = 0 \<or> instant clock + instant ?spec = instant d" using dur by auto
    then have "(instant ?spec = 0 \<or> (\<exists>u\<in>R \<union> W. instant clock + instant ?spec = instant (?at u))) \<and>
        (\<forall>u\<in>R \<union> W. instant ?spec = 0 \<or> instant clock + instant ?spec < instant (?at u) + 10 ^ 6)"
      using near h by (metis (no_types, lifting))
    then show ?thesis using g dur busy h(1) by (intro exI [of _ "Some ?spec"] exI [of _ "Some clock"]) (simp only: simp_thms option.inject option.simps, blast)
  qed
qed

section \<open>Teardown\<close>

text \<open>The nodes on a stack are the roots of trees.\<close>

definition push_tree :: "'n tree \<Rightarrow> 'n tree list \<Rightarrow> 'n tree list" where
  "push_tree t ts = (if t = Leaf then ts else t # ts)"

definition forest :: "'n store \<Rightarrow> 'n tree list \<Rightarrow> bool" where
  "forest st ts \<longleftrightarrow> (\<forall>t\<in>set ts. t \<noteq> Leaf \<and> (\<exists>p q. rep st p t q))"

definition forest_size :: "'n tree list \<Rightarrow> nat" where
  "forest_size ts = sum_list (map size ts)"

definition forest_nodes :: "'n tree list \<Rightarrow> 'n multiset" where
  "forest_nodes ts = \<Sum>\<^sub># (mset (map (mset \<circ> preorder) ts))"

lemma push_tree_simps [simp]:
  "forest_size (push_tree t ts) = size t + forest_size ts" "forest_nodes (push_tree t ts) = mset (preorder t) + forest_nodes ts"
  "forest st (push_tree t ts) \<longleftrightarrow> (\<exists>p q. rep st p t q) \<and> forest st ts"
  by (auto simp: push_tree_def forest_size_def forest_nodes_def forest_def)

lemma forest_nodes_Nil [simp]: "forest_nodes [] = {#}"
  by (simp add: forest_nodes_def)

lemma rep_push: "rep st p t q \<Longrightarrow> (case q of None \<Rightarrow> map value ts | Some c \<Rightarrow> c # map value ts) = map value (push_tree t ts)"
  by (cases t) (auto simp: push_tree_def)

lemma collect_forest:
  "forest st ts \<Longrightarrow> \<exists>ns. collect_loop st found (map value ts) = Some (found @ ns) \<and> mset ns = forest_nodes ts"
proof (induction "forest_size ts" arbitrary: ts found rule: less_induct)
  case less
  show ?case
  proof (cases ts)
    case Nil
    then show ?thesis by (subst collect_loop.simps) (simp add: forest_nodes_def)
  next
    case (Cons t ts')
    then obtain l x r p where t: "t = Node l x r" "rep st (Some x) l (link_child (st x))" "rep st (Some x) r (link_next (st x))"
      using less.prems by (cases t) (auto simp: forest_def)
    let ?us = "push_tree r (push_tree l ts')"
    have f: "forest st ?us" using less.prems t Cons by (auto simp: forest_def push_tree_def)
    have "forest_size ?us < forest_size ts" using Cons t(1) by (simp add: forest_size_def push_tree_def)
    from less.hyps [OF this f, of "found @ [x]"] obtain ns where
      "collect_loop st (found @ [x]) (map value ?us) = Some ((found @ [x]) @ ns)" "mset ns = forest_nodes ?us" by blast
    moreover have "collect_loop st found (map value ts) = collect_loop st (found @ [x]) (map value ?us)"
      using Cons t(1) rep_push [OF t(2), of ts'] rep_push [OF t(3), of "push_tree l ts'"]
      by (subst collect_loop.simps) (auto simp: Let_def split: option.splits)
    moreover have "forest_nodes ts = add_mset x (forest_nodes ?us)" using Cons t(1) by (simp add: forest_nodes_def push_tree_def)
    ultimately show ?thesis by (intro exI [of _ "x # ns"]) simp
  qed
qed

lemma remove_all_ok:
  "timers_ok a R F W \<Longrightarrow> distinct ns \<Longrightarrow> set ns \<subseteq> R \<union> F \<Longrightarrow>
    \<exists>b. remove_all ns a = Some b \<and> timers_ok b (R - set ns) (F - set ns) W \<and>
      (\<forall>t. next_at (a_data b t) = next_at (a_data a t) \<and> t_state (a_data b t) = (if t \<in> set ns then CANCELLED else t_state (a_data a t)))"
proof (induction ns arbitrary: a R F)
  case (Cons t ns)
  obtain b where b: "all_remove t a = Some b" "timers_ok b (R - {t}) (F - {t}) W"
    "a_data b = (a_data a)(t := (a_data a t)\<lparr>t_in_heap := InNone, t_state := CANCELLED\<rparr>)"
    using all_remove_ok [OF Cons.prems(1), of t] Cons.prems(3) by auto
  have "set ns \<subseteq> R - {t} \<union> (F - {t})" "distinct ns" using Cons.prems(2,3) by auto
  with Cons.IH [OF b(2)] obtain c where c: "remove_all ns b = Some c" "timers_ok c (R - {t} - set ns) (F - {t} - set ns) W"
    "\<forall>u. next_at (a_data c u) = next_at (a_data b u) \<and> t_state (a_data c u) = (if u \<in> set ns then CANCELLED else t_state (a_data b u))"
    by blast
  have "R - set (t # ns) = R - {t} - set ns" "F - set (t # ns) = F - {t} - set ns" by auto
  then have "timers_ok c (R - set (t # ns)) (F - set (t # ns)) W" using c(2) by simp
  moreover have "remove_all (t # ns) a = Some c" using b(1) c(1) by simp
  moreover have "\<forall>u. next_at (a_data c u) = next_at (a_data a u) \<and> t_state (a_data c u) = (if u \<in> set (t # ns) then CANCELLED else t_state (a_data a u))"
    using c(3) b(3) by simp
  ultimately show ?case by (intro exI [of _ c] conjI)
qed simp

text \<open>C26: The teardown of a thread finds every timer of both heaps, once, and removes it from the heap it is in: afterwards
  both heaps are empty, each of their timers is \<^verbatim>\<open>CANCELLED\<close> with its links reset, WTF timers stay, and a drain
  fires nothing, whatever the clock says.\<close>

theorem teardown_empties:
  assumes "timers_ok a R F W"
  shows "\<exists>b. disarm_all_for_vm_teardown a = Some b \<and> timers_ok b {} {} W \<and> reg_root b = None \<and> fake_root b = None \<and>
    (\<forall>t. t_state (a_data b t) = (if t \<in> R \<union> F then CANCELLED else t_state (a_data a t))) \<and>
    (\<forall>fire clock s. drain_loop fire clock None (b, s) = Some (b, s))"
proof -
  have l: "heap_set (reg_heap a) R" "heap_set (fake_heap a) F" "R \<inter> F = {}" using assms by (auto simp: timers_ok_def linked_def)
  obtain s t where s: "heap_is (reg_heap a) s" "set_tree s = R" and t: "heap_is (fake_heap a) t" "set_tree t = F"
    using l by (auto simp: heap_set_def)
  have r: "rep (a_links a) None s (reg_root a)" "rep (a_links a) None t (fake_root a)" "distinct (preorder s)" "distinct (preorder t)"
    using s t by (auto simp: heap_is_def reg_heap_def fake_heap_def)
  have "forest (a_links a) (push_tree t (push_tree s []))" using r by (auto simp: forest_def push_tree_def)
  from collect_forest [OF this, of "[]"] obtain ns where
    ns: "collect_loop (a_links a) [] (map value (push_tree t (push_tree s []))) = Some ns" "mset ns = mset (preorder t @ preorder s)"
    by (auto)
  have n: "set ns = R \<union> F" using mset_eq_setD [OF ns(2)] s(2) t(2) by auto
  have "distinct (preorder t @ preorder s)" using r(3,4) s(2) t(2) l(3) by auto
  then have d: "distinct ns" using ns(2) by (metis mset_eq_imp_distinct_iff)
  obtain b where b: "remove_all ns a = Some b" "timers_ok b (R - set ns) (F - set ns) W"
      "\<forall>u. t_state (a_data b u) = (if u \<in> set ns then CANCELLED else t_state (a_data a u))"
    using remove_all_ok [OF assms d] n by blast
  have dis: "disarm_all_for_vm_teardown a = Some b"
    using ns(1) b(1) rep_push [OF r(1), of "[]"] rep_push [OF r(2), of "push_tree s []"]
    by (auto simp: disarm_all_for_vm_teardown_def Let_def split: option.splits)
  have z: "R - set ns = {}" "F - set ns = {}" using n by auto
  have ok: "timers_ok b {} {} W" using b(2) by (simp only: z)
  have e: "reg_root b = None" "fake_root b = None"
    using ok heap_is_empty [of "reg_heap b" Leaf] heap_is_empty [of "fake_heap b" Leaf]
    by (auto simp: timers_ok_def linked_def heap_set_def reg_heap_def fake_heap_def)
  show ?thesis
  proof (intro exI [of _ b] conjI allI dis ok e)
    show "t_state (a_data b t) = (if t \<in> R \<union> F then CANCELLED else t_state (a_data a t))" for t using b(3) n by simp
    show "drain_loop fire clock None (b, x) = Some (b, x)" for fire clock x
      by (rule drain_loop_end) (simp add: all_next_def e)
  qed
qed

section \<open>Examples\<close>

declare drain_loop.simps [code]

text \<open>A handler that arms its timer again for the fifth millisecond.\<close>

definition rearm :: "('n, nat) fire" where
  "rearm t now w =
     (let a = fired t (fst w)
      in if t_tag (a_data a t) = WTFTimer then (True, a, snd w + 1)
         else (True, all_insert t (update_timer t (\<lambda>t. t\<lparr>next_at := \<lparr>sec = 0, nsec = 5000000\<rparr>\<rparr>) a), snd w + 1))"

lemma rearm_ok: "handler_ok (rearm :: ('n, nat) fire) \<lparr>sec = 0, nsec = 3000000\<rparr>"
  unfolding handler_ok_def
proof (intro allI impI)
  fix t :: 'n and a s R F W
  assume h: "timers_ok (fired t a) R F W \<and> t \<notin> R \<and> t \<notin> F \<and> t \<notin> W"
  let ?n = "\<lparr>sec = 0, nsec = 3000000\<rparr> :: timespec"
  let ?b = "update_timer t (\<lambda>t. t\<lparr>next_at := \<lparr>sec = 0, nsec = 5000000\<rparr>\<rparr>) (fired t a)"
  have l: "linked ?b R F W" "\<forall>u. u \<noteq> t \<longrightarrow> placed (a_data ?b) R F W u" using h by (simp_all add: timers_ok_def placed_def)
  have late: "ts_greater \<lparr>sec = 0, nsec = 5000000\<rparr> ?n" by code_simp
  have d: "due ?n (all_insert t ?b) u \<longrightarrow> u \<noteq> t \<and> due ?n a u" for u
    using late all_insert_data(2) [of u t ?b] by (cases "u = t") (simp_all add: due_def all_insert_data(1) fired_def)
  let ?R = "if goes_fake t ?b then R else insert t R" and ?F = "if goes_fake t ?b then insert t F else F"
  have "timers_ok (all_insert t ?b) ?R ?F W" if "t_tag (a_data (fired t a) t) \<noteq> WTFTimer"
    by (rule all_insert_ok [OF l]) (use h that in simp_all)
  moreover have "u \<in> ?R \<Longrightarrow> u \<noteq> t \<Longrightarrow> u \<in> R" for u by (simp split: if_splits)
  ultimately show "case rearm t ?n (a, s) of (_, b, _) \<Rightarrow> \<exists>R' F' W'. timers_ok b R' F' W' \<and>
      (\<forall>u\<in>R'. due ?n b u \<longrightarrow> u \<in> R \<and> due ?n a u) \<and> (\<forall>u\<in>W'. due ?n b u \<longrightarrow> u \<in> W \<and> due ?n a u)"
  proof (cases "t_tag (a_data (fired t a) t) = WTFTimer")
    case True
    then show ?thesis using h by (auto simp: rearm_def Let_def)
  next
    case False
    then have r: "rearm t ?n (a, s) = (True, all_insert t ?b, s + 1)" by (simp add: rearm_def Let_def)
    have "timers_ok (all_insert t ?b) ?R ?F W" by (rule all_insert_ok [OF l]) (use h False in simp_all)
    then show ?thesis unfolding r prod.case using d \<open>\<And>u. u \<in> ?R \<Longrightarrow> u \<noteq> t \<Longrightarrow> u \<in> R\<close> by blast
  qed
qed

lemma drain_returns_witness:
  "\<exists>b s' R' F' W'. drain_loop rearm \<lparr>sec = 0, nsec = 3000000\<rparr> None (sample_timers, 0) = Some (b, s') \<and> timers_ok b R' F' W'"
proof -
  have "drain_now \<lparr>sec = 0, nsec = 3000000\<rparr> None sample_timers = \<lparr>sec = 0, nsec = 3000000\<rparr>" by code_simp
  then have "handler_ok (rearm :: (nat, nat) fire) (drain_now \<lparr>sec = 0, nsec = 3000000\<rparr> None sample_timers)"
    by (simp only: rearm_ok)
  then show ?thesis by (rule drain_returns [OF sample_timers_ok, THEN conjunct1, THEN mp])
qed

lemma sample_at: "next_at (a_data sample_timers 1) = \<lparr>sec = 0, nsec = 2000000\<rparr>" "next_at (a_data sample_timers 2) = \<lparr>sec = 0, nsec = 1000000\<rparr>"
  "\<not> is_due_when_idle (a_data sample_timers 1)" "\<not> is_due_when_idle (a_data sample_timers 2)"
  by code_simp+


lemma timeout_wakes_witness:
  "\<exists>d now. get_timeout note_fire \<lparr>sec = 0, nsec = 500000\<rparr> False None None (sample_timers, []) = Some (Some d, now, (sample_timers, [])) \<and> 0 < instant d"
proof -
  let ?n = "\<lparr>sec = 0, nsec = 500000\<rparr> :: timespec"
  have w0: "wtf_root sample_timers = None" by code_simp
  have w: "wtf_ordered sample_timers {}"
    using heap_default_inv [of "timer_lt sample_timers" "a_links sample_timers"] w0 by (simp add: wtf_ordered_def wtf_heap_def heap_default_def)
  have g: "ts_greater \<lparr>sec = 0, nsec = 2000000\<rparr> ?n" "ts_greater \<lparr>sec = 0, nsec = 1000000\<rparr> ?n" by code_simp+
  show ?thesis
    using timeout_wakes [OF sample_timers_ok sample_ordered w, of ?n note_fire "[]"] sample_at g by (auto simp: normal_def due_def)
qed

lemma teardown_empties_witness:
  "\<exists>b. disarm_all_for_vm_teardown sample_timers = Some b \<and> timers_ok b {} {} {} \<and> t_state (a_data b 1) = CANCELLED"
  using teardown_empties [OF sample_timers_ok] by auto

text \<open>A connection timeout at exactly one millisecond, two \<^verbatim>\<open>setTimeout\<close> of the same millisecond, 2 before 4, and two
  earlier timers.\<close>

definition tied_timers :: "nat all_timers" where
  "tied_timers = foldl (\<lambda>a t. all_insert t a)
     (all_init ((\<lambda>_. at_ms TimeoutObject 1)(1 := at_ms PostgresSQLConnectionTimeout 1, 3 := at_ms TimeoutObject 0,
       5 := at_ms PostgresSQLConnectionTimeout 0))) [1, 2, 3, 4, 5]"

text \<open>C28: Two \<^verbatim>\<open>setTimeout\<close> with the same deadline can fire in the wrong order. A runtime timer due at exactly that
  millisecond is neither before nor after them, so \<^verbatim>\<open>EventLoopTimer::less\<close> does not order the timers, and the
  heap, whose order is only kept along its links, hands out the later one first.\<close>

theorem equal_deadlines_out_of_order:
  "map_option snd (drain_loop note_fire \<lparr>sec = 0, nsec = 3000000\<rparr> None (tied_timers, [])) = Some [3, 5, 4, 1, 2] \<and>
   next_at (a_data tied_timers 2) = next_at (a_data tied_timers 4) \<and> timer_lt tied_timers 2 4 \<and>
   \<not> orders (timer_lt tied_timers) {1, 2, 4}"
proof -
  have v: "map_option snd (drain_loop note_fire \<lparr>sec = 0, nsec = 3000000\<rparr> None (tied_timers, [])) = Some [3, 5, 4, 1, 2]"
    "next_at (a_data tied_timers 2) = next_at (a_data tied_timers 4)" "timer_lt tied_timers 2 4"
    "\<not> timer_lt tied_timers 1 4" "\<not> timer_lt tied_timers 2 1" by code_simp+
  have "\<not> timer_lt tied_timers 1 2" "\<not> timer_lt tied_timers 4 1" by code_simp+
  then have "\<not> orders (timer_lt tied_timers) {1, 2, 4}" using v(3-5) by (auto simp: orders_def le_def)
  then show ?thesis using v by blast
qed

end
