(* ===== verification/Timer_States.thy ===== *)
theory Timer_States
  imports Timers
begin

text \<open>
  The timers of a thread (\<^verbatim>\<open>src/runtime/timer/mod.rs\<close>) as a state machine: one step for each way the program changes
  them, and what holds in every state it can reach. The guards of the steps are what the callers keep: \<^verbatim>\<open>insert\<close> takes a
  timer that is in no heap, \<^verbatim>\<open>remove\<close> one that is in a heap, and the WTF timers have operations of their own.
\<close>

datatype 'n timer_op = Insert 'n | Remove 'n | Update 'n timespec | Arm 'n timespec | Disarm 'n | Fire 'n

inductive timer_step :: "'n all_timers \<Rightarrow> 'n timer_op \<Rightarrow> 'n all_timers \<Rightarrow> bool" where
  insert: "timer_step a (Insert t) (all_insert t a)"
    if "t_state (a_data a t) \<noteq> ACTIVE" "t_tag (a_data a t) \<noteq> WTFTimer"
| remove: "timer_step a (Remove t) b"
    if "t_state (a_data a t) = ACTIVE" "t_tag (a_data a t) \<noteq> WTFTimer" "all_remove t a = Some b"
| update: "timer_step a (Update t time) b"
    if "t_tag (a_data a t) \<noteq> WTFTimer" "all_update t time a = Some b"
| arm: "timer_step a (Arm t time) b"
    if "t_tag (a_data a t) = WTFTimer" "wtf_arm t time a = Some b"
| disarm: "timer_step a (Disarm t) b"
    if "t_tag (a_data a t) = WTFTimer" "wtf_disarm t a = Some b"
| fire: "timer_step a (Fire t) (fired t b)"
    if "all_next clock now a = Some (Some t, n, b)"

inductive_simps remove_step: "timer_step a (Remove t) b"
inductive_simps update_step: "timer_step a (Update t time) b"
inductive_simps arm_step: "timer_step a (Arm t time) b"
inductive_simps disarm_step: "timer_step a (Disarm t) b"

inductive reachable :: "('n \<Rightarrow> event_loop_timer) \<Rightarrow> 'n all_timers \<Rightarrow> bool" for d where
  start: "reachable d (all_init d)"
| step: "reachable d b" if "reachable d a" "timer_step a op b"

lemma active_placed:
  assumes "timers_ok a R F W"
  shows "t_state (a_data a t) = ACTIVE \<longleftrightarrow> t \<in> R \<union> F \<union> W"
    and "t \<in> R \<union> F \<Longrightarrow> t_tag (a_data a t) \<noteq> WTFTimer" and "t \<in> W \<Longrightarrow> t_tag (a_data a t) = WTFTimer"
  using assms by (auto simp: timers_ok_def placed_def)

lemma timer_step_ok:
  assumes "timer_step a op b" "timers_ok a R F W"
  shows "\<exists>R F W. timers_ok b R F W"
  using assms(1)
proof cases
  case (insert t)
  then have "timers_ok b (if goes_fake t a then R else insert t R) (if goes_fake t a then insert t F else F) W"
    using timers_ops_ok [OF assms(2), of t] active_placed(1) [OF assms(2), of t] by simp
  then show ?thesis by blast
next
  case (remove t)
  then have "t \<in> R \<union> F" using active_placed [OF assms(2), of t] by blast
  then have "timers_ok b (R - {t}) (F - {t}) W" using timers_ops_ok [OF assms(2), of t] remove by simp
  then show ?thesis by blast
next
  case (update t time)
  then have "timers_ok b (if goes_fake t a then R - {t} else insert t R) (if goes_fake t a then insert t F else F - {t}) W"
    using timers_ops_ok [OF assms(2), of t] by (metis option.inject)
  then show ?thesis by blast
next
  case (arm t time)
  then have "timers_ok b R F (insert t W)" using timers_ops_ok [OF assms(2), of t] by (metis option.inject)
  then show ?thesis by blast
next
  case (disarm t)
  then have "timers_ok b R F (W - {t})" using timers_ops_ok [OF assms(2), of t] by (metis option.inject)
  then show ?thesis by blast
next
  case (fire clock now t n c)
  then show ?thesis using all_next_fired [OF assms(2)] by blast
qed

lemma reachable_ok:
  assumes "reachable d a" "\<forall>t. t_state (d t) \<noteq> ACTIVE"
  shows "\<exists>R F W. timers_ok a R F W"
  using assms(1)
proof (induction rule: reachable.induct)
  case start
  then show ?case using all_init_ok [OF assms(2)] by blast
next
  case (step a op b)
  then show ?case using timer_step_ok by blast
qed



end
