(* ===== verification/Linear_Fifo.thy ===== *)
theory Linear_Fifo
  imports Prelude
begin

text \<open>The ring buffer \<^verbatim>\<open>LinearFifo\<close> (\<^verbatim>\<open>src/collections/linear_fifo.rs\<close>), with a fixed or a growing buffer, in
  full but for the poisoning of unused items in debug builds. The lemmas show that it is a queue, and that a stream
  written and read through it keeps its order. Memory is a parameter: \<open>uninit n\<close> is a new allocation of \<open>n\<close>
  items. A fifo holds less than \<open>2 ^ 63\<close> items, the most that Rust allocates.\<close>

unbundle bit_operations_syntax

section \<open>The ring\<close>

text \<open>Powers of two of \<^verbatim>\<open>core\<close>.\<close>

fun power_above :: "nat \<Rightarrow> nat \<Rightarrow> nat \<Rightarrow> nat" where
  "power_above 0 p n = p"
| "power_above (Suc fuel) p n = (if n \<le> p then p else power_above fuel (2 * p) n)"

definition is_power_of_two :: "nat \<Rightarrow> bool" where
  "is_power_of_two n \<longleftrightarrow> n \<noteq> 0 \<and> power_above 64 1 n = n"

definition checked_next_power_of_two :: "nat \<Rightarrow> nat option" where
  "checked_next_power_of_two n = (let p = power_above 64 1 n in if p < 2 ^ 64 then Some p else None)"

text \<open>The items that were never written are arbitrary here, as they are in \<^verbatim>\<open>MaybeUninit\<close> storage. The kind of buffer
  says whether it grows and whether its length is a power of two.\<close>

record 'a fifo =
  buf :: "'a list"
  head :: nat
  count :: nat
  powers_of_two :: bool
  dynamic :: bool

definition buf_len :: "'a fifo \<Rightarrow> nat" where
  "buf_len f = length (buf f)"

definition static_init :: "'a list \<Rightarrow> 'a fifo" where
  "static_init uninit = \<lparr>buf = uninit, head = 0, count = 0,
     powers_of_two = is_power_of_two (length uninit), dynamic = False\<rparr>"

definition dynamic_init :: "'a fifo" where
  "dynamic_init = \<lparr>buf = [], head = 0, count = 0, powers_of_two = True, dynamic = True\<rparr>"

definition reset_head_if_empty :: "'a fifo \<Rightarrow> 'a fifo" where
  "reset_head_if_empty f = (if count f = 0 then f\<lparr>head := 0\<rparr> else f)"

text \<open>The copy of \<^verbatim>\<open>realign\<close> may overlap.\<close>

definition realign :: "'a fifo \<Rightarrow> 'a fifo" where
  "realign f =
     (if buf_len f - head f \<ge> count f
      then f\<lparr>buf := take (count f) (drop (head f) (buf f)) @ drop (count f) (buf f), head := 0\<rparr>
      else f\<lparr>buf := rotate (head f) (buf f), head := 0\<rparr>)"

text \<open>\<^verbatim>\<open>alloc_swap\<close> gives storage of the wanted length, \<open>uninit\<close>. The answer of the calls that may not find room is
  whether they did; a call that fails may have moved the items.\<close>

definition alloc_swap :: "(nat \<Rightarrow> 'a list) \<Rightarrow> nat \<Rightarrow> 'a fifo \<Rightarrow> 'a list \<times> 'a fifo" where
  "alloc_swap uninit new_size f = (buf f, f\<lparr>buf := uninit new_size\<rparr>)"

definition ensure_total_capacity :: "(nat \<Rightarrow> 'a list) \<Rightarrow> nat \<Rightarrow> 'a fifo \<Rightarrow> bool \<times> 'a fifo" where
  "ensure_total_capacity uninit size_wanted f =
     (if buf_len f \<ge> size_wanted then (True, f)
      else if dynamic f then
        (let f = realign f
         in case (if powers_of_two f then checked_next_power_of_two size_wanted else Some size_wanted) of
              None \<Rightarrow> (False, f)
            | Some new_size \<Rightarrow>
                (case alloc_swap uninit new_size f of
                   (old, g) \<Rightarrow>
                     (let g = (if count f > 0 then g\<lparr>buf := take (count f) old @ drop (count f) (buf g)\<rparr> else g)
                      in (True, g\<lparr>head := 0\<rparr>))))
      else (False, f))"

definition writable_length :: "'a fifo \<Rightarrow> nat" where
  "writable_length f = buf_len f - count f"

definition readable_length :: "'a fifo \<Rightarrow> nat" where
  "readable_length f = count f"

definition ensure_unused_capacity :: "(nat \<Rightarrow> 'a list) \<Rightarrow> nat \<Rightarrow> 'a fifo \<Rightarrow> bool \<times> 'a fifo" where
  "ensure_unused_capacity uninit size_wanted f =
     (if writable_length f \<ge> size_wanted then (True, f)
      else if count f + size_wanted < 2 ^ 64 then ensure_total_capacity uninit (count f + size_wanted) f
      else (False, f))"

text \<open>A slice of the buffer is its first index and its length.\<close>

definition readable_range :: "nat \<Rightarrow> 'a fifo \<Rightarrow> nat \<times> nat" where
  "readable_range offset f =
     (if offset > count f then (0, 0)
      else (let start = head f + offset
            in if start \<ge> buf_len f then (start - buf_len f, count f - offset)
               else (start, min (head f + count f) (buf_len f) - start)))"

definition slice :: "nat \<times> nat \<Rightarrow> 'a list \<Rightarrow> 'a list" where
  "slice r xs = take (snd r) (drop (fst r) xs)"

definition readable_slice :: "nat \<Rightarrow> 'a fifo \<Rightarrow> 'a list" where
  "readable_slice offset f = slice (readable_range offset f) (buf f)"

text \<open>Copying into a part of the buffer.\<close>

definition overwrite :: "nat \<Rightarrow> 'a list \<Rightarrow> 'a list \<Rightarrow> 'a list" where
  "overwrite start src xs = take start xs @ src @ drop (start + length src) xs"

text \<open>An index into the ring. \<open>len - 1\<close> wraps for the empty buffer of a fifo that never grew; only \<^verbatim>\<open>discard\<close> asks for
  that, and elsewhere a build with overflow checks stops there.\<close>

definition wrap_index :: "bool \<Rightarrow> nat \<Rightarrow> nat \<Rightarrow> nat" where
  "wrap_index pow2 len i = (if pow2 then i AND (if len = 0 then 2 ^ 64 - 1 else len - 1) else i mod len)"

definition discard :: "nat \<Rightarrow> 'a fifo \<Rightarrow> 'a fifo" where
  "discard n f = f\<lparr>head := wrap_index (powers_of_two f) (buf_len f) (head f + n), count := count f - n\<rparr>"

definition read_item :: "'a fifo \<Rightarrow> 'a option \<times> 'a fifo" where
  "read_item f = (if count f = 0 then (None, f) else (Some (buf f ! head f), discard 1 f))"

text \<open>\<^verbatim>\<open>read\<close>: what is left of \<open>dst\<close> shrinks; the first list is the part of it already filled.\<close>

function read_loop :: "'a list \<Rightarrow> 'a list \<Rightarrow> 'a fifo \<Rightarrow> 'a list \<times> 'a list \<times> 'a fifo" where
  "read_loop filled dst_left f =
     (if dst_left = [] then (filled, dst_left, f)
      else (let s = readable_slice 0 f
            in if s = [] then (filled, dst_left, f)
               else (let n = min (length s) (length dst_left)
                     in read_loop (filled @ take n s) (drop n dst_left) (discard n f))))"
  by pat_completeness auto
termination
  by (relation "measure (\<lambda>(_, dst_left, _). length dst_left)") auto

definition fifo_read :: "'a list \<Rightarrow> 'a fifo \<Rightarrow> nat \<times> 'a list \<times> 'a fifo" where
  "fifo_read dst f =
     (case read_loop [] dst f of (filled, dst_left, f) \<Rightarrow> (length dst - length dst_left, filled @ dst_left, f))"

definition writable_range :: "nat \<Rightarrow> 'a fifo \<Rightarrow> nat \<times> nat" where
  "writable_range offset f =
     (if offset > buf_len f then (0, 0)
      else (let tail = head f + offset + count f
            in if tail < buf_len f then (tail, buf_len f - tail)
               else (tail - buf_len f, writable_length f - offset)))"

definition update :: "nat \<Rightarrow> 'a fifo \<Rightarrow> 'a fifo" where
  "update n f = f\<lparr>count := count f + n\<rparr>"

definition writable_with_size :: "(nat \<Rightarrow> 'a list) \<Rightarrow> nat \<Rightarrow> 'a fifo \<Rightarrow> (nat \<times> nat) option \<times> 'a fifo" where
  "writable_with_size uninit size_wanted f =
     (case ensure_unused_capacity uninit size_wanted f of
        (False, f) \<Rightarrow> (None, f)
      | (True, f) \<Rightarrow>
          (let f = (if snd (writable_range 0 f) < size_wanted then realign f else f)
           in (Some (fst (writable_range 0 f), size_wanted), f)))"

partial_function (option) write_loop :: "'a list \<Rightarrow> 'a fifo \<Rightarrow> 'a fifo option" where
  "write_loop src_left f =
     (if src_left = [] then Some f
      else (let w = writable_range 0 f; n = min (snd w) (length src_left)
            in write_loop (drop n src_left)
                 (update n (f\<lparr>buf := overwrite (fst w) (take n src_left) (buf f)\<rparr>))))"

definition write_assume_capacity :: "'a list \<Rightarrow> 'a fifo \<Rightarrow> 'a fifo option" where
  "write_assume_capacity src f = write_loop src f"

definition write_item_assume_capacity :: "'a \<Rightarrow> 'a fifo \<Rightarrow> 'a fifo" where
  "write_item_assume_capacity item f =
     (let tail = wrap_index (powers_of_two f) (buf_len f) (head f + count f)
      in update 1 (f\<lparr>buf := (buf f)[tail := item]\<rparr>))"

definition write_item :: "(nat \<Rightarrow> 'a list) \<Rightarrow> 'a \<Rightarrow> 'a fifo \<Rightarrow> bool \<times> 'a fifo" where
  "write_item uninit item f =
     (case ensure_unused_capacity uninit 1 f of
        (False, f) \<Rightarrow> (False, f)
      | (True, f) \<Rightarrow> (True, write_item_assume_capacity item f))"

definition fifo_write :: "(nat \<Rightarrow> 'a list) \<Rightarrow> 'a list \<Rightarrow> 'a fifo \<Rightarrow> (bool \<times> 'a fifo) option" where
  "fifo_write uninit src f =
     (case ensure_unused_capacity uninit (length src) f of
        (False, f) \<Rightarrow> Some (False, f)
      | (True, f) \<Rightarrow> map_option (Pair True) (write_assume_capacity src f))"

definition rewind :: "nat \<Rightarrow> 'a fifo \<Rightarrow> 'a fifo" where
  "rewind n f = f\<lparr>head := wrap_index (powers_of_two f) (buf_len f) (head f + (buf_len f - n)), count := count f + n\<rparr>"

definition unget :: "(nat \<Rightarrow> 'a list) \<Rightarrow> 'a list \<Rightarrow> 'a fifo \<Rightarrow> bool \<times> 'a fifo" where
  "unget uninit src f =
     (case ensure_unused_capacity uninit (length src) f of
        (False, f) \<Rightarrow> (False, f)
      | (True, f) \<Rightarrow>
          (let f = rewind (length src) f;
               s = readable_range 0 f;
               n = min (snd s) (length src);
               f = f\<lparr>buf := overwrite (fst s) (take n src) (buf f)\<rparr>
           in (True, if length src > snd s
                     then f\<lparr>buf := overwrite (fst (readable_range (snd s) f)) (drop (snd s) src) (buf f)\<rparr> else f)))"

definition peek_item :: "nat \<Rightarrow> 'a fifo \<Rightarrow> 'a" where
  "peek_item offset f = buf f ! wrap_index (powers_of_two f) (buf_len f) (head f + offset)"

text \<open>\<^verbatim>\<open>shift_down_one\<close> on the part of a list from an index, up to another.\<close>

definition shift_down_one :: "'a list \<Rightarrow> 'a list" where
  "shift_down_one xs = (if length xs > 1 then drop 1 xs @ drop (length xs - 1) xs else xs)"

definition shift_part :: "nat \<Rightarrow> nat \<Rightarrow> 'a list \<Rightarrow> 'a list" where
  "shift_part a b xs = take a xs @ shift_down_one (drop a (take b xs)) @ drop b xs"

definition ordered_remove_item :: "nat \<Rightarrow> 'a fifo \<Rightarrow> 'a fifo" where
  "ordered_remove_item offset f =
     (if offset = 0 then discard 1 f
      else (let b =
              (if buf_len f - head f \<ge> count f then shift_part (head f + offset) (buf_len f) (buf f)
               else (let index = wrap_index (powers_of_two f) (buf_len f) (head f + offset);
                         wrap_len = head f + count f - buf_len f
                     in if index < head f then shift_part index wrap_len (buf f)
                        else (let wrap = buf f ! 0;
                                  b = shift_part index (buf_len f) (buf f);
                                  b = b[buf_len f - 1 := wrap]
                              in shift_part 0 wrap_len b)))
            in f\<lparr>buf := b, count := count f - 1\<rparr>))"

text \<open>\<^verbatim>\<open>std::io::Write::write\<close>: a fixed buffer takes what fits.\<close>

definition io_write :: "(nat \<Rightarrow> 'a list) \<Rightarrow> 'a list \<Rightarrow> 'a fifo \<Rightarrow> (nat option \<times> 'a fifo) option" where
  "io_write uninit src f =
     (let src = (if dynamic f then src else take (min (length src) (writable_length f)) src)
      in map_option (\<lambda>(ok, f). (if ok then Some (length src) else None, f)) (fifo_write uninit src f))"

section \<open>The queue in the ring\<close>

definition items :: "'a fifo \<Rightarrow> 'a list" where
  "items f = take (count f) (rotate (head f) (buf f))"

text \<open>The lengths are below half of the address space, as all allocations are.\<close>

definition fifo_ok :: "'a fifo \<Rightarrow> bool" where
  "fifo_ok f \<longleftrightarrow> count f \<le> buf_len f \<and> (head f < buf_len f \<or> buf_len f = 0 \<and> head f = 0) \<and> buf_len f \<le> 2 ^ 63 \<and>
     (if powers_of_two f then buf_len f = 0 \<or> (\<exists>k. buf_len f = 2 ^ k) else 0 < buf_len f \<and> \<not> dynamic f)"

lemma wrap_index_mod:
  assumes "if pow2 then len = 0 \<or> (\<exists>k. len = 2 ^ k) else True" "i < 2 ^ 64"
  shows "wrap_index pow2 len i = i mod len"
proof -
  have a: "i AND (2 ^ k - 1) = i mod 2 ^ k" for k
    using take_bit_eq_mask [of k i] by (simp only: take_bit_eq_mod mask_eq_exp_minus_1)
  show ?thesis
  proof (cases "pow2 \<and> len \<noteq> 0")
    case True
    then obtain k where "len = 2 ^ k" using assms(1) by auto
    then show ?thesis using True a by (simp add: wrap_index_def)
  next
    case False
    then show ?thesis using a [of 64] assms(2) by (auto simp: wrap_index_def)
  qed
qed

text \<open>The place in the buffer of a place in the queue.\<close>

definition place :: "'a fifo \<Rightarrow> nat \<Rightarrow> nat" where
  "place f i = (if head f + i < buf_len f then head f + i else head f + i - buf_len f)"

lemma place_mod: "head f < buf_len f \<Longrightarrow> i \<le> buf_len f \<Longrightarrow> (head f + i) mod buf_len f = place f i"
  by (auto simp: place_def mod_if)

lemma wrap_place:
  assumes "fifo_ok f" "head f < buf_len f" "i \<le> buf_len f"
  shows "wrap_index (powers_of_two f) (buf_len f) (head f + i) = place f i"
proof -
  have "head f + i < 2 ^ 64" using assms by (simp add: fifo_ok_def)
  then show ?thesis using wrap_index_mod [of "powers_of_two f" "buf_len f" "head f + i"] assms place_mod
    by (simp add: fifo_ok_def split: if_splits)
qed

lemma length_items [simp]: "fifo_ok f \<Longrightarrow> length (items f) = count f"
  by (simp add: items_def fifo_ok_def buf_len_def)

lemma nth_items: "fifo_ok f \<Longrightarrow> i < count f \<Longrightarrow> items f ! i = buf f ! place f i"
  using place_mod [of f i] by (auto simp: items_def fifo_ok_def nth_rotate buf_len_def)

lemma items_eqI:
  assumes "fifo_ok f" "length xs = count f" "\<And>i. i < count f \<Longrightarrow> buf f ! place f i = xs ! i"
  shows "items f = xs"
  by (rule nth_equalityI) (use assms in \<open>simp_all add: nth_items\<close>)

lemma head_less: "fifo_ok f \<Longrightarrow> 0 < count f \<Longrightarrow> head f < buf_len f"
  by (auto simp: fifo_ok_def)

lemma place_less: "fifo_ok f \<Longrightarrow> head f < buf_len f \<Longrightarrow> i \<le> buf_len f \<Longrightarrow> place f i < buf_len f"
  by (auto simp: fifo_ok_def place_def)

lemma nth_overwrite: "p + length s \<le> length xs \<Longrightarrow> i < length xs \<Longrightarrow>
    overwrite p s xs ! i = (if p \<le> i \<and> i < p + length s then s ! (i - p) else xs ! i)"
  by (auto simp: overwrite_def nth_append)

lemma length_overwrite [simp]: "p + length s \<le> length xs \<Longrightarrow> length (overwrite p s xs) = length xs"
  by (simp add: overwrite_def)

lemma nth_slice: "fst r + snd r \<le> length xs \<Longrightarrow> i < snd r \<Longrightarrow> slice r xs ! i = xs ! (fst r + i)"
  by (simp add: slice_def)

lemma length_slice [simp]: "fst r + snd r \<le> length xs \<Longrightarrow> length (slice r xs) = snd r"
  by (simp add: slice_def)

lemma nth_shift_part: "a \<le> b \<Longrightarrow> b \<le> length xs \<Longrightarrow> i < length xs \<Longrightarrow>
    shift_part a b xs ! i = (if a \<le> i \<and> i + 1 < b then xs ! (i + 1) else xs ! i)"
  by (cases "Suc i = b"; cases "i = a"; cases "a = b") (auto simp: shift_part_def shift_down_one_def nth_append)

lemma length_shift_part [simp]: "a \<le> b \<Longrightarrow> b \<le> length xs \<Longrightarrow> length (shift_part a b xs) = length xs"
  by (auto simp: shift_part_def shift_down_one_def)

section \<open>Reading\<close>

lemma discard_ok:
  assumes "fifo_ok f" "n \<le> count f"
  shows "fifo_ok (discard n f)" "items (discard n f) = drop n (items f)"
proof -
  show ok: "fifo_ok (discard n f)"
  proof (cases "head f < buf_len f")
    case True
    then have "wrap_index (powers_of_two f) (buf_len f) (head f + n) < buf_len f"
      using wrap_place [OF assms(1) True, of n] place_less [OF assms(1) True, of n] assms by (simp add: fifo_ok_def)
    then show ?thesis using assms by (auto simp: fifo_ok_def discard_def buf_len_def)
  next
    case False
    then have z: "buf_len f = 0" "head f = 0" "count f = 0" "n = 0" using assms by (auto simp: fifo_ok_def)
    then show ?thesis using assms(1) wrap_index_mod [of "powers_of_two f" 0 0]
      by (simp add: fifo_ok_def discard_def buf_len_def split: if_splits)
  qed
  show "items (discard n f) = drop n (items f)"
  proof (rule items_eqI [OF ok])
    fix i
    assume "i < count (discard n f)"
    then have i: "n + i < count f" by (simp add: discard_def)
    then have h: "head f < buf_len f" using head_less [OF assms(1)] by simp
    have "n \<le> buf_len f" using i assms(1) by (simp add: fifo_ok_def)
    then have "place (discard n f) i = place f (n + i)"
      using wrap_place [OF assms(1) h, of n] h i assms(1) by (auto simp: place_def discard_def buf_len_def fifo_ok_def)
    then show "buf (discard n f) ! place (discard n f) i = drop n (items f) ! i"
      using i assms(1) nth_items [OF assms(1) i] by (simp add: discard_def)
  qed (use assms in \<open>simp add: discard_def\<close>)
qed

lemma readable_range_ok:
  assumes "fifo_ok f" "offset \<le> count f"
  shows "fst (readable_range offset f) + snd (readable_range offset f) \<le> buf_len f"
    "snd (readable_range offset f) \<le> count f - offset" "offset < count f \<Longrightarrow> 0 < snd (readable_range offset f)"
    "i < snd (readable_range offset f) \<Longrightarrow> fst (readable_range offset f) + i = place f (offset + i)"
  using assms by (auto simp: readable_range_def Let_def place_def fifo_ok_def)

lemma readable_slice_items:
  assumes "fifo_ok f" "offset \<le> count f"
  shows "readable_slice offset f = take (snd (readable_range offset f)) (drop offset (items f))"
proof (rule nth_equalityI)
  note r = readable_range_ok [OF assms]
  show len: "length (readable_slice offset f) = length (take (snd (readable_range offset f)) (drop offset (items f)))"
    using r(1,2) assms(1) by (simp add: readable_slice_def buf_len_def)
  show "readable_slice offset f ! i = take (snd (readable_range offset f)) (drop offset (items f)) ! i"
    if "i < length (readable_slice offset f)" for i
  proof -
    have i: "i < snd (readable_range offset f)" using that r(1) by (simp add: readable_slice_def buf_len_def)
    then have "offset + i < count f" using r(2) by simp
    then show ?thesis
      using i r(1,2) r(4) [OF i] assms nth_items [OF assms(1), of "offset + i"] by (simp add: readable_slice_def nth_slice buf_len_def)
  qed
qed

lemma readable_slice_empty: "fifo_ok f \<Longrightarrow> readable_slice 0 f = [] \<longleftrightarrow> items f = []"
  using readable_range_ok(3) [of f 0] readable_slice_items [of f 0] by (cases "count f = 0") (auto simp: items_def)

lemma read_loop_ok:
  "fifo_ok f \<Longrightarrow> \<exists>g. read_loop filled dst f = (filled @ take (length dst) (items f), drop (count f) dst, g) \<and>
    fifo_ok g \<and> items g = drop (length dst) (items f)"
proof (induction filled dst f rule: read_loop.induct)
  case (1 filled dst f)
  note ok = "1.prems"
  show ?case
  proof (cases "dst = [] \<or> items f = []")
    case True
    moreover have "items f = [] \<Longrightarrow> count f = 0" using length_items [OF ok] by simp
    ultimately show ?thesis using readable_slice_empty [OF ok] ok by (intro exI [of _ f]) (auto simp: read_loop.simps [of _ _ f])
  next
    case False
    let ?s = "readable_slice 0 f"
    let ?n = "min (length ?s) (length dst)"
    have s: "?s \<noteq> []" "?s = take (length ?s) (items f)" "length ?s \<le> count f"
      using False readable_slice_empty [OF ok] readable_slice_items [OF ok, of 0] ok by (auto simp: min_def)
    have n: "?n \<le> count f" using s(3) by simp
    note d = discard_ok [OF ok n]
    have t: "take ?n ?s = take ?n (items f)" using s(2) by (metis min.cobounded1 take_take min.absorb1)
    from "1.IH" [OF _ refl _ refl d(1)] False s(1) obtain g where
      g: "read_loop (filled @ take ?n ?s) (drop ?n dst) (discard ?n f) =
          ((filled @ take ?n ?s) @ take (length (drop ?n dst)) (items (discard ?n f)), drop (count (discard ?n f)) (drop ?n dst), g)"
        "fifo_ok g" "items g = drop (length (drop ?n dst)) (items (discard ?n f))" by blast
    have "take ?n (items f) @ take (length dst - ?n) (drop ?n (items f)) = take (length dst) (items f)"
      by (simp add: take_add [symmetric])
    moreover have "drop (count (discard ?n f)) (drop ?n dst) = drop (count f) dst" using n by (simp add: discard_def)
    moreover have "read_loop filled dst f = read_loop (filled @ take ?n ?s) (drop ?n dst) (discard ?n f)"
      using False s(1) by (subst read_loop.simps) (simp add: Let_def)
    ultimately show ?thesis using g d(2) t by (intro exI [of _ g]) simp
  qed
qed

declare read_loop.simps [simp del]

section \<open>Making room\<close>

lemma realign_ok:
  assumes "fifo_ok f"
  shows "fifo_ok (realign f)" "items (realign f) = items f" "head (realign f) = 0" "buf_len (realign f) = buf_len f"
    "count (realign f) = count f" "powers_of_two (realign f) = powers_of_two f" "dynamic (realign f) = dynamic f"
    "take (count f) (buf (realign f)) = items f"
proof -
  show l: "buf_len (realign f) = buf_len f"
    using assms by (auto simp: realign_def buf_len_def fifo_ok_def)
  show s: "head (realign f) = 0" "count (realign f) = count f" "powers_of_two (realign f) = powers_of_two f"
    "dynamic (realign f) = dynamic f" by (simp_all add: realign_def)
  show "fifo_ok (realign f)" using assms unfolding fifo_ok_def l s by auto
  show t: "take (count f) (buf (realign f)) = items f"
  proof (cases "buf_len f - head f \<ge> count f")
    case True
    then have "head f < buf_len f \<or> buf f = []" using assms by (auto simp: fifo_ok_def buf_len_def)
    then have "items f = take (count f) (drop (head f) (buf f))"
      using True by (auto simp: items_def rotate_drop_take buf_len_def)
    then show ?thesis using True by (simp add: realign_def buf_len_def)
  qed (simp add: realign_def items_def)
  then show "items (realign f) = items f" using s by (simp add: items_def)
qed

lemma power_above_ge: "n \<le> 2 ^ fuel * p \<Longrightarrow> n \<le> power_above fuel p n"
  by (induction fuel p n rule: power_above.induct) (auto simp: algebra_simps)

lemma power_above_power: "\<exists>k. power_above fuel p n = 2 ^ k * p"
proof (induction fuel p n rule: power_above.induct)
  case (2 fuel p n)
  then show ?case by (auto intro: exI [of _ 0]) (metis mult.assoc power_Suc2)
qed (auto intro: exI [of _ 0])

lemma power_above_le: "p \<le> 2 ^ m \<Longrightarrow> n \<le> 2 ^ m \<Longrightarrow> (\<exists>k. p = 2 ^ k) \<Longrightarrow> power_above fuel p n \<le> 2 ^ m"
proof (induction fuel p n rule: power_above.induct)
  case (2 fuel p n)
  show ?case
  proof (cases "n \<le> p")
    case False
    obtain k where k: "p = 2 ^ k" using "2.prems"(3) by blast
    have "p < 2 ^ m" using False "2.prems"(2) by simp
    then have "2 ^ k < (2 :: nat) ^ m" using k by simp
    then have "k < m" by (rule power_less_imp_less_exp [rotated]) simp
    then have "2 * p \<le> 2 ^ m" using k power_increasing [of "Suc k" m "2 :: nat"] by simp
    moreover have "\<exists>j. 2 * p = 2 ^ j" using k by (intro exI [of _ "Suc k"]) simp
    ultimately show ?thesis using 2 False by simp
  qed (use 2 in simp)
qed simp

lemma next_power:
  assumes "n \<le> 2 ^ 63"
  shows "\<exists>p. checked_next_power_of_two n = Some p \<and> n \<le> p \<and> p \<le> 2 ^ 63 \<and> (\<exists>k. p = 2 ^ k)"
proof -
  let ?p = "power_above 64 1 n"
  have "?p \<le> 2 ^ 63" by (rule power_above_le) (use assms in \<open>auto intro: exI [of _ 0]\<close>)
  moreover have "n \<le> ?p" by (rule power_above_ge) (use assms in simp)
  moreover have "\<exists>k. ?p = 2 ^ k" using power_above_power [of 64 1 n] by simp
  ultimately show ?thesis by (simp add: checked_next_power_of_two_def)
qed

text \<open>What a call that makes room leaves.\<close>

definition same_queue :: "'a fifo \<Rightarrow> 'a fifo \<Rightarrow> bool" where
  "same_queue f g \<longleftrightarrow> fifo_ok g \<and> items g = items f \<and> count g = count f \<and> dynamic g = dynamic f"

lemma same_queue_refl: "fifo_ok f \<Longrightarrow> same_queue f f"
  by (simp add: same_queue_def)

lemma same_queue_realign: "fifo_ok f \<Longrightarrow> same_queue f (realign f)"
  by (simp add: same_queue_def realign_ok)

definition allocator :: "(nat \<Rightarrow> 'a list) \<Rightarrow> bool" where
  "allocator uninit \<longleftrightarrow> (\<forall>n. length (uninit n) = n)"

text \<open>Allocations of more than half of the address space do not return, so the length wanted is below it.\<close>

lemma ensure_total_capacity_ok:
  assumes "fifo_ok f" "allocator uninit" "n \<le> 2 ^ 63"
  shows "\<exists>ok g. ensure_total_capacity uninit n f = (ok, g) \<and> same_queue f g \<and> (ok \<longleftrightarrow> dynamic f \<or> n \<le> buf_len f) \<and>
    (ok \<longrightarrow> n \<le> buf_len g) \<and> (\<not> dynamic f \<longrightarrow> g = f)"
proof (cases "n \<le> buf_len f \<or> \<not> dynamic f")
  case True
  then show ?thesis using same_queue_refl [OF assms(1)] by (auto simp: ensure_total_capacity_def)
next
  case False
  let ?r = "realign f"
  note r = realign_ok [OF assms(1)]
  obtain p where p: "checked_next_power_of_two n = Some p" "n \<le> p" "p \<le> 2 ^ 63" "\<exists>k. p = 2 ^ k" using next_power [OF assms(3)] by blast
  have d: "dynamic f" "powers_of_two f" "count f \<le> p" using False assms(1) p(2) by (auto simp: fifo_ok_def split: if_splits)
  define b where "b = (if count f > 0 then take (count f) (buf ?r) @ drop (count f) (uninit p) else uninit p)"
  let ?g = "?r\<lparr>buf := b, head := 0\<rparr>"
  have "count f \<le> length (buf ?r)" using r(4) assms(1) by (simp add: buf_len_def fifo_ok_def)
  then have b: "length b = p" "take (count f) b = items f"
    using r(8) d(3) assms(2) length_items [OF assms(1)] by (auto simp: b_def allocator_def)
  have e: "ensure_total_capacity uninit n f = (True, ?g)"
    using False d r p(1) by (simp add: ensure_total_capacity_def alloc_swap_def Let_def b_def)
  have "0 < p" using p(4) by auto
  then have "same_queue f ?g"
    using b d p r by (auto simp: same_queue_def fifo_ok_def buf_len_def items_def)
  then show ?thesis using e b(1) p(2) d(1) by (intro exI [of _ True] exI [of _ ?g]) (simp add: buf_len_def)
qed

lemma ensure_unused_capacity_ok:
  assumes "fifo_ok f" "allocator uninit" "count f + n \<le> 2 ^ 63"
  shows "\<exists>ok g. ensure_unused_capacity uninit n f = (ok, g) \<and> same_queue f g \<and> (ok \<longleftrightarrow> dynamic f \<or> n \<le> writable_length f) \<and>
    (ok \<longrightarrow> n \<le> writable_length g) \<and> (\<not> dynamic f \<longrightarrow> g = f)"
proof (cases "n \<le> writable_length f")
  case True
  then show ?thesis using same_queue_refl [OF assms(1)] by (auto simp: ensure_unused_capacity_def)
next
  case False
  have "count f + n < 2 ^ 64" using assms(3) by simp
  moreover obtain ok g where g: "ensure_total_capacity uninit (count f + n) f = (ok, g)" "same_queue f g"
    "ok \<longleftrightarrow> dynamic f \<or> count f + n \<le> buf_len f" "ok \<longrightarrow> count f + n \<le> buf_len g" "\<not> dynamic f \<longrightarrow> g = f"
    using ensure_total_capacity_ok [OF assms] by blast
  moreover have "count f \<le> buf_len f" using assms(1) by (simp add: fifo_ok_def)
  ultimately show ?thesis
    using False by (auto simp: ensure_unused_capacity_def writable_length_def same_queue_def)
qed

lemma init_ok:
  "fifo_ok dynamic_init" "items dynamic_init = []"
  "0 < length xs \<Longrightarrow> length xs \<le> 2 ^ 63 \<Longrightarrow> fifo_ok (static_init xs) \<and> items (static_init xs) = []"
  "fifo_ok f \<Longrightarrow> fifo_ok (reset_head_if_empty f) \<and> items (reset_head_if_empty f) = items f"
proof -
  show "fifo_ok (static_init xs) \<and> items (static_init xs) = []" if "0 < length xs" "length xs \<le> 2 ^ 63"
    using power_above_power [of 64 1 "length xs"] that
    by (auto simp: fifo_ok_def static_init_def buf_len_def items_def is_power_of_two_def)
qed (auto simp: fifo_ok_def dynamic_init_def reset_head_if_empty_def buf_len_def items_def)

section \<open>Writing\<close>

lemma fifo_ok_buf: "length b = length (buf f) \<Longrightarrow> fifo_ok (f\<lparr>buf := b\<rparr>) = fifo_ok f"
  by (simp add: fifo_ok_def buf_len_def)

lemma place_inj: "fifo_ok f \<Longrightarrow> i < buf_len f \<Longrightarrow> j < buf_len f \<Longrightarrow> place f i = place f j \<longleftrightarrow> i = j"
  by (auto simp: place_def fifo_ok_def split: if_splits)

text \<open>Items written from a place of the ring on, in one piece, after \<open>q\<close> items of the queue.\<close>

definition contiguous :: "'a fifo \<Rightarrow> nat \<Rightarrow> nat \<Rightarrow> nat \<Rightarrow> bool" where
  "contiguous f q p n \<longleftrightarrow> q + n \<le> buf_len f \<and> p + n \<le> buf_len f \<and> (\<forall>i<n. p + i = place f (q + i))"

lemma overwrite_place:
  assumes "fifo_ok f" "contiguous f q p (length src)" "i < buf_len f"
  shows "overwrite p src (buf f) ! place f i = (if q \<le> i \<and> i < q + length src then src ! (i - q) else buf f ! place f i)"
proof -
  have h: "head f < buf_len f" using assms(1,3) by (auto simp: fifo_ok_def)
  have pl: "place f i < length (buf f)" using place_less [OF assms(1) h, of i] assms(3) by (simp add: buf_len_def)
  have c: "p + length src \<le> length (buf f)" "q + length src \<le> buf_len f" "\<And>j. j < length src \<Longrightarrow> p + j = place f (q + j)"
    using assms(2) by (auto simp: contiguous_def buf_len_def)
  show ?thesis
  proof (cases "q \<le> i \<and> i < q + length src")
    case True
    then have "i - q < length src" "q + (i - q) = i" by auto
    then have e: "place f i = p + (i - q)" using c(3) [of "i - q"] by simp
    then have "p \<le> place f i \<and> place f i < p + length src" "place f i - p = i - q" using True by auto
    then show ?thesis using True nth_overwrite [OF c(1) pl] by simp
  next
    case False
    have "\<not> (p \<le> place f i \<and> place f i < p + length src)"
    proof
      assume "p \<le> place f i \<and> place f i < p + length src"
      then have "place f i = place f (q + (place f i - p))" "q + (place f i - p) < q + length src"
        using c(3) [of "place f i - p"] by auto
      then have "i = q + (place f i - p)" using place_inj [OF assms(1,3), of "q + (place f i - p)"] c(2) by simp
      then show False using False \<open>q + (place f i - p) < q + length src\<close> by linarith
    qed
    then show ?thesis using c(1) pl False nth_overwrite [OF c(1) pl] by auto
  qed
qed

lemma writable_contiguous:
  assumes "fifo_ok f"
  shows "contiguous f (count f) (fst (writable_range 0 f)) (snd (writable_range 0 f))"
    "snd (writable_range 0 f) \<le> writable_length f" "0 < writable_length f \<Longrightarrow> 0 < snd (writable_range 0 f)"
  using assms by (auto simp: contiguous_def writable_range_def Let_def writable_length_def fifo_ok_def place_def)

lemma append_in_place:
  assumes "fifo_ok f" "contiguous f (count f) p (length src)"
  shows "fifo_ok (update (length src) (f\<lparr>buf := overwrite p src (buf f)\<rparr>))"
    "items (update (length src) (f\<lparr>buf := overwrite p src (buf f)\<rparr>)) = items f @ src"
proof -
  let ?g = "update (length src) (f\<lparr>buf := overwrite p src (buf f)\<rparr>)"
  have l: "length (overwrite p src (buf f)) = length (buf f)" using assms(2) by (simp add: contiguous_def buf_len_def)
  then show ok: "fifo_ok ?g"
    using assms by (auto simp: fifo_ok_def update_def buf_len_def contiguous_def)
  show "items ?g = items f @ src"
  proof (rule items_eqI [OF ok])
    fix i
    assume "i < count ?g"
    then have i: "i < count f + length src" "i < buf_len f" using assms(2) by (auto simp: update_def contiguous_def)
    have "buf ?g ! place ?g i = overwrite p src (buf f) ! place f i" using l by (simp add: update_def place_def buf_len_def)
    also have "\<dots> = (items f @ src) ! i"
      using overwrite_place [OF assms i(2)] i(1) nth_items [OF assms(1), of i] length_items [OF assms(1)] by (auto simp: nth_append)
    finally show "buf ?g ! place ?g i = (items f @ src) ! i" .
  qed (use assms(1) in \<open>simp add: update_def\<close>)
qed

lemma contiguous_take: "contiguous f q p n \<Longrightarrow> m \<le> n \<Longrightarrow> contiguous f q p m"
  by (auto simp: contiguous_def)

lemma write_loop_ok:
  "fifo_ok f \<Longrightarrow> length src \<le> writable_length f \<Longrightarrow>
    \<exists>g. write_loop src f = Some g \<and> fifo_ok g \<and> items g = items f @ src \<and> dynamic g = dynamic f"
proof (induction "length src" arbitrary: src f rule: less_induct)
  case less
  show ?case
  proof (cases "src = []")
    case True
    then show ?thesis using less.prems(1) by (subst write_loop.simps) simp
  next
    case False
    let ?w = "writable_range 0 f"
    let ?n = "min (snd ?w) (length src)"
    let ?g = "update ?n (f\<lparr>buf := overwrite (fst ?w) (take ?n src) (buf f)\<rparr>)"
    note w = writable_contiguous [OF less.prems(1)]
    have len: "length (take ?n src) = ?n" by simp
    have c: "contiguous f (count f) (fst ?w) (length (take ?n src))" by (rule contiguous_take [OF w(1)]) simp
    note g = append_in_place [OF less.prems(1) c, unfolded len]
    have "0 < length src" using False by simp
    then have n: "0 < ?n" using less.prems(2) w(3) by linarith
    then have "length (drop ?n src) < length src" using False by simp
    moreover have "buf_len ?g = buf_len f" using c by (simp add: update_def buf_len_def contiguous_def)
    then have "length (drop ?n src) \<le> writable_length ?g" using less.prems(2) by (simp add: writable_length_def update_def)
    ultimately obtain h where "write_loop (drop ?n src) ?g = Some h" "fifo_ok h" "items h = items ?g @ drop ?n src" "dynamic h = dynamic ?g"
      using less.hyps [of "drop ?n src" ?g] g(1) by blast
    moreover have "write_loop src f = write_loop (drop ?n src) ?g" using False by (subst write_loop.simps) (simp add: Let_def)
    ultimately show ?thesis using g(2) by (simp add: update_def)
  qed
qed

lemma write_ok:
  assumes "fifo_ok f" "allocator uninit" "count f + length src \<le> 2 ^ 63"
  shows "\<exists>ok g. fifo_write uninit src f = Some (ok, g) \<and> fifo_ok g \<and> dynamic g = dynamic f \<and>
    (ok \<longleftrightarrow> dynamic f \<or> length src \<le> writable_length f) \<and> items g = items f @ (if ok then src else [])"
proof -
  obtain ok g where g: "ensure_unused_capacity uninit (length src) f = (ok, g)" "same_queue f g"
    "ok \<longleftrightarrow> dynamic f \<or> length src \<le> writable_length f" "ok \<longrightarrow> length src \<le> writable_length g"
    using ensure_unused_capacity_ok [OF assms] by blast
  show ?thesis
  proof (cases ok)
    case True
    then obtain h where "write_loop src g = Some h" "fifo_ok h" "items h = items g @ src" "dynamic h = dynamic g"
      using write_loop_ok [of g src] g(2,4) by (auto simp: same_queue_def)
    then show ?thesis using True g by (auto simp: fifo_write_def write_assume_capacity_def same_queue_def)
  next
    case False
    then show ?thesis using g by (auto simp: fifo_write_def same_queue_def)
  qed
qed

lemma write_item_ok:
  assumes "fifo_ok f" "allocator uninit" "count f + 1 \<le> 2 ^ 63"
  shows "\<exists>ok g. write_item uninit x f = (ok, g) \<and> fifo_ok g \<and> dynamic g = dynamic f \<and>
    (ok \<longleftrightarrow> dynamic f \<or> 1 \<le> writable_length f) \<and> items g = items f @ (if ok then [x] else [])"
proof -
  obtain ok g where g: "ensure_unused_capacity uninit 1 f = (ok, g)" "same_queue f g"
    "ok \<longleftrightarrow> dynamic f \<or> 1 \<le> writable_length f" "ok \<longrightarrow> 1 \<le> writable_length g"
    using ensure_unused_capacity_ok [OF assms(1,2), of 1] assms(3) by blast
  show ?thesis
  proof (cases ok)
    case True
    let ?t = "place g (count g)"
    have gok: "fifo_ok g" and room: "count g < buf_len g" using True g(2,4) by (auto simp: same_queue_def writable_length_def)
    have h: "head g < buf_len g" using gok room by (auto simp: fifo_ok_def)
    have t: "?t < buf_len g" using place_less [OF gok h] room by simp
    have "contiguous g (count g) ?t (length [x])" using room t by (simp add: contiguous_def)
    note a = append_in_place [OF gok this]
    have "overwrite ?t [x] (buf g) = (buf g)[?t := x]"
      using t by (simp add: overwrite_def upd_conv_take_nth_drop buf_len_def)
    then have "write_item_assume_capacity x g = update (length [x]) (g\<lparr>buf := overwrite ?t [x] (buf g)\<rparr>)"
      using wrap_place [OF gok h, of "count g"] room by (simp add: write_item_assume_capacity_def)
    then show ?thesis using True g a by (auto simp: write_item_def same_queue_def update_def)
  next
    case False
    then show ?thesis using g by (auto simp: write_item_def same_queue_def)
  qed
qed

lemma writable_with_size_ok:
  assumes "fifo_ok f" "allocator uninit" "count f + n \<le> 2 ^ 63"
  shows "\<exists>r g. writable_with_size uninit n f = (r, g) \<and> same_queue f g \<and> (r \<noteq> None \<longleftrightarrow> dynamic f \<or> n \<le> writable_length f) \<and>
    (\<forall>p m. r = Some (p, m) \<longrightarrow> m = n \<and> contiguous g (count g) p n)"
proof -
  obtain ok g where g: "ensure_unused_capacity uninit n f = (ok, g)" "same_queue f g"
    "ok \<longleftrightarrow> dynamic f \<or> n \<le> writable_length f" "ok \<longrightarrow> n \<le> writable_length g"
    using ensure_unused_capacity_ok [OF assms] by blast
  show ?thesis
  proof (cases ok)
    case True
    let ?h = "if snd (writable_range 0 g) < n then realign g else g"
    have gok: "fifo_ok g" using g(2) by (simp add: same_queue_def)
    note r = realign_ok [OF gok]
    have h: "same_queue f ?h" using g(2) same_queue_realign [OF gok] by (auto simp: same_queue_def)
    have "snd (writable_range 0 (realign g)) = writable_length g" using gok r(3-5)
      by (auto simp: writable_range_def Let_def writable_length_def fifo_ok_def)
    then have "n \<le> snd (writable_range 0 ?h)" using True g(4) by auto
    then have "contiguous ?h (count ?h) (fst (writable_range 0 ?h)) n"
      by (rule contiguous_take [OF writable_contiguous(1), rotated]) (use h in \<open>simp only: same_queue_def\<close>)
    then show ?thesis using True g(1,3) h by (simp add: writable_with_size_def Let_def)
  next
    case False
    then show ?thesis using g by (auto simp: writable_with_size_def)
  qed
qed

section \<open>Putting back and taking out\<close>

lemma rewind_ok:
  assumes "fifo_ok f" "n \<le> writable_length f"
  shows "fifo_ok (rewind n f)" "drop n (items (rewind n f)) = items f" "buf_len (rewind n f) = buf_len f" "buf (rewind n f) = buf f"
    "n \<le> count (rewind n f)"
proof -
  show "buf_len (rewind n f) = buf_len f" "buf (rewind n f) = buf f" "n \<le> count (rewind n f)" by (simp_all add: rewind_def buf_len_def)
  have n: "n \<le> buf_len f" "count f + n \<le> buf_len f" using assms by (auto simp: writable_length_def fifo_ok_def)
  show ok: "fifo_ok (rewind n f)"
  proof (cases "head f < buf_len f")
    case True
    have "wrap_index (powers_of_two f) (buf_len f) (head f + (buf_len f - n)) < buf_len f"
      using wrap_place [OF assms(1) True, of "buf_len f - n"] place_less [OF assms(1) True, of "buf_len f - n"] by simp
    then show ?thesis using assms(1) n by (auto simp: fifo_ok_def rewind_def buf_len_def)
  next
    case False
    then have "buf_len f = 0" "head f = 0" "count f = 0" "n = 0" using assms(1) n by (auto simp: fifo_ok_def)
    then show ?thesis using assms(1) wrap_index_mod [of "powers_of_two f" 0 0]
      by (simp add: fifo_ok_def rewind_def buf_len_def split: if_splits)
  qed
  show "drop n (items (rewind n f)) = items f"
  proof (rule sym, rule items_eqI [OF assms(1)])
    fix i
    assume i: "i < count f"
    have h: "head f < buf_len f" using head_less [OF assms(1)] i by simp
    have "place (rewind n f) (n + i) = place f i"
      using wrap_place [OF assms(1) h, of "buf_len f - n"] h i n by (auto simp: place_def rewind_def buf_len_def)
    moreover have "count (rewind n f) = count f + n" "buf (rewind n f) = buf f" by (simp_all add: rewind_def)
    ultimately show "buf f ! place f i = drop n (items (rewind n f)) ! i"
      using nth_items [OF ok, of "n + i"] length_items [OF ok] i by simp
  qed (use ok in \<open>simp add: rewind_def\<close>)
qed

lemma readable_contiguous:
  assumes "fifo_ok f" "offset \<le> count f"
  shows "contiguous f offset (fst (readable_range offset f)) (snd (readable_range offset f))"
  using readable_range_ok(1,2,4) [OF assms] assms by (auto simp: contiguous_def fifo_ok_def)

lemma items_overwrite:
  assumes "fifo_ok f" "contiguous f q p (length src)" "q + length src \<le> count f"
  shows "fifo_ok (f\<lparr>buf := overwrite p src (buf f)\<rparr>)" "items (f\<lparr>buf := overwrite p src (buf f)\<rparr>) = overwrite q src (items f)"
proof -
  let ?g = "f\<lparr>buf := overwrite p src (buf f)\<rparr>"
  have l: "length (overwrite p src (buf f)) = length (buf f)" using assms(2) by (simp add: contiguous_def buf_len_def)
  then show ok: "fifo_ok ?g" using fifo_ok_buf assms(1) by blast
  show "items ?g = overwrite q src (items f)"
  proof (rule items_eqI [OF ok])
    fix i
    assume "i < count ?g"
    then have i: "i < count f" "i < buf_len f" using assms(1) by (auto simp: fifo_ok_def)
    have "place ?g i = place f i" using l by (simp add: place_def buf_len_def)
    then show "buf ?g ! place ?g i = overwrite q src (items f) ! i"
      using overwrite_place [OF assms(1,2) i(2)] nth_items [OF assms(1) i(1)] i(1) assms(1,3) by (simp add: nth_overwrite)
  qed (use assms in simp)
qed

text \<open>The two copies of \<^verbatim>\<open>unget\<close>.\<close>

lemma overwrite_two: "n \<le> length src \<Longrightarrow> length src \<le> length xs \<Longrightarrow>
    overwrite n (drop n src) (overwrite 0 (take n src) xs) = src @ drop (length src) xs"
  by (simp add: overwrite_def)

lemma readable_range_buf: "length b = length (buf f) \<Longrightarrow> readable_range n (f\<lparr>buf := b\<rparr>) = readable_range n f"
  by (simp add: readable_range_def buf_len_def Let_def)

lemma unget_ok:
  assumes "fifo_ok f" "allocator uninit" "count f + length src \<le> 2 ^ 63"
  shows "\<exists>ok g. unget uninit src f = (ok, g) \<and> fifo_ok g \<and> dynamic g = dynamic f \<and>
    (ok \<longleftrightarrow> dynamic f \<or> length src \<le> writable_length f) \<and> items g = (if ok then src else []) @ items f"
proof -
  obtain ok g where g: "ensure_unused_capacity uninit (length src) f = (ok, g)" "same_queue f g"
    "ok \<longleftrightarrow> dynamic f \<or> length src \<le> writable_length f" "ok \<longrightarrow> length src \<le> writable_length g"
    using ensure_unused_capacity_ok [OF assms] by blast
  show ?thesis
  proof (cases ok)
    case True
    let ?r = "rewind (length src) g"
    have gok: "fifo_ok g" and room: "length src \<le> writable_length g" using g(2,4) True by (auto simp: same_queue_def)
    note r = rewind_ok [OF gok room]
    let ?s = "readable_range 0 ?r"
    let ?n = "min (snd ?s) (length src)"
    let ?h = "?r\<lparr>buf := overwrite (fst ?s) (take ?n src) (buf ?r)\<rparr>"
    have c: "contiguous ?r 0 (fst ?s) (length (take ?n src))"
      using contiguous_take [OF readable_contiguous [OF r(1), of 0]] by simp
    have h: "fifo_ok ?h" "items ?h = overwrite 0 (take ?n src) (items ?r)"
      using items_overwrite [OF r(1) c] r(5) by auto
    have le: "length src \<le> length (items ?r)" using r(1,5) by simp
    have d: "dynamic ?h = dynamic f" using g(2) by (simp add: rewind_def same_queue_def)
    show ?thesis
    proof (cases "snd ?s < length src")
      case False
      then have "items ?h = src @ drop (length src) (items ?r)" using h(2) le by (simp add: overwrite_def)
      then have "items ?h = src @ items f" using r(2) g(2) by (simp add: same_queue_def)
      then show ?thesis using False True g(1,3) h(1) d by (intro exI [of _ True] exI [of _ ?h]) (simp add: unget_def Let_def)
    next
      case short: True
      then have n: "?n = snd ?s" by simp
      let ?t = "readable_range (snd ?s) ?h"
      have rng: "?t = readable_range (snd ?s) ?r"
        by (rule readable_range_buf) (use c in \<open>simp add: buf_len_def contiguous_def\<close>)
      have s: "snd ?s \<le> count ?h" "snd ?s = count ?r \<or> fst ?s + snd ?s = buf_len ?r" using short r(1,5)
        by (auto simp: readable_range_def Let_def fifo_ok_def min_def split: if_splits)
      have "count ?r - snd ?s \<le> snd ?t" unfolding rng using s r(1,5) short
        by (auto simp: readable_range_def Let_def fifo_ok_def split: if_splits)
      then have "length (drop (snd ?s) src) \<le> snd ?t" using r(5) by simp
      then have c2: "contiguous ?h (snd ?s) (fst ?t) (length (drop (snd ?s) src))"
        using contiguous_take [OF readable_contiguous [OF h(1) s(1)]] by blast
      let ?k = "?h\<lparr>buf := overwrite (fst ?t) (drop (snd ?s) src) (buf ?h)\<rparr>"
      have "snd ?s + length (drop (snd ?s) src) \<le> count ?h" using short r(5) by simp
      note k = items_overwrite [OF h(1) c2 this]
      have "items ?k = src @ drop (length src) (items ?r)"
        using k(2) h(2) n overwrite_two [of "snd ?s" src "items ?r"] short le by simp
      then have "items ?k = src @ items f" using r(2) g(2) by (simp add: same_queue_def)
      then show ?thesis using short True g(1,3) k(1) d by (intro exI [of _ True] exI [of _ ?k]) (simp add: unget_def Let_def)
    qed
  next
    case False
    then show ?thesis using g by (auto simp: unget_def same_queue_def)
  qed
qed

lemma peek_item_ok:
  assumes "fifo_ok f" "i < count f"
  shows "peek_item i f = items f ! i"
proof -
  have "head f < buf_len f" "i \<le> buf_len f" using assms by (auto simp: fifo_ok_def)
  then show ?thesis using wrap_place [OF assms(1)] nth_items [OF assms] by (simp add: peek_item_def)
qed

lemma read_item_ok:
  assumes "fifo_ok f"
  shows "read_item f = (if items f = [] then (None, f) else (Some (hd (items f)), discard 1 f))"
proof (cases "count f = 0")
  case False
  then have "hd (items f) = buf f ! head f"
    using nth_items [OF assms, of 0] head_less [OF assms] length_items [OF assms] by (simp add: hd_conv_nth place_def flip: length_greater_0_conv)
  then show ?thesis using False length_items [OF assms] by (auto simp: read_item_def)
qed (simp add: read_item_def items_def)

lemma ordered_remove_ok:
  assumes "fifo_ok f" "offset < count f"
  shows "fifo_ok (ordered_remove_item offset f)"
    "items (ordered_remove_item offset f) = take offset (items f) @ drop (Suc offset) (items f)"
proof -
  have "fifo_ok (ordered_remove_item offset f) \<and>
    items (ordered_remove_item offset f) = take offset (items f) @ drop (Suc offset) (items f)"
  proof (cases "offset = 0")
    case True
    then show ?thesis using discard_ok [OF assms(1), of 1] assms(2) by (simp add: ordered_remove_item_def)
  next
    case False
    let ?g = "ordered_remove_item offset f"
    have h: "head f < buf_len f" "count f \<le> buf_len f" using head_less [OF assms(1)] assms by (auto simp: fifo_ok_def)
    have idx: "wrap_index (powers_of_two f) (buf_len f) (head f + offset) = place f offset"
      using wrap_place [OF assms(1) h(1), of offset] assms(2) h(2) by simp
    have b: "length (buf ?g) = length (buf f) \<and> (\<forall>i<count f - 1. buf ?g ! place f i = buf f ! place f (if i < offset then i else Suc i))"
    proof (cases "buf_len f - head f \<ge> count f")
      case True
      then have e: "buf ?g = shift_part (head f + offset) (buf_len f) (buf f)" using False by (simp add: ordered_remove_item_def)
      show ?thesis unfolding e using True h assms(2) by (auto simp: place_def buf_len_def nth_shift_part)
    next
      case wraps: False
      let ?w = "head f + count f - buf_len f"
      show ?thesis
      proof (cases "place f offset < head f")
        case True
        then have e: "buf ?g = shift_part (place f offset) ?w (buf f)"
          using False wraps idx by (simp add: ordered_remove_item_def Let_def)
        have p: "place f offset = head f + offset - buf_len f" "buf_len f \<le> head f + offset" using True by (auto simp: place_def split: if_splits)
        show ?thesis unfolding e p(1) using p wraps h assms(2) by (auto simp: place_def buf_len_def nth_shift_part Suc_diff_le)
      next
        case False': False
        then have p: "place f offset = head f + offset" "head f + offset < buf_len f" using h assms(2) by (auto simp: place_def split: if_splits)
        let ?b = "(shift_part (head f + offset) (buf_len f) (buf f))[buf_len f - 1 := buf f ! 0]"
        have e: "buf ?g = shift_part 0 ?w ?b"
          using False wraps idx False' p by (simp add: ordered_remove_item_def Let_def)
        have l: "length ?b = length (buf f)" using p by (simp add: buf_len_def)
        show ?thesis unfolding e using p wraps h assms(2) l
          by (auto simp: place_def buf_len_def nth_shift_part nth_list_update Suc_diff_le)
      qed
    qed
    have g: "head ?g = head f" "count ?g = count f - 1" "powers_of_two ?g = powers_of_two f" "dynamic ?g = dynamic f"
      using False by (simp_all add: ordered_remove_item_def Let_def)
    have ok: "fifo_ok ?g" using assms(1) b g by (auto simp: fifo_ok_def buf_len_def)
    have "items ?g = take offset (items f) @ drop (Suc offset) (items f)"
    proof (rule items_eqI [OF ok])
      fix i
      assume "i < count ?g"
      then have i: "i < count f - 1" using g(2) by simp
      then show "buf ?g ! place ?g i = (take offset (items f) @ drop (Suc offset) (items f)) ! i"
        using b g assms nth_items [OF assms(1), of "if i < offset then i else Suc i"]
        by (auto simp: place_def buf_len_def nth_append)
    qed (use assms g(2) in auto)
    then show ?thesis using ok by blast
  qed
  then show "fifo_ok (ordered_remove_item offset f)"
    "items (ordered_remove_item offset f) = take offset (items f) @ drop (Suc offset) (items f)" by simp_all
qed

section \<open>A stream\<close>

text \<open>What the readers and writers of a stream ask of a queue of bytes.\<close>

locale stream_queue =
  fixes inv :: "'q \<Rightarrow> bool" and contents :: "'q \<Rightarrow> 'a list"
    and put :: "'a list \<Rightarrow> 'q \<Rightarrow> (bool \<times> 'q) option" and take_out :: "'a list \<Rightarrow> 'q \<Rightarrow> nat \<times> 'a list \<times> 'q"
    and room :: "nat \<Rightarrow> 'q \<Rightarrow> bool"
  assumes put_appends: "inv q \<Longrightarrow> room (length xs) q \<Longrightarrow>
      \<exists>ok q'. put xs q = Some (ok, q') \<and> inv q' \<and> contents q' = contents q @ (if ok then xs else [])"
    and take_out_first: "inv q \<Longrightarrow> \<exists>q'. take_out dst q =
      (min (length dst) (length (contents q)), take (length dst) (contents q) @ drop (length (contents q)) dst, q') \<and>
      inv q' \<and> contents q' = drop (length dst) (contents q)"
    and room_contents: "room n q \<longleftrightarrow> length (contents q) + n \<le> 2 ^ 63"

datatype 'a stream_op = Put "'a list" | Take "'a list"

text \<open>A run of writes and reads: what was accepted, and what came out.\<close>

fun run_stream :: "('a list \<Rightarrow> 'q \<Rightarrow> (bool \<times> 'q) option) \<Rightarrow> ('a list \<Rightarrow> 'q \<Rightarrow> nat \<times> 'a list \<times> 'q) \<Rightarrow> 'a stream_op list \<Rightarrow> 'q \<Rightarrow>
    ('a list \<times> 'a list \<times> 'q) option" where
  "run_stream put take_out [] q = Some ([], [], q)"
| "run_stream put take_out (Put xs # ops) q =
     (case put xs q of
        None \<Rightarrow> None
      | Some (ok, q) \<Rightarrow> map_option (\<lambda>(w, r, q). ((if ok then xs else []) @ w, r, q)) (run_stream put take_out ops q))"
| "run_stream put take_out (Take dst # ops) q =
     (case take_out dst q of
        (n, dst, q) \<Rightarrow> map_option (\<lambda>(w, r, q). (w, take n dst @ r, q)) (run_stream put take_out ops q))"

fun stream_size :: "'a stream_op list \<Rightarrow> nat" where
  "stream_size [] = 0"
| "stream_size (Put xs # ops) = length xs + stream_size ops"
| "stream_size (Take dst # ops) = stream_size ops"

context stream_queue
begin

lemma run_keeps_order:
  "inv q \<Longrightarrow> length (contents q) + stream_size ops \<le> 2 ^ 63 \<Longrightarrow>
    \<exists>w r q'. run_stream put take_out ops q = Some (w, r, q') \<and> inv q' \<and> contents q @ w = r @ contents q'"
proof (induction ops arbitrary: q)
  case (Cons op ops)
  show ?case
  proof (cases op)
    case (Put xs)
    then have "room (length xs) q" using Cons.prems(2) by (simp add: room_contents)
    then obtain ok p where p: "put xs q = Some (ok, p)" "inv p" "contents p = contents q @ (if ok then xs else [])"
      using put_appends [OF Cons.prems(1)] by blast
    have "length (contents p) + stream_size ops \<le> 2 ^ 63" using Cons.prems(2) p(3) Put by auto
    then obtain w r q' where "run_stream put take_out ops p = Some (w, r, q')" "inv q'" "contents p @ w = r @ contents q'"
      using Cons.IH [OF p(2)] by blast
    then show ?thesis using p Put by simp
  next
    case (Take dst)
    obtain p where p: "take_out dst q =
      (min (length dst) (length (contents q)), take (length dst) (contents q) @ drop (length (contents q)) dst, p)"
      "inv p" "contents p = drop (length dst) (contents q)" using take_out_first [OF Cons.prems(1)] by blast
    have "length (contents p) + stream_size ops \<le> 2 ^ 63" using Cons.prems(2) p(3) Take by simp
    then obtain w r q' where q: "run_stream put take_out ops p = Some (w, r, q')" "inv q'" "contents p @ w = r @ contents q'"
      using Cons.IH [OF p(2)] by blast
    have "contents q @ w = take (length dst) (contents q) @ r @ contents q'" using q(3) p(3) by (metis append.assoc append_take_drop_id)
    then show ?thesis using p(1) q(1,2) Take by (auto simp: min_def)
  qed
qed simp

end

interpretation ring: stream_queue "\<lambda>f. allocator uninit \<and> fifo_ok f" items "fifo_write uninit" fifo_read
    "\<lambda>n f. length (items f) + n \<le> 2 ^ 63" for uninit :: "nat \<Rightarrow> 'a list"
proof
  show "\<exists>ok q'. fifo_write uninit xs q = Some (ok, q') \<and> (allocator uninit \<and> fifo_ok q') \<and> items q' = items q @ (if ok then xs else [])"
    if h: "allocator uninit \<and> fifo_ok q" "length (items q) + length xs \<le> 2 ^ 63" for q :: "'a fifo" and xs
  proof -
    have "fifo_ok q" "allocator uninit" "count q + length xs \<le> 2 ^ 63" using h by simp_all
    from write_ok [OF this] h(1) show ?thesis by (elim exE conjE) (intro exI conjI, assumption+)
  qed
  show "\<exists>q'. fifo_read dst q = (min (length dst) (length (items q)), take (length dst) (items q) @ drop (length (items q)) dst, q') \<and>
      (allocator uninit \<and> fifo_ok q') \<and> items q' = drop (length dst) (items q)"
    if h: "allocator uninit \<and> fifo_ok q" for q :: "'a fifo" and dst
  proof -
    have ok: "fifo_ok q" using h by simp
    obtain g where "read_loop [] dst q = ([] @ take (length dst) (items q), drop (count q) dst, g)" "fifo_ok g"
      "items g = drop (length dst) (items q)" using read_loop_ok [OF ok, of "[]" dst] by (elim exE conjE)
    then show ?thesis using h length_items [OF ok] by (simp add: fifo_read_def)
  qed
qed simp

section \<open>The properties\<close>

text \<open>C18: The ring is a queue: on every ring that is well formed, whether it wraps or not, each operation does to the
  queue of its items what it does to a list, and keeps the ring well formed. \<^verbatim>\<open>read\<close> gives the first items,
  \<^verbatim>\<open>discard\<close> drops them, \<^verbatim>\<open>write\<close> and \<^verbatim>\<open>write_item\<close> append, \<^verbatim>\<open>unget\<close> puts back in front, \<^verbatim>\<open>peek_item\<close> reads
  by index, \<^verbatim>\<open>ordered_remove_item\<close> takes one item out, and \<^verbatim>\<open>realign\<close> moves the items and changes nothing. A
  growing buffer accepts everything, a fixed one exactly what fits, and a write that is refused changes nothing.\<close>

theorem fifo_refines_queue:
  assumes "fifo_ok f" "allocator uninit"
  shows "(\<forall>dst. \<exists>g. fifo_read dst f = (min (length dst) (count f), take (length dst) (items f) @ drop (count f) dst, g) \<and>
        fifo_ok g \<and> items g = drop (length dst) (items f)) \<and>
    (\<forall>n\<le>count f. fifo_ok (discard n f) \<and> items (discard n f) = drop n (items f)) \<and>
    read_item f = (if items f = [] then (None, f) else (Some (hd (items f)), discard 1 f)) \<and>
    (\<forall>src. count f + length src \<le> 2 ^ 63 \<longrightarrow> (\<exists>ok g. fifo_write uninit src f = Some (ok, g) \<and> fifo_ok g \<and>
        (ok \<longleftrightarrow> dynamic f \<or> length src \<le> writable_length f) \<and> items g = items f @ (if ok then src else []))) \<and>
    (\<forall>x. count f + 1 \<le> 2 ^ 63 \<longrightarrow> (\<exists>ok g. write_item uninit x f = (ok, g) \<and> fifo_ok g \<and>
        (ok \<longleftrightarrow> dynamic f \<or> 1 \<le> writable_length f) \<and> items g = items f @ (if ok then [x] else []))) \<and>
    (\<forall>src. count f + length src \<le> 2 ^ 63 \<longrightarrow> (\<exists>ok g. unget uninit src f = (ok, g) \<and> fifo_ok g \<and>
        (ok \<longleftrightarrow> dynamic f \<or> length src \<le> writable_length f) \<and> items g = (if ok then src else []) @ items f)) \<and>
    (\<forall>i<count f. peek_item i f = items f ! i \<and> fifo_ok (ordered_remove_item i f) \<and>
        items (ordered_remove_item i f) = take i (items f) @ drop (Suc i) (items f)) \<and>
    fifo_ok (realign f) \<and> items (realign f) = items f"
proof (intro conjI allI impI)
  show "\<exists>g. fifo_read dst f = (min (length dst) (count f), take (length dst) (items f) @ drop (count f) dst, g) \<and>
      fifo_ok g \<and> items g = drop (length dst) (items f)" for dst
    using ring.take_out_first [OF conjI [OF assms(2,1)], of dst] length_items [OF assms(1)] by (elim exE) simp
qed (use discard_ok [OF assms(1)] read_item_ok [OF assms(1)] write_ok [OF assms] write_item_ok [OF assms] unget_ok [OF assms]
    peek_item_ok [OF assms(1)] ordered_remove_ok [OF assms(1)] realign_ok(1,2) [OF assms(1)] in \<open>blast | simp\<close>)+

text \<open>C19: Nothing is lost, added or reordered in a stream through the ring: over any sequence of writes and reads, which
  always return, the items that were in the ring followed by the accepted writes are the items that were read
  followed by the items left.\<close>

theorem stream_keeps_order:
  assumes "fifo_ok f" "allocator uninit" "count f + stream_size ops \<le> 2 ^ 63"
  shows "\<exists>w r g. run_stream (fifo_write uninit) fifo_read ops f = Some (w, r, g) \<and> fifo_ok g \<and> items f @ w = r @ items g"
proof -
  have "length (items f) + stream_size ops \<le> 2 ^ 63" using assms(1,3) by simp
  from ring.run_keeps_order [OF conjI [OF assms(2,1)] this] show ?thesis
    by (elim exE conjE) (intro exI conjI, assumption+)
qed

text \<open>C20: Every slice the ring hands out is inside its buffer: a readable slice from an offset is the first piece of
  the queue from there, and not empty if there is any; the slice to write into is as long as was asked for, and what
  is written there and then made known by \<^verbatim>\<open>update\<close> is appended to the queue.\<close>

theorem slices_in_bounds:
  assumes "fifo_ok f" "allocator uninit" "count f + length src \<le> 2 ^ 63"
  shows "(\<forall>offset\<le>count f. (case readable_range offset f of (start, n) \<Rightarrow> start + n \<le> buf_len f \<and>
        readable_slice offset f = take n (drop offset (items f)) \<and> (offset < count f \<longrightarrow> 0 < n))) \<and>
    (\<exists>r g. writable_with_size uninit (length src) f = (r, g) \<and> items g = items f \<and>
      (r \<noteq> None \<longleftrightarrow> dynamic f \<or> length src \<le> writable_length f) \<and>
      (\<forall>p n. r = Some (p, n) \<longrightarrow> n = length src \<and> p + n \<le> buf_len g \<and>
        items (update n (g\<lparr>buf := overwrite p src (buf g)\<rparr>)) = items f @ src))"
proof (intro conjI allI impI)
  show "case readable_range offset f of (start, n) \<Rightarrow> start + n \<le> buf_len f \<and>
      readable_slice offset f = take n (drop offset (items f)) \<and> (offset < count f \<longrightarrow> 0 < n)" if "offset \<le> count f" for offset
    using readable_range_ok(1,3) [OF assms(1) that] readable_slice_items [OF assms(1) that] by (simp add: case_prod_beta)
  obtain r g where g: "writable_with_size uninit (length src) f = (r, g)" "same_queue f g"
    "r \<noteq> None \<longleftrightarrow> dynamic f \<or> length src \<le> writable_length f"
    "\<forall>p m. r = Some (p, m) \<longrightarrow> m = length src \<and> contiguous g (count g) p (length src)"
    using writable_with_size_ok [OF assms] by (elim exE conjE)
  have "n = length src \<and> p + n \<le> buf_len g \<and> items (update n (g\<lparr>buf := overwrite p src (buf g)\<rparr>)) = items f @ src"
    if "r = Some (p, n)" for p n
    using that g(2,4) append_in_place(2) [of g p src] by (auto simp: same_queue_def contiguous_def)
  then show "\<exists>r g. writable_with_size uninit (length src) f = (r, g) \<and> items g = items f \<and>
      (r \<noteq> None \<longleftrightarrow> dynamic f \<or> length src \<le> writable_length f) \<and>
      (\<forall>p n. r = Some (p, n) \<longrightarrow> n = length src \<and> p + n \<le> buf_len g \<and>
        items (update n (g\<lparr>buf := overwrite p src (buf g)\<rparr>)) = items f @ src)"
    using g(1-3) by (intro exI [of _ r] exI [of _ g]) (simp add: same_queue_def)
qed

text \<open>A ring of four places that wraps: the queue is 7, 8, 9.\<close>

definition sample_ring :: "nat fifo" where
  "sample_ring = \<lparr>buf = [8, 9, 0, 7], head = 3, count = 3, powers_of_two = True, dynamic = True\<rparr>"

lemma sample_ring_ok: "fifo_ok sample_ring" "items sample_ring = [7, 8, 9]"
proof -
  show "fifo_ok sample_ring" by (auto simp: fifo_ok_def sample_ring_def buf_len_def intro: exI [of _ 2])
  show "items sample_ring = [7, 8, 9]" by code_simp
qed

definition zeroes :: "nat \<Rightarrow> nat list" where
  "zeroes n = replicate n 0"

lemma zeroes_allocator: "allocator zeroes"
  by (simp add: allocator_def zeroes_def)

lemma fifo_refines_queue_witness:
  "peek_item 2 sample_ring = 9 \<and> items (ordered_remove_item 1 sample_ring) = [7, 9] \<and>
   (\<exists>g. fifo_write zeroes [1, 2, 3] sample_ring = Some (True, g) \<and> items g = [7, 8, 9, 1, 2, 3])"
proof -
  have c: "count sample_ring = 3" "dynamic sample_ring" by (simp_all add: sample_ring_def)
  note r = fifo_refines_queue [OF sample_ring_ok(1) zeroes_allocator, unfolded sample_ring_ok(2) c(1)]
  have "peek_item 2 sample_ring = 9 \<and> items (ordered_remove_item 1 sample_ring) = [7, 9]" using r by simp
  moreover have "\<exists>g. fifo_write zeroes [1, 2, 3] sample_ring = Some (True, g) \<and> items g = [7, 8, 9, 1, 2, 3]"
    using r [THEN conjunct2, THEN conjunct2, THEN conjunct2, THEN conjunct1, rule_format, of "[1, 2, 3]"] c(2) by auto
  ultimately show ?thesis by blast
qed

lemma stream_keeps_order_witness:
  "\<exists>w r g. run_stream (fifo_write zeroes) fifo_read [Take [0, 0], Put [1, 2], Take [0]] sample_ring = Some (w, r, g) \<and>
    [7, 8, 9] @ w = r @ items g"
  using stream_keeps_order [OF sample_ring_ok(1) zeroes_allocator, of "[Take [0, 0], Put [1, 2], Take [0]]"] sample_ring_ok(2)
  by (auto simp: sample_ring_def)

lemma slices_in_bounds_witness:
  "readable_slice 0 sample_ring = [7] \<and> readable_slice 1 sample_ring = [8, 9] \<and>
   (\<exists>p n g. writable_with_size zeroes 5 sample_ring = (Some (p, n), g) \<and> p + n \<le> buf_len g)"
proof -
  have c: "count sample_ring = 3" "dynamic sample_ring" by (simp_all add: sample_ring_def)
  have e: "readable_range 0 sample_ring = (3, 1)" "readable_range (Suc 0) sample_ring = (0, 2)" by code_simp+
  have b: "count sample_ring + length (replicate 5 (0 :: nat)) \<le> 2 ^ 63" using c by simp
  note r = slices_in_bounds [OF sample_ring_ok(1) zeroes_allocator b, unfolded sample_ring_ok(2)]
  have "readable_slice 0 sample_ring = [7]" "readable_slice 1 sample_ring = [8, 9]"
    using r [THEN conjunct1, rule_format, of 0] r [THEN conjunct1, rule_format, of 1] c(1) by (simp_all add: e)
  moreover have "\<exists>p n g. writable_with_size zeroes 5 sample_ring = (Some (p, n), g) \<and> p + n \<le> buf_len g"
    using r [THEN conjunct2] c(2) by (elim exE conjE) auto
  ultimately show ?thesis by blast
qed

end
