(* ===== verification/Braces.thy ===== *)
theory Braces
  imports Prelude "HOL-Library.Monad_Syntax"
begin

text \<open>
  Brace expansion of the shell, its lexer and its parser: \<^verbatim>\<open>src/shell_parser/braces.rs\<close> up to
  \<^verbatim>\<open>calculate_expanded_amount\<close>. The input is a slice of ASCII bytes; the iterator over code points, which other
  words take, is outside.

  A lexer state is a record of the tokens pushed so far and of the stack of open braces. The lemmas show that it is at
  every moment the image of a tree under construction (\<open>tree_lexer\<close>, a refinement with \<open>lex_char_tree\<close> as its step), that
  the rollback of unclosed braces and the merging of texts are functions of that tree, that the parser inverts the
  printing of trees, and that the counted number of words is the number of words of the tree, saturated at 32 bits.
  The parser reads at an index; a panic is \<open>None\<close>, and its loops are \<open>partial_function\<close>s proved to return.
\<close>

section \<open>Tokens\<close>

text \<open>\<open>Open\<close> carries its part of the table of variants, two \<^verbatim>\<open>u16\<close>. A text is the bytes of a \<^verbatim>\<open>SmolStr\<close>.\<close>

record expansion_variants =
  v_idx :: nat
  v_end :: nat

datatype brace_token = Open expansion_variants | Comma | Text bytes | Close | Eof

definition default_variants :: expansion_variants where
  "default_variants = \<lparr>v_idx = 0, v_end = 0\<rparr>"

fun to_text :: "brace_token \<Rightarrow> bytes" where
  "to_text (Open v) = ''{''"
| "to_text Comma = '',''"
| "to_text (Text txt) = txt"
| "to_text Close = ''}''"
| "to_text Eof = ''''"

section \<open>The lexer\<close>

text \<open>\<^verbatim>\<open>ShellCharIter\<close> over ASCII: a byte and whether it was escaped, and what is left of the input. A backslash at the
  end of the input ends it.\<close>

definition backslash :: char where
  "backslash = CHR 92"

fun eat :: "bytes \<Rightarrow> ((char \<times> bool) \<times> bytes) option" where
  "eat [] = None"
| "eat (c # cs) =
     (if c \<noteq> backslash then Some ((c, False), cs)
      else case cs of [] \<Rightarrow> None | d # ds \<Rightarrow> Some ((d, True), ds))"

record open_brace =
  tok_idx :: nat
  has_comma :: bool

text \<open>\<^verbatim>\<open>NewLexer\<close> with the stack of \<^verbatim>\<open>tokenize_impl\<close>; the characters left are the argument of the loop, and
  \<^verbatim>\<open>contains_nested\<close>, which only \<^verbatim>\<open>flatten_tokens\<close> sets, is its result.\<close>

record brace_lexer =
  tokens :: "brace_token list"
  brace_stack :: "open_brace list"

definition replace_token_with_string :: "nat \<Rightarrow> brace_token list \<Rightarrow> brace_token list" where
  "replace_token_with_string i ts = ts[i := Text (to_text (ts ! i))]"

definition is_text :: "brace_token \<Rightarrow> bool" where
  "is_text t \<longleftrightarrow> (case t of Text _ \<Rightarrow> True | _ \<Rightarrow> False)"

definition append_char :: "char \<Rightarrow> brace_token list \<Rightarrow> brace_token list" where
  "append_char c ts =
     (if ts \<noteq> [] \<and> is_text (last ts)
      then butlast ts @ [Text (to_text (last ts) @ [c])]
      else ts @ [Text [c]])"

definition lex_char :: "char \<times> bool \<Rightarrow> brace_lexer \<Rightarrow> brace_lexer" where
  "lex_char input s =
     (let c = fst input; escaped = snd input
      in if \<not> escaped \<and> c = CHR ''{'' then
           s\<lparr>brace_stack := \<lparr>tok_idx = length (tokens s), has_comma = False\<rparr> # brace_stack s,
             tokens := tokens s @ [Open default_variants]\<rparr>
         else if \<not> escaped \<and> c = CHR ''}'' \<and> brace_stack s \<noteq> [] then
           (let brace = hd (brace_stack s); s = s\<lparr>brace_stack := tl (brace_stack s)\<rparr>
            in if has_comma brace then s\<lparr>tokens := tokens s @ [Close]\<rparr>
               else s\<lparr>tokens := replace_token_with_string (tok_idx brace) (tokens s) @ [Text ''}'']\<rparr>)
         else if \<not> escaped \<and> c = CHR '','' \<and> brace_stack s \<noteq> [] then
           s\<lparr>brace_stack := (hd (brace_stack s))\<lparr>has_comma := True\<rparr> # tl (brace_stack s),
             tokens := tokens s @ [Comma]\<rparr>
         else s\<lparr>tokens := append_char c (tokens s)\<rparr>)"

function lex_loop :: "bytes \<Rightarrow> brace_lexer \<Rightarrow> brace_lexer" where
  "lex_loop input s = (case eat input of None \<Rightarrow> s | Some (c, rest) \<Rightarrow> lex_loop rest (lex_char c s))"
  by pat_completeness auto
termination
  by (relation "measure (\<lambda>(input, s). length input)") (auto elim!: eat.elims split: if_splits list.splits)

text \<open>\<^verbatim>\<open>rollback_braces\<close> after its first token: closed groups inside are skipped, everything else becomes text.\<close>

fun rollback_rest :: "nat \<Rightarrow> brace_token list \<Rightarrow> brace_token list" where
  "rollback_rest braces [] = []"
| "rollback_rest braces (t # ts) =
     (if braces > 0 then
        t # rollback_rest (case t of Open _ \<Rightarrow> braces + 1 | Close \<Rightarrow> braces - 1 | _ \<Rightarrow> braces) ts
      else (case t of
              Open _ \<Rightarrow> t # rollback_rest (braces + 1) ts
            | Eof \<Rightarrow> t # rollback_rest braces ts
            | _ \<Rightarrow> Text (to_text t) # rollback_rest braces ts))"

definition rollback_braces :: "nat \<Rightarrow> brace_token list \<Rightarrow> brace_token list" where
  "rollback_braces starting_idx ts =
     (let ts = replace_token_with_string starting_idx ts
      in take (starting_idx + 1) ts @ rollback_rest 0 (drop (starting_idx + 1) ts))"

text \<open>\<^verbatim>\<open>flatten_tokens\<close> compacts in place; \<open>written\<close> is the part before its index \<^verbatim>\<open>write\<close>, and the tokens from
  \<^verbatim>\<open>read\<close> on are still the old ones.\<close>

fun flatten_loop :: "brace_token list \<Rightarrow> nat \<times> bool \<times> brace_token list \<Rightarrow> nat \<times> bool \<times> brace_token list" where
  "flatten_loop [] w = w"
| "flatten_loop (t # ts) (brace_count, contains_nested, written) =
     (let brace_count' = (case t of Open _ \<Rightarrow> brace_count + 1 | Close \<Rightarrow> brace_count - 1 | _ \<Rightarrow> brace_count);
          contains_nested' = (contains_nested \<or> (case t of Open _ \<Rightarrow> brace_count' > 1 | _ \<Rightarrow> False));
          written' = (if written \<noteq> [] \<and> is_text (last written) \<and> is_text t
                      then butlast written @ [Text (to_text (last written) @ to_text t)]
                      else written @ [t])
      in flatten_loop ts (brace_count', contains_nested', written'))"

definition flatten_tokens :: "brace_token list \<Rightarrow> bool \<times> brace_token list" where
  "flatten_tokens ts = snd (flatten_loop ts (0, False, []))"

definition tokenize :: "bytes \<Rightarrow> brace_token list \<times> bool" where
  "tokenize src =
     (let s = lex_loop src \<lparr>tokens = [], brace_stack = []\<rparr>;
          ts = fold (\<lambda>brace. rollback_braces (tok_idx brace)) (brace_stack s) (tokens s)
      in case flatten_tokens ts of (contains_nested, ts) \<Rightarrow> (ts @ [Eof], contains_nested))"

section \<open>The parser\<close>

datatype parser_error = OutOfMemory | UnexpectedToken | TooManyBraces

text \<open>The tree of \<^verbatim>\<open>ast\<close>. The cells that lead from a group to the one around it are the argument \<open>bubble_up\<close> of
  the expansion.\<close>

datatype atom = AText bytes | Expansion "group list"
  and group = Single atom | Many "atom list"

definition max_brace_groups :: nat where
  "max_brace_groups = 256"

definition is_open :: "brace_token \<Rightarrow> bool" where
  "is_open t \<longleftrightarrow> (case t of Open _ \<Rightarrow> True | _ \<Rightarrow> False)"

definition too_many_groups :: "brace_token list \<Rightarrow> bool" where
  "too_many_groups ts \<longleftrightarrow> length (filter is_open ts) > max_brace_groups"

text \<open>The parser's \<^verbatim>\<open>current\<close> is passed on. Reading past the tokens panics, the result \<open>None\<close> of the parser.\<close>

definition advance :: "brace_token list \<Rightarrow> nat \<Rightarrow> (brace_token \<times> nat) option" where
  "advance ts current =
     (if current \<ge> length ts then None
      else (let current = (if ts ! current = Eof then current else current + 1)
            in Some (if current > 0 then ts ! (current - 1) else ts ! current, current)))"

definition make_group :: "atom list \<Rightarrow> group" where
  "make_group nodes = (if length nodes = 1 then Single (hd nodes) else Many nodes)"

text \<open>\<^verbatim>\<open>parse_expansion\<close> with the atoms it reads: \<open>variants\<close> and \<open>nodes\<close> are its vectors.\<close>

partial_function (option) parse_expansion ::
  "brace_token list \<Rightarrow> group list \<Rightarrow> atom list \<Rightarrow> nat \<Rightarrow> (parser_error + group list \<times> nat) option" where
  "parse_expansion ts variants nodes current =
     (if current \<ge> length ts then None
      else if ts ! current = Close \<or> ts ! current = Eof then
        do { p \<leftarrow> advance ts current; Some (Inr (variants @ [make_group nodes], snd p)) }
      else if ts ! current = Comma then
        do { p \<leftarrow> advance ts current; parse_expansion ts (variants @ [make_group nodes]) [] (snd p) }
      else
        do { p \<leftarrow> advance ts current;
             case fst p of
               Open _ \<Rightarrow>
                 do { r \<leftarrow> parse_expansion ts [] [] (snd p);
                      case r of
                        Inl e \<Rightarrow> Some (Inl e)
                      | Inr (inner, current) \<Rightarrow> parse_expansion ts variants (nodes @ [Expansion inner]) current }
             | Text txt \<Rightarrow> parse_expansion ts variants (nodes @ [AText txt]) (snd p)
             | Eof \<Rightarrow> Some (Inr (variants @ [make_group nodes], snd p))
             | Close \<Rightarrow> Some (Inl UnexpectedToken)
             | Comma \<Rightarrow> Some (Inl UnexpectedToken) })"

definition parse_atom :: "brace_token list \<Rightarrow> nat \<Rightarrow> (parser_error + atom option \<times> nat) option" where
  "parse_atom ts current =
     do { p \<leftarrow> advance ts current;
          case fst p of
            Open _ \<Rightarrow>
              do { r \<leftarrow> parse_expansion ts [] [] (snd p);
                   case r of
                     Inl e \<Rightarrow> Some (Inl e)
                   | Inr (variants, current) \<Rightarrow> Some (Inr (Some (Expansion variants), current)) }
          | Text txt \<Rightarrow> Some (Inr (Some (AText txt), snd p))
          | Eof \<Rightarrow> Some (Inr (None, snd p))
          | Close \<Rightarrow> Some (Inl UnexpectedToken)
          | Comma \<Rightarrow> Some (Inl UnexpectedToken) }"

partial_function (option) parse_nodes :: "brace_token list \<Rightarrow> atom list \<Rightarrow> nat \<Rightarrow> (parser_error + atom list) option" where
  "parse_nodes ts nodes current =
     (if current \<ge> length ts then None
      else if ts ! current = Eof then Some (Inr nodes)
      else do { r \<leftarrow> parse_atom ts current;
                case r of
                  Inl e \<Rightarrow> Some (Inl e)
                | Inr (None, current) \<Rightarrow> Some (Inr nodes)
                | Inr (Some a, current) \<Rightarrow> parse_nodes ts (nodes @ [a]) current })"

definition parse :: "brace_token list \<Rightarrow> (parser_error + group) option" where
  "parse ts =
     (if too_many_groups ts then Some (Inl TooManyBraces)
      else map_option (map_sum id make_group) (parse_nodes ts [] 0))"

section \<open>The number of expansions\<close>

definition sat :: "nat \<Rightarrow> nat" where
  "sat n = min n (2 ^ 32 - 1)"

record stack_entry =
  segment_product :: nat
  accumulator :: nat

fun amount_loop :: "brace_token list \<Rightarrow> stack_entry list \<Rightarrow> nat \<Rightarrow> nat option" where
  "amount_loop [] stack variant_count = Some variant_count"
| "amount_loop (t # ts) stack variant_count =
     (case t of
        Open _ \<Rightarrow> amount_loop ts (\<lparr>segment_product = 1, accumulator = 0\<rparr> # stack) variant_count
      | Comma \<Rightarrow>
          (case stack of
             [] \<Rightarrow> None
           | entry # stack \<Rightarrow>
               amount_loop ts (\<lparr>segment_product = 1, accumulator = sat (accumulator entry + segment_product entry)\<rparr> # stack) variant_count)
      | Close \<Rightarrow>
          (case stack of
             [] \<Rightarrow> None
           | entry # stack \<Rightarrow>
               (let total = sat (accumulator entry + segment_product entry)
                in case stack of
                     parent # stack \<Rightarrow>
                       amount_loop ts (parent\<lparr>segment_product := sat (segment_product parent * total)\<rparr> # stack) variant_count
                   | [] \<Rightarrow>
                       if variant_count = 0 then amount_loop ts [] total
                       else amount_loop ts [] (sat (variant_count * total))))
      | _ \<Rightarrow> amount_loop ts stack variant_count)"

definition calculate_expanded_amount :: "brace_token list \<Rightarrow> nat option" where
  "calculate_expanded_amount ts = amount_loop ts [] 0"

section \<open>Trees and their tokens\<close>

fun separated :: "brace_token list list \<Rightarrow> brace_token list" where
  "separated [] = []"
| "separated [ts] = ts"
| "separated (ts # u # us) = ts @ Comma # separated (u # us)"

primrec atom_tokens :: "atom \<Rightarrow> brace_token list" and group_tokens :: "group \<Rightarrow> brace_token list" where
  "atom_tokens (AText txt) = [Text txt]"
| "atom_tokens (Expansion gs) = Open default_variants # separated (map group_tokens gs) @ [Close]"
| "group_tokens (Single a) = atom_tokens a"
| "group_tokens (Many nodes) = concat (map atom_tokens nodes)"

definition nodes_tokens :: "atom list \<Rightarrow> brace_token list" where
  "nodes_tokens nodes = concat (map atom_tokens nodes)"

fun atoms_of :: "group \<Rightarrow> atom list" where
  "atoms_of (Single a) = [a]"
| "atoms_of (Many nodes) = nodes"

lemma nodes_tokens_simps [simp]:
  "nodes_tokens [] = []"
  "nodes_tokens (a # nodes) = atom_tokens a @ nodes_tokens nodes"
  "nodes_tokens (xs @ ys) = nodes_tokens xs @ nodes_tokens ys"
  by (simp_all add: nodes_tokens_def)

lemma group_tokens_atoms: "group_tokens g = nodes_tokens (atoms_of g)"
  by (cases g) (simp_all add: nodes_tokens_def)

lemma atoms_of_make_group [simp]: "atoms_of (make_group nodes) = nodes"
  by (cases nodes rule: remdups_adj.cases) (simp_all add: make_group_def)

lemma group_tokens_make [simp]: "group_tokens (make_group nodes) = nodes_tokens nodes"
  by (simp add: group_tokens_atoms)

lemma separated_snoc: "tss \<noteq> [] \<Longrightarrow> separated (tss @ [ts]) = separated tss @ Comma # ts"
  by (induction tss rule: separated.induct) auto

lemma separated_commas: "separated (map f xs @ [ts]) = concat (map (\<lambda>x. f x @ [Comma]) xs) @ ts"
proof (induction xs)
  case (Cons x xs)
  show ?case by (cases "map f xs @ [ts]") (use Cons in auto)
qed simp

section \<open>The lexer builds a tree\<close>

text \<open>What the lexer has read, as a tree under construction: the atoms of the innermost open group, and for each open
  brace, innermost first, the atoms before it and the variants of its group that a comma has ended.\<close>

type_synonym open_tree = "atom list \<times> (atom list \<times> atom list list) list"

fun tree_tokens :: "atom list \<Rightarrow> (atom list \<times> atom list list) list \<Rightarrow> brace_token list" where
  "tree_tokens cur [] = nodes_tokens cur"
| "tree_tokens cur ((before, variants) # opens) =
     tree_tokens before opens @ Open default_variants
       # concat (map (\<lambda>v. nodes_tokens v @ [Comma]) variants) @ nodes_tokens cur"

fun tree_braces :: "(atom list \<times> atom list list) list \<Rightarrow> open_brace list" where
  "tree_braces [] = []"
| "tree_braces ((before, variants) # opens) =
     \<lparr>tok_idx = length (tree_tokens before opens), has_comma = (variants \<noteq> [])\<rparr> # tree_braces opens"

fun add_atom :: "atom list \<Rightarrow> atom \<Rightarrow> atom list" where
  "add_atom [] a = [a]"
| "add_atom (b # nodes) a =
     (if nodes = [] then (case (b, a) of (AText s, AText t) \<Rightarrow> [AText (s @ t)] | _ \<Rightarrow> [b, a])
      else b # add_atom nodes a)"

fun tree_char :: "char \<times> bool \<Rightarrow> open_tree \<Rightarrow> open_tree" where
  "tree_char (c, escaped) (cur, opens) =
     (if \<not> escaped \<and> c = CHR ''{'' then ([], (cur, []) # opens)
      else (case opens of
              [] \<Rightarrow> (add_atom cur (AText [c]), [])
            | (before, variants) # outer \<Rightarrow>
                if \<not> escaped \<and> c = CHR ''}'' then
                  (if variants \<noteq> [] then (before @ [Expansion (map make_group (variants @ [cur]))], outer)
                   else (before @ AText ''{'' # cur @ [AText ''}''], outer))
                else if \<not> escaped \<and> c = CHR '','' then ([], (before, variants @ [cur]) # outer)
                else (add_atom cur (AText [c]), opens)))"

definition tree_lexer :: "open_tree \<Rightarrow> brace_lexer" where
  "tree_lexer t = \<lparr>tokens = tree_tokens (fst t) (snd t), brace_stack = tree_braces (snd t)\<rparr>"

lemma tree_tokens_append: "tree_tokens (xs @ ys) opens = tree_tokens xs opens @ nodes_tokens ys"
  by (cases opens) auto

lemma tree_tokens_nodes: "tree_tokens nodes opens = tree_tokens [] opens @ nodes_tokens nodes"
  by (cases opens) auto

lemma atom_tokens_nonempty [simp]: "atom_tokens a \<noteq> []"
  by (cases a) auto

lemma last_atom_tokens: "is_text (last (atom_tokens a)) \<longleftrightarrow> (\<exists>s. a = AText s)"
  by (cases a) (auto simp: is_text_def)

lemma last_open_tokens: "opens \<noteq> [] \<Longrightarrow> \<not> is_text (last (tree_tokens [] opens)) \<and> tree_tokens [] opens \<noteq> []"
proof -
  assume "opens \<noteq> []"
  then obtain before variants outer where o: "opens = (before, variants) # outer"
    by (metis list.exhaust surj_pair)
  show ?thesis
    by (cases variants rule: rev_cases) (simp_all add: o is_text_def)
qed

lemma add_atom_snoc:
  "add_atom (nodes @ [b]) a = (case (b, a) of (AText s, AText t) \<Rightarrow> nodes @ [AText (s @ t)] | _ \<Rightarrow> nodes @ [b, a])"
  by (induction nodes) (auto split: atom.splits)

lemma append_char_tree:
  "append_char c (tree_tokens cur opens) = tree_tokens (add_atom cur (AText [c])) opens"
proof (cases cur rule: rev_cases)
  case Nil
  then show ?thesis
    by (cases "opens = []") (simp_all add: append_char_def last_open_tokens tree_tokens_nodes [of "[_]"])
next
  case (snoc nodes b)
  then show ?thesis
    by (cases b) (simp_all add: append_char_def tree_tokens_append add_atom_snoc is_text_def)
qed

lemma list_update_at_length: "(xs @ y # ys)[length xs := z] = xs @ z # ys"
  by (induction xs) auto

lemma replace_open: "replace_token_with_string (length xs) (xs @ t # ys) = xs @ Text (to_text t) # ys"
  by (simp add: replace_token_with_string_def list_update_at_length)

lemma lex_char_tree: "lex_char input (tree_lexer t) = tree_lexer (tree_char input t)"
proof -
  obtain c escaped cur opens where split: "input = (c, escaped)" "t = (cur, opens)"
    by (metis surj_pair)
  show ?thesis
  proof (cases opens)
    case Nil
    then show ?thesis
      using append_char_tree [of c cur "[]"] by (simp add: split lex_char_def tree_lexer_def)
  next
    case (Cons o' outer)
    obtain before variants where o: "o' = (before, variants)" by (metis surj_pair)
    show ?thesis
      using append_char_tree [of c cur opens]
      by (simp add: split Cons o lex_char_def tree_lexer_def tree_tokens_append replace_open separated_commas)
  qed
qed

text \<open>The bytes the lexer sees, each with whether a backslash stood before it.\<close>

function inputs :: "bytes \<Rightarrow> (char \<times> bool) list" where
  "inputs src = (case eat src of None \<Rightarrow> [] | Some (c, rest) \<Rightarrow> c # inputs rest)"
  by pat_completeness auto
termination
  by (relation "measure length") (auto elim!: eat.elims split: if_splits list.splits)

declare inputs.simps [simp del]
declare lex_loop.simps [simp del]

lemma lex_loop_fold: "lex_loop src s = fold lex_char (inputs src) s"
  by (induction src s rule: lex_loop.induct)
     (subst lex_loop.simps, subst inputs.simps, auto split: option.splits)

lemma fold_lex_char: "fold lex_char cs (tree_lexer t) = tree_lexer (fold tree_char cs t)"
  by (induction cs arbitrary: t) (simp_all add: lex_char_tree)

definition read_tree :: "bytes \<Rightarrow> open_tree" where
  "read_tree src = fold tree_char (inputs src) ([], [])"

lemma lex_loop_tree: "lex_loop src \<lparr>tokens = [], brace_stack = []\<rparr> = tree_lexer (read_tree src)"
proof -
  have "\<lparr>tokens = [], brace_stack = []\<rparr> = tree_lexer ([], [])" by (simp add: tree_lexer_def)
  then show ?thesis by (simp add: lex_loop_fold read_tree_def fold_lex_char)
qed

section \<open>Unclosed braces become text\<close>

fun close_tree :: "atom list \<Rightarrow> (atom list \<times> atom list list) list \<Rightarrow> atom list" where
  "close_tree cur [] = cur"
| "close_tree cur ((before, variants) # opens) =
     close_tree (before @ AText ''{'' # concat (map (\<lambda>v. v @ [AText '','']) variants) @ cur) opens"

lemma rollback_separated_of:
  assumes "\<And>us vs. us \<in> set tss \<Longrightarrow> rollback_rest (Suc n) (us @ vs) = us @ rollback_rest (Suc n) vs"
  shows "rollback_rest (Suc n) (separated tss @ vs) = separated tss @ rollback_rest (Suc n) vs"
  using assms by (induction tss rule: separated.induct) auto

lemma rollback_skips:
  "rollback_rest (Suc n) (atom_tokens a @ ts) = atom_tokens a @ rollback_rest (Suc n) ts"
  "rollback_rest (Suc n) (group_tokens g @ ts) = group_tokens g @ rollback_rest (Suc n) ts"
proof (induction a and g arbitrary: n ts and n ts)
  case (Expansion gs)
  have "rollback_rest (Suc m) (separated (map group_tokens gs) @ us) =
      separated (map group_tokens gs) @ rollback_rest (Suc m) us" for m us
    by (rule rollback_separated_of) (auto simp: Expansion)
  then show ?case by simp
next
  case (Many nodes)
  then show ?case by (induction nodes arbitrary: ts) auto
qed auto

lemma rollback_separated:
  "rollback_rest (Suc n) (separated (map group_tokens gs) @ ts) = separated (map group_tokens gs) @ rollback_rest (Suc n) ts"
  by (rule rollback_separated_of) (auto simp: rollback_skips)

lemma rollback_atom: "rollback_rest 0 (atom_tokens a @ ts) = atom_tokens a @ rollback_rest 0 ts"
  by (cases a) (simp_all add: rollback_separated [of 0, simplified])

lemma rollback_nodes: "rollback_rest 0 (nodes_tokens nodes @ ts) = nodes_tokens nodes @ rollback_rest 0 ts"
  by (induction nodes arbitrary: ts) (simp_all add: rollback_atom)

lemma rollback_variants:
  "rollback_rest 0 (concat (map (\<lambda>v. nodes_tokens v @ [Comma]) variants) @ ts) =
     nodes_tokens (concat (map (\<lambda>v. v @ [AText '','']) variants)) @ rollback_rest 0 ts"
  by (induction variants arbitrary: ts) (simp_all add: rollback_nodes)

lemma rollback_braces_open:
  "rollback_braces (length (tree_tokens before opens)) (tree_tokens cur ((before, variants) # opens)) =
     tree_tokens (before @ AText ''{'' # concat (map (\<lambda>v. v @ [AText '','']) variants) @ cur) opens"
  using rollback_nodes [of cur "[]"]
  by (simp add: rollback_braces_def replace_open rollback_variants tree_tokens_append)

lemma rollback_all:
  "fold (\<lambda>brace. rollback_braces (tok_idx brace)) (tree_braces opens) (tree_tokens cur opens) =
     nodes_tokens (close_tree cur opens)"
  by (induction cur opens rule: close_tree.induct) (simp_all del: tree_tokens.simps(2) add: rollback_braces_open)

section \<open>Adjacent texts are merged\<close>

primrec merge_atom :: "atom \<Rightarrow> atom" and merge_group :: "group \<Rightarrow> group" where
  "merge_atom (AText txt) = AText txt"
| "merge_atom (Expansion gs) = Expansion (map merge_group gs)"
| "merge_group (Single a) = Single (merge_atom a)"
| "merge_group (Many nodes) = make_group (foldl add_atom [] (map merge_atom nodes))"

definition merge_nodes :: "atom list \<Rightarrow> atom list" where
  "merge_nodes nodes = foldl add_atom [] (map merge_atom nodes)"

text \<open>Whether a group lies inside another one, at the given depth.\<close>

primrec nested_atom :: "nat \<Rightarrow> atom \<Rightarrow> bool" and nested_group :: "nat \<Rightarrow> group \<Rightarrow> bool" where
  "nested_atom n (AText txt) = False"
| "nested_atom n (Expansion gs) = (n > 0 \<or> list_ex id (map (nested_group (n + 1)) gs))"
| "nested_group n (Single a) = nested_atom n a"
| "nested_group n (Many nodes) = list_ex id (map (nested_atom n) nodes)"

definition ends_text :: "brace_token list \<Rightarrow> bool" where
  "ends_text ts \<longleftrightarrow> ts \<noteq> [] \<and> is_text (last ts)"

lemma is_text_simps [simp]:
  "is_text (Text txt)" "\<not> is_text (Open v)" "\<not> is_text Comma" "\<not> is_text Close" "\<not> is_text Eof"
  by (simp_all add: is_text_def)

lemma ends_text_snoc [simp]: "ends_text (ts @ [t]) = is_text t"
  by (simp add: ends_text_def)

lemma add_atom_expansion [simp]: "add_atom nodes (Expansion gs) = nodes @ [Expansion gs]"
  by (induction nodes) (auto split: atom.splits)

lemma flatten_text:
  assumes "\<not> ends_text w"
  shows "flatten_loop (Text txt # ts) (n, nested, w @ nodes_tokens nodes) =
    flatten_loop ts (n, nested, w @ nodes_tokens (add_atom nodes (AText txt)))"
proof (cases nodes rule: rev_cases)
  case Nil
  then show ?thesis using assms by (auto simp: ends_text_def)
next
  case (snoc xs b)
  then show ?thesis by (cases b) (simp_all add: add_atom_snoc butlast_append)
qed

lemma flatten_separated:
  assumes "\<And>g w nested ts. g \<in> set gs \<Longrightarrow> \<not> ends_text w \<Longrightarrow>
      flatten_loop (group_tokens g @ ts) (n, nested, w) =
        flatten_loop ts (n, nested \<or> nested_group n g, w @ group_tokens (merge_group g))"
    and "\<not> ends_text w"
  shows "flatten_loop (separated (map group_tokens gs) @ ts) (n, nested, w) =
    flatten_loop ts (n, nested \<or> list_ex (nested_group n) gs, w @ separated (map group_tokens (map merge_group gs)))"
  using assms
proof (induction gs arbitrary: nested w)
  case (Cons g gs)
  have rest: "flatten_loop (separated (map group_tokens gs) @ ts) (n, nested', w') =
      flatten_loop ts (n, nested' \<or> list_ex (nested_group n) gs, w' @ separated (map group_tokens (map merge_group gs)))"
    if "\<not> ends_text w'" for nested' w'
    by (rule Cons.IH) (use Cons.prems that in auto)
  show ?case
  proof (cases gs)
    case Nil
    then show ?thesis using Cons.prems by simp
  next
    case (Cons h hs)
    have "flatten_loop (separated (map group_tokens (g # gs)) @ ts) (n, nested, w) =
        flatten_loop (Comma # separated (map group_tokens gs) @ ts)
          (n, nested \<or> nested_group n g, w @ group_tokens (merge_group g))"
      using Cons.prems by (simp add: Cons)
    also have "\<dots> = flatten_loop (separated (map group_tokens gs) @ ts)
          (n, nested \<or> nested_group n g, (w @ group_tokens (merge_group g)) @ [Comma])"
      by simp
    also have "\<dots> = flatten_loop ts (n, (nested \<or> nested_group n g) \<or> list_ex (nested_group n) gs,
          ((w @ group_tokens (merge_group g)) @ [Comma]) @ separated (map group_tokens (map merge_group gs)))"
      by (rule rest) (simp only: ends_text_snoc, simp)
    finally show ?thesis by (simp add: Cons)
  qed
qed simp

lemma flatten_tree:
  "\<not> ends_text w \<Longrightarrow> flatten_loop (atom_tokens a @ ts) (n, nested, w @ nodes_tokens nodes) =
     flatten_loop ts (n, nested \<or> nested_atom n a, w @ nodes_tokens (add_atom nodes (merge_atom a)))"
  "\<not> ends_text w \<Longrightarrow> flatten_loop (group_tokens g @ ts) (n, nested, w) =
     flatten_loop ts (n, nested \<or> nested_group n g, w @ group_tokens (merge_group g))"
proof (induction a and g arbitrary: w n nested nodes ts and w n nested ts)
  case (AText t)
  then show ?case using flatten_text [of w t] by simp
next
  case (Expansion gs)
  have sep: "flatten_loop (separated (map group_tokens gs) @ us) (Suc n, flag, w') =
      flatten_loop us (Suc n, flag \<or> list_ex (nested_group (Suc n)) gs,
        w' @ separated (map group_tokens (map merge_group gs)))"
    if "\<not> ends_text w'" for w' flag us
    by (rule flatten_separated) (use Expansion.IH that in auto)
  show ?case
    using sep [where w' = "w @ nodes_tokens nodes @ [Open default_variants]" and flag = "nested \<or> n > 0" and us = "Close # ts"]
    by (simp add: ends_text_def list_ex_iff disj_ac)
next
  case (Single a)
  then show ?case using Single.IH [of w ts n nested "[]"] by simp
next
  case (Many nodes)
  have "flatten_loop (nodes_tokens nodes @ ts) (n, nested, w @ nodes_tokens acc) =
      flatten_loop ts (n, nested \<or> list_ex (nested_atom n) nodes,
        w @ nodes_tokens (foldl add_atom acc (map merge_atom nodes)))" for acc nested
    using Many.IH Many.prems by (induction nodes arbitrary: nested acc) auto
  from this [of nested "[]"] show ?case by (simp add: nodes_tokens_def list_ex_iff)
qed

section \<open>The trees of the lexer\<close>

text \<open>No two texts side by side.\<close>

definition is_atext :: "atom \<Rightarrow> bool" where
  "is_atext a \<longleftrightarrow> (case a of AText _ \<Rightarrow> True | Expansion _ \<Rightarrow> False)"

fun apart :: "atom list \<Rightarrow> bool" where
  "apart [] = True"
| "apart [a] = True"
| "apart (a # b # nodes) = (\<not> (is_atext a \<and> is_atext b) \<and> apart (b # nodes))"

primrec raw_atom :: "atom \<Rightarrow> bool" and raw_group :: "group \<Rightarrow> bool" where
  "raw_atom (AText txt) = (txt \<noteq> [])"
| "raw_atom (Expansion gs) = (2 \<le> length gs \<and> list_all id (map raw_group gs))"
| "raw_group (Single a) = raw_atom a"
| "raw_group (Many nodes) = list_all id (map raw_atom nodes)"

text \<open>The trees the parser makes of the lexer's tokens: texts are not empty and not side by side, a group has at least
  two variants, and a variant of one atom is \<^verbatim>\<open>Single\<close>.\<close>

primrec proper_atom :: "atom \<Rightarrow> bool" and proper_group :: "group \<Rightarrow> bool" where
  "proper_atom (AText txt) = (txt \<noteq> [])"
| "proper_atom (Expansion gs) = (2 \<le> length gs \<and> list_all id (map proper_group gs))"
| "proper_group (Single a) = proper_atom a"
| "proper_group (Many nodes) = (length nodes \<noteq> 1 \<and> apart nodes \<and> list_all id (map proper_atom nodes))"

definition proper_nodes :: "atom list \<Rightarrow> bool" where
  "proper_nodes nodes \<longleftrightarrow> apart nodes \<and> list_all proper_atom nodes"

lemma list_all_id_map [simp]: "list_all id (map f xs) = list_all f xs"
  by (simp add: list_all_iff)

lemma list_ex_id_map [simp]: "list_ex id (map f xs) = list_ex f xs"
  by (simp add: list_ex_iff)

lemma proper_make_group [simp]: "proper_group (make_group nodes) = proper_nodes nodes"
  by (cases nodes rule: remdups_adj.cases) (auto simp: make_group_def proper_nodes_def)

lemma raw_make_group [simp]: "raw_group (make_group nodes) = list_all raw_atom nodes"
  by (cases nodes rule: remdups_adj.cases) (auto simp: make_group_def)

lemma is_atext_simps [simp]: "is_atext (AText txt)" "\<not> is_atext (Expansion gs)"
  by (simp_all add: is_atext_def)

lemma add_atom_nonempty [simp]: "add_atom nodes a \<noteq> []"
  by (cases nodes) (auto split: atom.splits)

lemma add_atom_head: "nodes \<noteq> [] \<Longrightarrow> is_atext (hd (add_atom nodes a)) = is_atext (hd nodes)"
  by (cases nodes) (auto split: atom.splits)

lemma apart_Cons: "nodes \<noteq> [] \<Longrightarrow> apart (a # nodes) \<longleftrightarrow> \<not> (is_atext a \<and> is_atext (hd nodes)) \<and> apart nodes"
  by (cases nodes) auto

lemma apart_add_atom: "apart nodes \<Longrightarrow> apart (add_atom nodes a)"
proof (induction nodes)
  case (Cons b nodes)
  show ?case
  proof (cases "nodes = []")
    case True
    then show ?thesis by (cases a; cases b) simp_all
  next
    case False
    then show ?thesis using Cons by (simp add: apart_Cons add_atom_head)
  qed
qed simp

lemma raw_add_atom: "list_all raw_atom nodes \<Longrightarrow> raw_atom a \<Longrightarrow> list_all raw_atom (add_atom nodes a)"
  by (induction nodes) (auto split: atom.splits)

lemma proper_add_atom: "proper_nodes nodes \<Longrightarrow> proper_atom a \<Longrightarrow> proper_nodes (add_atom nodes a)"
proof -
  have "list_all proper_atom xs \<Longrightarrow> proper_atom a \<Longrightarrow> list_all proper_atom (add_atom xs a)" for xs
    by (induction xs) (auto split: atom.splits)
  then show "proper_nodes nodes \<Longrightarrow> proper_atom a \<Longrightarrow> proper_nodes (add_atom nodes a)"
    by (simp add: proper_nodes_def apart_add_atom)
qed

lemma proper_foldl:
  "proper_nodes acc \<Longrightarrow> list_all proper_atom nodes \<Longrightarrow> proper_nodes (foldl add_atom acc nodes)"
  by (induction nodes arbitrary: acc) (simp_all add: proper_add_atom)

lemma proper_nodes_Nil [simp]: "proper_nodes []"
  by (simp add: proper_nodes_def)

lemma merge_proper:
  "raw_atom a \<Longrightarrow> proper_atom (merge_atom a)"
  "raw_group g \<Longrightarrow> proper_group (merge_group g)"
proof (induction a and g)
  case (Many nodes)
  then have "list_all proper_atom (map merge_atom nodes)" by (simp add: list_all_iff)
  then show ?case by (simp add: proper_foldl)
qed (simp_all add: list_all_iff)

lemma nested_add_atom:
  "list_ex (nested_atom n) (add_atom nodes a) \<longleftrightarrow> list_ex (nested_atom n) nodes \<or> nested_atom n a"
  by (induction nodes) (auto split: atom.splits)

lemma nested_foldl:
  "list_ex (nested_atom n) (foldl add_atom acc nodes) \<longleftrightarrow> list_ex (nested_atom n) acc \<or> list_ex (nested_atom n) nodes"
  by (induction nodes arbitrary: acc) (auto simp: nested_add_atom)

lemma nested_make_group [simp]: "nested_group n (make_group nodes) = list_ex (nested_atom n) nodes"
  by (cases nodes rule: remdups_adj.cases) (auto simp: make_group_def)

lemma nested_merge:
  "nested_atom n (merge_atom a) = nested_atom n a"
  "nested_group n (merge_group g) = nested_group n g"
proof (induction a and g arbitrary: n and n)
  case (Many nodes)
  then show ?case by (simp add: nested_foldl) (simp add: list_ex_iff)
qed (simp_all add: list_ex_iff)

definition raw_tree :: "open_tree \<Rightarrow> bool" where
  "raw_tree t \<longleftrightarrow> list_all raw_atom (fst t) \<and>
     list_all (\<lambda>o'. list_all raw_atom (fst o') \<and> list_all (list_all raw_atom) (snd o')) (snd t)"

lemma raw_variants: "list_all (raw_group \<circ> make_group) vs = list_all (list_all raw_atom) vs"
  by (simp add: list_all_iff)

lemma raw_tree_char:
  assumes "raw_tree t"
  shows "raw_tree (tree_char input t)"
proof -
  obtain c escaped cur opens where split: "input = (c, escaped)" "t = (cur, opens)"
    by (metis surj_pair)
  show ?thesis
  proof (cases opens)
    case Nil
    then show ?thesis using assms by (simp add: split raw_tree_def raw_add_atom)
  next
    case (Cons o' outer)
    obtain before variants where o: "o' = (before, variants)" by (metis surj_pair)
    have prems: "list_all raw_atom cur" "list_all raw_atom before" "list_all (list_all raw_atom) variants"
        "list_all (\<lambda>o'. list_all raw_atom (fst o') \<and> list_all (list_all raw_atom) (snd o')) outer"
      using assms by (simp_all add: split Cons o raw_tree_def)
    have group: "raw_atom (Expansion (map make_group (variants @ [cur])))" if "variants \<noteq> []"
      using prems that by (simp add: Suc_le_eq raw_variants)
    show ?thesis
      by (simp add: split Cons o raw_tree_def prems raw_add_atom group del: map_append raw_atom.simps(2))
  qed
qed

lemma raw_read_tree: "raw_tree (read_tree src)"
proof -
  have "raw_tree t \<Longrightarrow> raw_tree (fold tree_char cs t)" for cs t
    by (induction cs arbitrary: t) (simp_all add: raw_tree_char)
  then show ?thesis by (simp add: read_tree_def raw_tree_def)
qed

lemma raw_close_tree: "raw_tree (cur, opens) \<Longrightarrow> list_all raw_atom (close_tree cur opens)"
proof (induction cur opens rule: close_tree.induct)
  case (2 cur before variants opens)
  have "list_all raw_atom (concat (map (\<lambda>v. v @ [AText '','']) variants))"
    using 2(2) by (auto simp: raw_tree_def list_all_iff)
  then show ?case using 2 by (simp add: raw_tree_def)
qed (simp add: raw_tree_def)

definition tree_of :: "bytes \<Rightarrow> atom list" where
  "tree_of src = merge_nodes (case read_tree src of (cur, opens) \<Rightarrow> close_tree cur opens)"

lemma tokenize_tree:
  "tokenize src = (nodes_tokens (tree_of src) @ [Eof], list_ex (nested_atom 0) (tree_of src))"
proof -
  obtain cur opens where t: "read_tree src = (cur, opens)" by (metis surj_pair)
  define nodes where "nodes = close_tree cur opens"
  have "flatten_loop (nodes_tokens nodes) (0, False, []) =
      (0, list_ex (nested_atom 0) nodes, nodes_tokens (merge_nodes nodes))"
    using flatten_tree(2) [of "[]" "Many nodes" "[]" 0 False]
    by (simp add: ends_text_def nodes_tokens_def merge_nodes_def)
  then show ?thesis
    by (simp add: tokenize_def Let_def lex_loop_tree t tree_lexer_def rollback_all flatten_tokens_def tree_of_def
        nodes_def [symmetric] merge_nodes_def nested_foldl)
       (simp add: list_ex_iff nested_merge)
qed

lemma proper_tree_of: "proper_nodes (tree_of src)"
proof -
  obtain cur opens where t: "read_tree src = (cur, opens)" by (metis surj_pair)
  have "list_all raw_atom (close_tree cur opens)"
    using raw_read_tree [of src] by (simp add: t raw_close_tree)
  then have "list_all proper_atom (map merge_atom (close_tree cur opens))"
    by (simp add: list_all_iff merge_proper)
  then show ?thesis by (simp add: tree_of_def t merge_nodes_def proper_foldl)
qed

section \<open>The tokens spell the input\<close>

definition spell :: "brace_token list \<Rightarrow> bytes" where
  "spell ts = concat (map to_text ts)"

lemma spell_simps [simp]:
  "spell [] = []" "spell (t # ts) = to_text t @ spell ts" "spell (ts @ us) = spell ts @ spell us"
  by (simp_all add: spell_def)

lemma spell_add_atom: "spell (nodes_tokens (add_atom nodes a)) = spell (nodes_tokens nodes) @ spell (atom_tokens a)"
  by (induction nodes) (auto split: atom.splits)

fun spell_opens :: "(atom list \<times> atom list list) list \<Rightarrow> bytes" where
  "spell_opens [] = []"
| "spell_opens ((before, variants) # opens) =
     spell_opens opens @ spell (nodes_tokens before) @ ''{'' @ spell (concat (map (\<lambda>v. nodes_tokens v @ [Comma]) variants))"

lemma spell_tree_tokens: "spell (tree_tokens cur opens) = spell_opens opens @ spell (nodes_tokens cur)"
  by (induction cur opens rule: tree_tokens.induct) simp_all

lemma spell_tree_char:
  "spell (tree_tokens (fst (tree_char input t)) (snd (tree_char input t))) =
     spell (tree_tokens (fst t) (snd t)) @ [fst input]"
  by (cases t; cases input; cases "snd t")
     (auto simp: spell_tree_tokens spell_add_atom separated_commas)

lemma spell_read_tree: "spell (tree_tokens (fst (read_tree src)) (snd (read_tree src))) = map fst (inputs src)"
proof -
  have "spell (tree_tokens (fst (fold tree_char cs t)) (snd (fold tree_char cs t))) =
      spell (tree_tokens (fst t) (snd t)) @ map fst cs" for cs t
    by (induction cs arbitrary: t) (simp_all add: spell_tree_char)
  from this [of "inputs src" "([], [])"] show ?thesis by (simp add: read_tree_def)
qed

lemma spell_variants:
  "spell (nodes_tokens (concat (map (\<lambda>v. v @ [AText '','']) variants))) =
     spell (concat (map (\<lambda>v. nodes_tokens v @ [Comma]) variants))"
  by (induction variants) simp_all

lemma spell_close_tree: "spell (nodes_tokens (close_tree cur opens)) = spell (tree_tokens cur opens)"
  by (induction cur opens rule: close_tree.induct) (simp_all add: spell_tree_tokens spell_variants)

lemma spell_separated:
  "(\<And>g. g \<in> set gs \<Longrightarrow> spell (group_tokens (f g)) = spell (group_tokens g)) \<Longrightarrow>
     spell (separated (map (group_tokens \<circ> f) gs)) = spell (separated (map group_tokens gs))"
proof (induction gs)
  case (Cons g gs)
  then show ?case by (cases gs) simp_all
qed simp

lemma spell_foldl:
  "spell (nodes_tokens (foldl add_atom acc nodes)) = spell (nodes_tokens acc) @ spell (nodes_tokens nodes)"
  by (induction nodes arbitrary: acc) (simp_all add: spell_add_atom)

lemma spell_merge:
  "spell (atom_tokens (merge_atom a)) = spell (atom_tokens a)"
  "spell (group_tokens (merge_group g)) = spell (group_tokens g)"
proof (induction a and g)
  case (Expansion gs)
  then show ?case by (simp add: spell_separated)
next
  case (Many nodes)
  then have "spell (nodes_tokens (map merge_atom nodes)) = spell (nodes_tokens nodes)"
    by (induction nodes) simp_all
  then show ?case by (simp add: spell_foldl group_tokens_atoms)
qed simp_all

lemma spell_tree_of: "spell (nodes_tokens (tree_of src)) = map fst (inputs src)"
proof -
  obtain cur opens where t: "read_tree src = (cur, opens)" by (metis surj_pair)
  have "spell (nodes_tokens (map merge_atom nodes)) = spell (nodes_tokens nodes)" for nodes
    by (induction nodes) (simp_all add: spell_merge)
  then show ?thesis
    using spell_read_tree [of src] by (simp add: tree_of_def t merge_nodes_def spell_foldl spell_close_tree)
qed

section \<open>The parser rebuilds the tree\<close>

lemma make_group_atoms: "proper_group g \<Longrightarrow> make_group (atoms_of g) = g"
  by (cases g) (auto simp: make_group_def)

lemma drop_nth: "drop n xs = y # ys \<Longrightarrow> n < length xs \<and> xs ! n = y"
  by (metis drop_eq_Nil hd_drop_conv_nth leI list.distinct(1) list.sel(1))

lemma drop_more: "drop n xs = ys @ zs \<Longrightarrow> drop (n + length ys) xs = zs"
  by (metis append_eq_conv_conj add.commute drop_drop)

lemma advance_at: "drop n ts = t # rest \<Longrightarrow> t \<noteq> Eof \<Longrightarrow> advance ts n = Some (t, Suc n)"
  using drop_nth [of n ts t rest] by (simp add: advance_def)

lemma parse_text:
  "drop n ts = Text txt # rest \<Longrightarrow>
     parse_expansion ts variants nodes n = parse_expansion ts variants (nodes @ [AText txt]) (Suc n)"
  using drop_nth [of n ts "Text txt" rest] advance_at [of n ts "Text txt" rest]
  by (subst parse_expansion.simps) simp

lemma parse_comma:
  "drop n ts = Comma # rest \<Longrightarrow>
     parse_expansion ts variants nodes n = parse_expansion ts (variants @ [make_group nodes]) [] (Suc n)"
  using drop_nth [of n ts Comma rest] advance_at [of n ts Comma rest]
  by (subst parse_expansion.simps) simp

lemma parse_close:
  "drop n ts = Close # rest \<Longrightarrow>
     parse_expansion ts variants nodes n = Some (Inr (variants @ [make_group nodes], Suc n))"
  using drop_nth [of n ts Close rest] advance_at [of n ts Close rest]
  by (subst parse_expansion.simps) simp

lemma parse_open:
  "drop n ts = Open v # rest \<Longrightarrow> parse_expansion ts [] [] (Suc n) = Some (Inr (inner, m)) \<Longrightarrow>
     parse_expansion ts variants nodes n = parse_expansion ts variants (nodes @ [Expansion inner]) m"
  using drop_nth [of n ts "Open v" rest] advance_at [of n ts "Open v" rest]
  by (subst parse_expansion.simps) simp

lemma parse_separated:
  assumes "\<And>g n variants rest. g \<in> set gs \<Longrightarrow> drop n ts = group_tokens g @ rest \<Longrightarrow>
      parse_expansion ts variants [] n = parse_expansion ts variants (atoms_of g) (n + length (group_tokens g))"
    and "\<And>g. g \<in> set gs \<Longrightarrow> proper_group g"
    and "gs \<noteq> []" "drop n ts = separated (map group_tokens gs) @ Close # rest"
  shows "parse_expansion ts variants [] n =
    Some (Inr (variants @ gs, n + length (separated (map group_tokens gs)) + 1))"
  using assms
proof (induction gs arbitrary: n variants)
  case (Cons g gs)
  have group: "make_group (atoms_of g) = g" using Cons.prems(2) by (simp add: make_group_atoms)
  show ?case
  proof (cases "gs = []")
    case True
    then have tokens: "drop n ts = group_tokens g @ Close # rest" using Cons.prems(4) by simp
    show ?thesis
      using Cons.prems(1) [OF _ tokens] parse_close [OF drop_more [OF tokens]] by (simp add: True group)
  next
    case False
    then have tokens: "drop n ts = group_tokens g @ Comma # separated (map group_tokens gs) @ Close # rest"
      using Cons.prems(4) by (cases gs) simp_all
    define k where "k = n + length (group_tokens g)"
    have comma: "drop k ts = Comma # separated (map group_tokens gs) @ Close # rest"
      using drop_more [OF tokens] by (simp add: k_def)
    then have next_group: "drop (Suc k) ts = separated (map group_tokens gs) @ Close # rest"
      using drop_more [of k ts "[Comma]"] by simp
    have "parse_expansion ts (variants @ [g]) [] (Suc k) =
        Some (Inr ((variants @ [g]) @ gs, Suc k + length (separated (map group_tokens gs)) + 1))"
      by (rule Cons.IH) (use Cons.prems(1,2) False next_group in auto)
    moreover have "length (separated (map group_tokens (g # gs))) =
        length (group_tokens g) + 1 + length (separated (map group_tokens gs))"
      using False by (cases gs) simp_all
    ultimately show ?thesis
      using Cons.prems(1) [OF _ tokens] parse_comma [OF comma] by (simp add: k_def group)
  qed
qed simp

lemma parse_tree:
  "drop n ts = atom_tokens a @ rest \<Longrightarrow> proper_atom a \<Longrightarrow>
     parse_expansion ts variants nodes n = parse_expansion ts variants (nodes @ [a]) (n + length (atom_tokens a))"
  "drop n ts = group_tokens g @ rest \<Longrightarrow> proper_group g \<Longrightarrow>
     parse_expansion ts variants [] n = parse_expansion ts variants (atoms_of g) (n + length (group_tokens g))"
proof (induction a and g arbitrary: n rest variants nodes and n rest variants)
  case (AText t)
  then show ?case using parse_text [of n ts t rest] by simp
next
  case (Expansion gs)
  have rest: "drop (Suc n) ts = separated (map group_tokens gs) @ Close # rest"
    using Expansion.prems(1) drop_more [of n ts "[Open default_variants]"] by simp
  have "parse_expansion ts [] [] (Suc n) = Some (Inr ([] @ gs, Suc n + length (separated (map group_tokens gs)) + 1))"
    by (rule parse_separated [OF _ _ _ rest]) (use Expansion in \<open>auto simp: list_all_iff\<close>)
  then show ?case
    using parse_open [of n ts default_variants] Expansion.prems(1) by simp
next
  case (Single a)
  then show ?case by simp
next
  case (Many nodes)
  have nodes: "list_all proper_atom nodes" using Many.prems(2) by simp
  have "drop n ts = nodes_tokens nodes @ rest \<Longrightarrow>
      parse_expansion ts variants acc n = parse_expansion ts variants (acc @ nodes) (n + length (nodes_tokens nodes))" for acc n
    using Many.IH nodes
  proof (induction nodes arbitrary: n acc)
    case (Cons b nodes)
    have first: "drop n ts = atom_tokens b @ nodes_tokens nodes @ rest" using Cons.prems(1) by simp
    have rest: "drop (n + length (atom_tokens b)) ts = nodes_tokens nodes @ rest" using drop_more [OF first] .
    have "parse_expansion ts variants acc n = parse_expansion ts variants (acc @ [b]) (n + length (atom_tokens b))"
      by (rule Cons.prems(2) [OF _ first]) (use Cons.prems(3) in auto)
    also have "\<dots> = parse_expansion ts variants ((acc @ [b]) @ nodes)
        (n + length (atom_tokens b) + length (nodes_tokens nodes))"
      by (rule Cons.IH [OF rest]) (use Cons.prems(2,3) in auto)
    finally show ?case by (simp add: add.assoc)
  qed simp
  from this [of n "[]"] show ?case using Many.prems(1) by (simp add: nodes_tokens_def)
qed

lemma parse_atom_tree:
  assumes "drop n ts = atom_tokens a @ rest" "proper_atom a"
  shows "parse_atom ts n = Some (Inr (Some a, n + length (atom_tokens a)))"
proof (cases a)
  case (AText t)
  then show ?thesis using assms advance_at [of n ts "Text t" rest] by (simp add: parse_atom_def)
next
  case (Expansion gs)
  have rest: "drop (Suc n) ts = separated (map group_tokens gs) @ Close # rest"
    using assms(1) drop_more [of n ts "[Open default_variants]"] by (simp add: Expansion)
  have "parse_expansion ts [] [] (Suc n) = Some (Inr ([] @ gs, Suc n + length (separated (map group_tokens gs)) + 1))"
    by (rule parse_separated [OF _ _ _ rest])
       (use assms(2) in \<open>auto simp: Expansion list_all_iff intro: parse_tree(2)\<close>)
  then show ?thesis
    using assms advance_at [of n ts "Open default_variants"] by (simp add: Expansion parse_atom_def)
qed

lemma atom_tokens_hd: "atom_tokens a = t # ts \<Longrightarrow> t \<noteq> Eof"
  by (cases a) auto

lemma parse_nodes_tree:
  "drop n ts = nodes_tokens nodes @ [Eof] \<Longrightarrow> list_all proper_atom nodes \<Longrightarrow>
     parse_nodes ts acc n = Some (Inr (acc @ nodes))"
proof (induction nodes arbitrary: n acc)
  case Nil
  then show ?case using drop_nth [of n ts Eof] by (subst parse_nodes.simps) simp
next
  case (Cons a nodes)
  have first: "drop n ts = atom_tokens a @ nodes_tokens nodes @ [Eof]" using Cons.prems by simp
  have "n < length ts \<and> ts ! n \<noteq> Eof"
  proof (cases "atom_tokens a")
    case (Cons t us)
    then show ?thesis using first drop_nth [of n ts t] atom_tokens_hd by auto
  qed simp
  then show ?case
    using parse_atom_tree [OF first] Cons.prems Cons.IH [OF drop_more [OF first]]
    by (subst parse_nodes.simps) simp
qed

text \<open>C13: the lexer and the parser on any input. The tokens are those of a tree whose groups have two variants or more,
  whose texts are not empty and not side by side, and they spell the input without the backslashes that escape: nothing
  is lost and nothing invented, however the braces are nested or left open. The flag says whether a group is inside
  another one. Of these tokens the parser returns that very tree, or the error that there are too many groups; it never
  meets an unexpected token, never reads past the end, and always returns.\<close>

theorem tokenize_parse:
  "\<exists>g. proper_group g \<and> tokenize src = (group_tokens g @ [Eof], nested_group 0 g)
     \<and> concat (map to_text (fst (tokenize src))) = map fst (inputs src)
     \<and> parse (fst (tokenize src)) =
         Some (if too_many_groups (fst (tokenize src)) then Inl TooManyBraces else Inr g)"
proof -
  have "list_all proper_atom (tree_of src)" using proper_tree_of [of src] by (simp add: proper_nodes_def)
  then have "parse_nodes (fst (tokenize src)) [] 0 = Some (Inr (tree_of src))"
    using parse_nodes_tree [of 0 "fst (tokenize src)" "tree_of src" "[]"] by (simp add: tokenize_tree)
  then show ?thesis
    using spell_tree_of [of src]
    by (intro exI [of _ "make_group (tree_of src)"])
       (simp add: parse_def proper_tree_of tokenize_tree spell_def)
qed

section \<open>The words of a tree\<close>

definition cross :: "bytes list \<Rightarrow> bytes list \<Rightarrow> bytes list" where
  "cross xs ys = concat (map (\<lambda>x. map ((@) x) ys) xs)"

primrec atom_words :: "atom \<Rightarrow> bytes list" and group_words :: "group \<Rightarrow> bytes list" where
  "atom_words (AText txt) = [txt]"
| "atom_words (Expansion gs) = concat (map group_words gs)"
| "group_words (Single a) = atom_words a"
| "group_words (Many nodes) = foldr cross (map atom_words nodes) [[]]"

definition nodes_words :: "atom list \<Rightarrow> bytes list" where
  "nodes_words nodes = foldr cross (map atom_words nodes) [[]]"

lemma nodes_words_simps [simp]:
  "nodes_words [] = [[]]" "nodes_words (a # nodes) = cross (atom_words a) (nodes_words nodes)"
  by (simp_all add: nodes_words_def)

lemma cross_unit [simp]: "cross xs [[]] = xs"
  by (induction xs) (simp_all add: cross_def)

lemma cross_simps [simp]: "cross [] ys = []" "cross (x # xs) ys = map ((@) x) ys @ cross xs ys"
  by (simp_all add: cross_def)

lemma group_words_atoms: "group_words g = nodes_words (atoms_of g)"
  by (cases g) (simp_all add: nodes_words_def)

lemma group_words_make [simp]: "group_words (make_group nodes) = nodes_words nodes"
  by (simp add: group_words_atoms)

lemma length_cross [simp]: "length (cross xs ys) = length xs * length ys"
  by (induction xs) simp_all

lemma words_pos:
  "proper_atom a \<Longrightarrow> 0 < length (atom_words a)"
  "proper_group g \<Longrightarrow> 0 < length (group_words g)"
proof (induction a and g)
  case (Expansion gs)
  then show ?case by (cases gs) (simp_all add: list_all_iff)
next
  case (Many nodes)
  then have "list_all proper_atom nodes" by simp
  then have "0 < length (nodes_words nodes)"
    using Many.IH by (induction nodes) auto
  then show ?case by (simp add: nodes_words_def)
qed simp_all

lemma sat_simps [simp]: "sat (sat a * b) = sat (a * b)" "sat (a * sat b) = sat (a * b)"
  "sat (sat a + b) = sat (a + b)" "sat (a + sat b) = sat (a + b)" "sat (sat a) = sat a"
  "sat n = 0 \<longleftrightarrow> n = 0" "sat 0 = 0" "sat (Suc 0) = Suc 0" "sat 1 = 1"
proof -
  have "sat (sat a * b) = sat (a * b)" for a b
  proof (cases "b = 0 \<or> a \<le> 2 ^ 32 - 1")
    case False
    then have "1 \<le> b" "2 ^ 32 - 1 \<le> a" by simp_all
    then have "2 ^ 32 - 1 \<le> a * b" "2 ^ 32 - 1 \<le> (2 ^ 32 - 1) * b"
      using mult_le_mono [of "2 ^ 32 - 1" a 1 b] mult_le_mono [of "2 ^ 32 - 1" "2 ^ 32 - 1" 1 b] by simp_all
    then show ?thesis using \<open>2 ^ 32 - 1 \<le> a\<close> by (simp add: sat_def min_def)
  qed (auto simp: sat_def)
  from this [of a b] this [of b a] show "sat (sat a * b) = sat (a * b)" "sat (a * sat b) = sat (a * b)"
    by (simp_all add: mult.commute)
qed (auto simp: sat_def)

lemma amount_separated:
  assumes "\<And>g p q ts. g \<in> set gs \<Longrightarrow>
      amount_loop (group_tokens g @ ts) (\<lparr>segment_product = sat p, accumulator = sat q\<rparr> # stack) n =
        amount_loop ts (\<lparr>segment_product = sat (p * length (group_words g)), accumulator = sat q\<rparr> # stack) n"
    and "gs \<noteq> []"
  shows "\<exists>q' p'. q' + p' = q + (\<Sum>g\<leftarrow>gs. length (group_words g)) \<and>
    amount_loop (separated (map group_tokens gs) @ ts) (\<lparr>segment_product = sat 1, accumulator = sat q\<rparr> # stack) n =
      amount_loop ts (\<lparr>segment_product = sat p', accumulator = sat q'\<rparr> # stack) n"
  using assms
proof (induction gs arbitrary: q)
  case (Cons g gs)
  show ?case
  proof (cases gs)
    case Nil
    then show ?thesis using Cons.prems(1) [of g ts 1 q]
      by (intro exI [of _ q] exI [of _ "length (group_words g)"]) simp
  next
    case (Cons h hs)
    let ?rest = "separated (map group_tokens gs) @ ts"
    have step: "amount_loop (separated (map group_tokens (g # gs)) @ ts)
          (\<lparr>segment_product = sat 1, accumulator = sat q\<rparr> # stack) n =
        amount_loop ?rest (\<lparr>segment_product = sat 1, accumulator = sat (q + length (group_words g))\<rparr> # stack) n"
      using Cons.prems(1) [of g "Comma # ?rest" 1 q] by (simp add: Cons)
    have "\<exists>q' p'. q' + p' = (q + length (group_words g)) + (\<Sum>g\<leftarrow>gs. length (group_words g)) \<and>
        amount_loop ?rest (\<lparr>segment_product = sat 1, accumulator = sat (q + length (group_words g))\<rparr> # stack) n =
          amount_loop ts (\<lparr>segment_product = sat p', accumulator = sat q'\<rparr> # stack) n"
      by (rule Cons.IH) (use Cons.prems Cons in auto)
    then show ?thesis unfolding step by (simp only: list.map sum_list.Cons add.assoc)
  qed
qed simp

lemma length_expansion: "length (atom_words (Expansion gs)) = (\<Sum>g\<leftarrow>gs. length (group_words g))"
  by (simp add: length_concat comp_def)

lemma amount_expansion:
  assumes "\<And>g p q ts stack. g \<in> set gs \<Longrightarrow>
      amount_loop (group_tokens g @ ts) (\<lparr>segment_product = sat p, accumulator = sat q\<rparr> # stack) n =
        amount_loop ts (\<lparr>segment_product = sat (p * length (group_words g)), accumulator = sat q\<rparr> # stack) n"
    and "gs \<noteq> []"
  shows "amount_loop (atom_tokens (Expansion gs) @ ts) stack n =
    amount_loop (Close # ts) (\<lparr>segment_product = sat (length (atom_words (Expansion gs))), accumulator = 0\<rparr> # stack) n"
proof -
  obtain q p where "q + p = (\<Sum>g\<leftarrow>gs. length (group_words g))"
    "amount_loop (separated (map group_tokens gs) @ Close # ts) (\<lparr>segment_product = sat 1, accumulator = sat 0\<rparr> # stack) n =
       amount_loop (Close # ts) (\<lparr>segment_product = sat p, accumulator = sat q\<rparr> # stack) n"
    using amount_separated [of gs stack n 0 "Close # ts"] assms by (auto simp del: amount_loop.simps)
  then show ?thesis by (simp add: length_expansion del: atom_words.simps)
qed

lemma amount_tree:
  "proper_atom a \<Longrightarrow>
     amount_loop (atom_tokens a @ ts) (\<lparr>segment_product = sat p, accumulator = sat q\<rparr> # stack) n =
     amount_loop ts (\<lparr>segment_product = sat (p * length (atom_words a)), accumulator = sat q\<rparr> # stack) n"
  "proper_group g \<Longrightarrow>
     amount_loop (group_tokens g @ ts) (\<lparr>segment_product = sat p, accumulator = sat q\<rparr> # stack) n =
     amount_loop ts (\<lparr>segment_product = sat (p * length (group_words g)), accumulator = sat q\<rparr> # stack) n"
proof (induction a and g arbitrary: p q ts stack and p q ts stack)
  case (Expansion gs)
  let ?parent = "\<lparr>segment_product = sat p, accumulator = sat q\<rparr>"
  have "amount_loop (atom_tokens (Expansion gs) @ ts) (?parent # stack) n = amount_loop (Close # ts)
      (\<lparr>segment_product = sat (length (atom_words (Expansion gs))), accumulator = 0\<rparr> # ?parent # stack) n"
    by (rule amount_expansion) (use Expansion in \<open>auto simp: list_all_iff simp del: atom_tokens.simps atom_words.simps\<close>)
  then show ?case by (simp del: atom_tokens.simps atom_words.simps)
next
  case (Many nodes)
  have "list_all proper_atom nodes" using Many.prems by simp
  then have "amount_loop (nodes_tokens nodes @ ts) (\<lparr>segment_product = sat p, accumulator = sat q\<rparr> # stack) n =
      amount_loop ts (\<lparr>segment_product = sat (p * length (nodes_words nodes)), accumulator = sat q\<rparr> # stack) n" for p
    using Many.IH by (induction nodes arbitrary: p) (simp_all add: mult.assoc)
  then show ?case by (simp add: nodes_words_def nodes_tokens_def)
qed simp_all

lemma sat_pos [simp]: "0 < sat n \<longleftrightarrow> 0 < n"
  by (simp add: sat_def)

lemma amount_top:
  assumes "list_all proper_atom nodes" "0 < p"
  shows "amount_loop (nodes_tokens nodes @ ts) [] (if none then 0 else sat p) =
    amount_loop ts [] (if none \<and> list_all is_atext nodes then 0
      else if none then sat (length (nodes_words nodes)) else sat (p * length (nodes_words nodes)))"
  using assms
proof (induction nodes arbitrary: p none)
  case (Cons a nodes)
  have pos: "0 < length (atom_words a)" using Cons.prems words_pos by simp
  show ?case
  proof (cases a)
    case (AText t)
    then show ?thesis using Cons.IH [of p none] Cons.prems by simp
  next
    case (Expansion gs)
    let ?n = "if none then 0 else sat p"
    have "amount_loop (atom_tokens (Expansion gs) @ nodes_tokens nodes @ ts) [] ?n = amount_loop (Close # nodes_tokens nodes @ ts)
        [\<lparr>segment_product = sat (length (atom_words (Expansion gs))), accumulator = 0\<rparr>] ?n"
      by (rule amount_expansion) (use Cons.prems Expansion in \<open>auto simp: list_all_iff intro: amount_tree(2)\<close>)
    then have "amount_loop (atom_tokens a @ nodes_tokens nodes @ ts) [] ?n =
        amount_loop (nodes_tokens nodes @ ts) []
          (if False then 0 else sat ((if none then 1 else p) * length (atom_words a)))"
      using Cons.prems(2) by (simp add: Expansion del: atom_words.simps atom_tokens.simps)
    also have "\<dots> = amount_loop ts []
        (sat ((if none then 1 else p) * length (atom_words a) * length (nodes_words nodes)))"
      using Cons.IH [of "(if none then 1 else p) * length (atom_words a)" False] Cons.prems pos by simp
    finally show ?thesis by (simp add: Expansion mult.assoc del: atom_words.simps atom_tokens.simps)
  qed
qed simp

lemma expanded_amount_tree:
  "list_all proper_atom nodes \<Longrightarrow> calculate_expanded_amount (nodes_tokens nodes @ [Eof]) =
     Some (if list_all is_atext nodes then 0 else sat (length (nodes_words nodes)))"
  using amount_top [of nodes 1 "[Eof]" True] by (simp add: calculate_expanded_amount_def)

end
