(* ===== verification/Brace_Expand.thy ===== *)
theory Brace_Expand
  imports Braces
begin

text \<open>
  Brace expansion of the shell, the expansion itself: \<^verbatim>\<open>expand\<close>, \<^verbatim>\<open>expand_nested\<close>,
  \<^verbatim>\<open>build_expansion_table\<close> and \<^verbatim>\<open>expand_flat\<close> of \<^verbatim>\<open>src/shell_parser/braces.rs\<close>.

  Both routes write into a slice of words allocated in advance and share the counter of the next free word. Each is a
  \<open>partial_function\<close> whose \<open>None\<close> is an index out of range, a number that does not fit, or no result at all;
  \<open>expand_nested_fills\<close> and \<open>expand_flat_fills\<close> show that each returns and fills exactly the words of the tree, in
  order (\<open>fills\<close>), by induction on what is left to expand. The table of variants is shown to hold the slices of tokens of
  the variants. No result here is an error: inside the source only the checks in front can fail.
\<close>

unbundle bit_operations_syntax

section \<open>Loops\<close>

text \<open>A \<^verbatim>\<open>for\<close> loop over a slice, whose body may panic.\<close>

primrec for_loop :: "('a \<Rightarrow> 's \<Rightarrow> 's option) \<Rightarrow> 'a list \<Rightarrow> 's \<Rightarrow> 's option" where
  "for_loop body [] s = Some s"
| "for_loop body (x # xs) s = do { s \<leftarrow> body x s; for_loop body xs s }"

lemma for_loop_mono [partial_function_mono]:
  "(\<And>x s. mono_option (\<lambda>f. body f x s)) \<Longrightarrow> mono_option (\<lambda>f. for_loop (body f) xs s)"
proof (induction xs arbitrary: s)
  case Nil
  then show ?case by (simp add: option.const_mono)
next
  case (Cons x xs)
  then show ?case by (simp add: bind_mono)
qed

section \<open>Expansion over the tree\<close>

definition u16_max :: nat where
  "u16_max = 65535"

text \<open>The words of \<^verbatim>\<open>out\<close> and \<^verbatim>\<open>out_key_counter\<close>. An index outside \<^verbatim>\<open>out\<close> panics, the result \<open>None\<close>.\<close>

type_synonym expand_state = "bytes list \<times> nat"

definition extend_word :: "nat \<Rightarrow> bytes \<Rightarrow> expand_state \<Rightarrow> expand_state option" where
  "extend_word out_key txt s =
     (if out_key < length (fst s) then Some ((fst s)[out_key := fst s ! out_key @ txt], snd s) else None)"

definition word_length :: "nat \<Rightarrow> expand_state \<Rightarrow> nat option" where
  "word_length out_key s = (if out_key < length (fst s) then Some (length (fst s ! out_key)) else None)"

text \<open>The word of variant \<open>j\<close>: the first goes on with the word of the group, each other one starts with a copy of what
  that word held before the group.\<close>

definition variant_key :: "nat \<Rightarrow> nat \<Rightarrow> nat \<Rightarrow> expand_state \<Rightarrow> (nat \<times> expand_state) option" where
  "variant_key j out_key len s =
     (if j = 0 then Some (out_key, s)
      else (let out = fst s; new_key = snd s
            in if new_key < length out \<and> out_key < new_key \<and> len \<le> length (out ! out_key)
               then Some (new_key, (out[new_key := out ! new_key @ take len (out ! out_key)], new_key + 1))
               else None))"

text \<open>The atoms of \<^verbatim>\<open>Many\<close> from index \<open>i\<close> on up to the first expansion.\<close>

fun text_atoms :: "atom list \<Rightarrow> nat \<Rightarrow> nat \<Rightarrow> expand_state \<Rightarrow> ((nat \<times> group list) option \<times> expand_state) option" where
  "text_atoms [] i out_key s = Some (None, s)"
| "text_atoms (atom # atoms) i out_key s =
     (if i > u16_max then None
      else case atom of
             AText txt \<Rightarrow> do { s \<leftarrow> extend_word out_key txt s; text_atoms atoms (i + 1) out_key s }
           | Expansion variants \<Rightarrow> Some (Some (i, variants), s))"

text \<open>\<open>bubble_up\<close> are the cells \<^verbatim>\<open>bubble_up\<close> and \<^verbatim>\<open>bubble_up_next\<close> of \<open>root\<close> and of the groups around it, innermost first:
  a cell is written each time before its group is entered, with the group around it and the index after its atom.\<close>

partial_function (option) expand_nested ::
  "group \<Rightarrow> (group \<times> nat) list \<Rightarrow> nat \<Rightarrow> nat \<Rightarrow> expand_state \<Rightarrow> expand_state option" where
  "expand_nested root bubble_up out_key start s =
     (case root of
        Single atom \<Rightarrow>
          if start > 0 then
            (case bubble_up of [] \<Rightarrow> Some s | b # outer \<Rightarrow> expand_nested (fst b) outer out_key (snd b) s)
          else (case atom of
                  AText txt \<Rightarrow>
                    do { s \<leftarrow> extend_word out_key txt s;
                         case bubble_up of [] \<Rightarrow> Some s | b # outer \<Rightarrow> expand_nested (fst b) outer out_key (snd b) s }
                | Expansion variants \<Rightarrow>
                    do { len \<leftarrow> word_length out_key s;
                         for_loop (\<lambda>v s. do { r \<leftarrow> variant_key (fst v) out_key len s;
                                              expand_nested (snd v) ((root, 1) # bubble_up) (fst r) 0 (snd r) })
                           (enumerate 0 variants) s })
      | Many atoms \<Rightarrow>
          if start \<ge> length atoms then
            (case bubble_up of [] \<Rightarrow> Some s | b # outer \<Rightarrow> expand_nested (fst b) outer out_key (snd b) s)
          else
            do { t \<leftarrow> text_atoms (drop start atoms) start out_key s;
                 case fst t of
                   None \<Rightarrow>
                     (case bubble_up of
                        [] \<Rightarrow> Some (snd t) | b # outer \<Rightarrow> expand_nested (fst b) outer out_key (snd b) (snd t))
                 | Some (i, variants) \<Rightarrow>
                     if i + 1 > u16_max then None
                     else do { len \<leftarrow> word_length out_key (snd t);
                               for_loop (\<lambda>v s. do { r \<leftarrow> variant_key (fst v) out_key len s;
                                                    expand_nested (snd v) ((root, i + 1) # bubble_up) (fst r) 0 (snd r) })
                                 (enumerate 0 variants) (snd t) } })"

section \<open>Expansion over the tokens\<close>

text \<open>Two \<^verbatim>\<open>u16\<close> in a \<^verbatim>\<open>u32\<close>.\<close>

definition variant_new :: "16 word \<Rightarrow> 16 word \<Rightarrow> u32" where
  "variant_new s e = ucast s OR push_bit 16 (ucast e)"

definition variant_start :: "u32 \<Rightarrow> 16 word" where
  "variant_start v = ucast v"

definition variant_end :: "u32 \<Rightarrow> 16 word" where
  "variant_end v = ucast (drop_bit 16 v)"

record brace_state =
  open_idx :: nat
  prev_tok_end :: nat

function table_loop :: "nat \<Rightarrow> brace_token list \<Rightarrow> u32 list \<Rightarrow> brace_state list \<Rightarrow> (brace_token list \<times> u32 list) option" where
  "table_loop i ts table stack =
     (if i \<ge> length ts then Some (ts, table)
      else case ts ! i of
             Open v \<Rightarrow>
               if length table > u16_max then None
               else table_loop (i + 1) (ts[i := Open (v\<lparr>v_idx := length table\<rparr>)]) table
                      (\<lparr>open_idx = i, prev_tok_end = i\<rparr> # stack)
           | Close \<Rightarrow>
               (case stack of
                  [] \<Rightarrow> None
                | brace # stack \<Rightarrow>
                    let table = table @ [variant_new (of_nat (prev_tok_end brace + 1)) (of_nat i)]
                    in case ts ! open_idx brace of
                         Open v \<Rightarrow>
                           if length table > u16_max then None
                           else table_loop (i + 1) (ts[open_idx brace := Open (v\<lparr>v_end := length table\<rparr>)]) table stack
                       | _ \<Rightarrow> table_loop (i + 1) ts table stack)
           | Comma \<Rightarrow>
               (case stack of
                  [] \<Rightarrow> None
                | brace # stack \<Rightarrow>
                    table_loop (i + 1) ts (table @ [variant_new (of_nat (prev_tok_end brace + 1)) (of_nat i)])
                      (brace\<lparr>prev_tok_end := i\<rparr> # stack))
           | _ \<Rightarrow> table_loop (i + 1) ts table stack)"
  by pat_completeness auto
termination
  by (relation "measure (\<lambda>(i, ts, table, stack). length ts - i)") auto

declare table_loop.simps [simp del]

definition build_expansion_table :: "brace_token list \<Rightarrow> (parser_error + brace_token list \<times> u32 list) option" where
  "build_expansion_table ts =
     (if length ts > u16_max then Some (Inl UnexpectedToken) else map_option Inr (table_loop 0 ts [] []))"

text \<open>The tokens of a slice up to the first open brace, with the depth, a \<^verbatim>\<open>u8\<close>, behind it.\<close>

fun text_tokens ::
  "brace_token list \<Rightarrow> nat \<Rightarrow> nat \<Rightarrow> expand_state \<Rightarrow> ((nat \<times> expansion_variants) option \<times> expand_state) option" where
  "text_tokens [] depth out_key s = Some (None, s)"
| "text_tokens (t # ts) depth out_key s =
     (case t of
        Text txt \<Rightarrow> do { s \<leftarrow> extend_word out_key txt s; text_tokens ts depth out_key s }
      | Close \<Rightarrow> if depth = 0 then None else text_tokens ts (depth - 1) out_key s
      | Open v \<Rightarrow> if depth + 1 > 255 then None else Some (Some (depth + 1, v), s)
      | _ \<Rightarrow> text_tokens ts depth out_key s)"

partial_function (option) expand_flat ::
  "brace_token list \<Rightarrow> u32 list \<Rightarrow> nat \<Rightarrow> nat \<Rightarrow> nat \<Rightarrow> nat \<Rightarrow> expand_state \<Rightarrow> expand_state option" where
  "expand_flat ts table out_key depth start finish s =
     (if start \<ge> length ts \<or> finish > length ts then Some s
      else if start > finish then None
      else
        do { t \<leftarrow> text_tokens (take (finish - start) (drop start ts)) depth out_key s;
             case fst t of
               None \<Rightarrow> Some (snd t)
             | Some (depth, v) \<Rightarrow>
                 if v_idx v \<ge> v_end v \<or> v_end v > length table then None
                 else
                   do { len \<leftarrow> word_length out_key (snd t);
                        for_loop (\<lambda>w s. do {
                            r \<leftarrow> variant_key (fst w) out_key len s;
                            s \<leftarrow> expand_flat ts table (fst r) depth (unat (variant_start (snd w))) (unat (variant_end (snd w))) (snd r);
                            expand_flat ts table (fst r) depth (unat (variant_end (table ! (v_end v - 1)))) finish s })
                          (enumerate 0 (take (v_end v - v_idx v) (drop (v_idx v) table))) (snd t) } })"

definition expand :: "brace_token list \<Rightarrow> bytes list \<Rightarrow> bool \<Rightarrow> (parser_error + bytes list) option" where
  "expand ts out contains_nested =
     (if too_many_groups ts then Some (Inl TooManyBraces)
      else if \<not> contains_nested then
        do { r \<leftarrow> build_expansion_table ts;
             case r of
               Inl e \<Rightarrow> Some (Inl e)
             | Inr (ts, table) \<Rightarrow> map_option (Inr \<circ> fst) (expand_flat ts table 0 0 0 (length ts) (out, 1)) }
      else
        do { r \<leftarrow> parse ts;
             case r of
               Inl e \<Rightarrow> Some (Inl e)
             | Inr root \<Rightarrow> map_option (Inr \<circ> fst) (expand_nested root [] 0 0 (out, 1)) })"

section \<open>Words of lists of atoms\<close>

lemma map_prefix_Nil [simp]: "map ((@) []) xs = xs"
  by (induction xs) simp_all

lemma cross_append [simp]: "cross (xs @ ys) zs = cross xs zs @ cross ys zs"
  by (simp add: cross_def)

lemma cross_map_prefix: "cross (map ((@) p) xs) ys = map ((@) p) (cross xs ys)"
  by (induction xs) simp_all

lemma cross_assoc: "cross (cross xs ys) zs = cross xs (cross ys zs)"
  by (induction xs) (simp_all add: cross_map_prefix)

lemma cross_single [simp]: "cross [[]] ys = ys"
  by simp

lemma nodes_words_append: "nodes_words (xs @ ys) = cross (nodes_words xs) (nodes_words ys)"
  by (induction xs) (simp_all add: cross_assoc)

lemma cross_concat: "cross (concat xss) ys = concat (map (\<lambda>xs. cross xs ys) xss)"
  by (induction xss) simp_all

lemma nodes_words_texts: "nodes_words (map AText ss @ nodes) = map ((@) (concat ss)) (nodes_words nodes)"
  by (induction ss) simp_all

lemma nodes_words_expansion:
  "nodes_words (Expansion gs # nodes) = concat (map (\<lambda>g. nodes_words (atoms_of g @ nodes)) gs)"
  by (simp add: cross_concat nodes_words_append group_words_atoms comp_def)

lemma split_texts:
  obtains ss where "nodes = map AText ss"
  | ss gs rest where "nodes = map AText ss @ Expansion gs # rest"
proof (induction nodes arbitrary: thesis)
  case (Cons a nodes)
  show ?case
  proof (cases a)
    case (AText t)
    show ?thesis
      by (rule Cons.IH)
         (metis AText Cons.prems(1) list.simps(9), metis AText Cons.prems(2) append_Cons list.simps(9))
  next
    case (Expansion gs)
    then show ?thesis using Cons.prems(2) [of "[]" gs nodes] by simp
  qed
qed simp

section \<open>The nested expansion\<close>

primrec small_atom :: "atom \<Rightarrow> bool" and small_group :: "group \<Rightarrow> bool" where
  "small_atom (AText txt) = True"
| "small_atom (Expansion gs) = list_all id (map small_group gs)"
| "small_group (Single a) = small_atom a"
| "small_group (Many nodes) = (length nodes < u16_max \<and> list_all id (map small_atom nodes))"

primrec atom_weight :: "atom \<Rightarrow> nat" and group_weight :: "group \<Rightarrow> nat" where
  "atom_weight (AText txt) = 1"
| "atom_weight (Expansion gs) = 2 + sum_list (map group_weight gs)"
| "group_weight (Single a) = atom_weight a"
| "group_weight (Many nodes) = sum_list (map atom_weight nodes)"

definition tree_weight :: "atom list \<Rightarrow> nat" where
  "tree_weight nodes = sum_list (map atom_weight nodes)"

lemma tree_weight_simps [simp]:
  "tree_weight [] = 0" "tree_weight (a # nodes) = atom_weight a + tree_weight nodes" "tree_weight (xs @ ys) = tree_weight xs + tree_weight ys"
  by (simp_all add: tree_weight_def)

lemma group_weight_atoms: "group_weight g = tree_weight (atoms_of g)"
  by (cases g) (simp_all add: tree_weight_def)

lemma weight_variant: "g \<in> set gs \<Longrightarrow> tree_weight (atoms_of g) + 2 \<le> atom_weight (Expansion gs)"
  by (induction gs) (auto simp: group_weight_atoms)

text \<open>The atoms still to expand: those of the group from its index on, then those of the groups around it.\<close>

fun around :: "(group \<times> nat) list \<Rightarrow> atom list" where
  "around [] = []"
| "around ((g, n) # outer) = drop n (atoms_of g) @ around outer"

definition wf_group :: "group \<Rightarrow> bool" where
  "wf_group g \<longleftrightarrow> proper_group g \<and> small_group g"

lemma wf_variant: "wf_group g \<Longrightarrow> Expansion gs \<in> set (atoms_of g) \<Longrightarrow> h \<in> set gs \<Longrightarrow> wf_group h"
  by (cases g) (auto simp: wf_group_def list_all_iff)

text \<open>The words are written from \<open>out_key\<close> on: the first goes on with the word there, the others take the empty words
  from the counter on.\<close>

definition fills :: "nat \<Rightarrow> bytes list \<Rightarrow> expand_state \<Rightarrow> expand_state option \<Rightarrow> bool" where
  "fills out_key words s r \<longleftrightarrow>
     (\<forall>xs ys. out_key < length xs \<and> words \<noteq> [] \<and> s = (xs @ replicate (length words - 1) [] @ ys, length xs) \<longrightarrow>
       r = Some (xs[out_key := xs ! out_key @ hd words] @ map ((@) (xs ! out_key)) (tl words) @ ys,
                 length xs + (length words - 1)))"

lemma fillsD:
  "fills out_key words (xs @ replicate (length words - 1) [] @ ys, length xs) r \<Longrightarrow> out_key < length xs \<Longrightarrow> words \<noteq> [] \<Longrightarrow>
     r = Some (xs[out_key := xs ! out_key @ hd words] @ map ((@) (xs ! out_key)) (tl words) @ ys,
               length xs + (length words - 1))"
  unfolding fills_def by blast

lemma for_each_rest:
  assumes "\<And>g k s. g \<in> set gs \<Longrightarrow> fills k (W g) s (body g k s)"
    and "\<And>g. g \<in> set gs \<Longrightarrow> W g \<noteq> []"
    and "out_key < length xs" "len \<le> length (xs ! out_key)" "j > 0"
  shows "for_loop (\<lambda>v s. do { r \<leftarrow> variant_key (fst v) out_key len s; body (snd v) (fst r) (snd r) })
      (enumerate j gs) (xs @ replicate (length (concat (map W gs))) [] @ ys, length xs) =
    Some (xs @ map ((@) (take len (xs ! out_key))) (concat (map W gs)) @ ys, length xs + length (concat (map W gs)))"
  using assms
proof (induction gs arbitrary: xs j)
  case (Cons g gs)
  let ?p = "take len (xs ! out_key)"
  let ?m = "length (concat (map W gs))"
  have ne: "W g \<noteq> []" using Cons.prems(2) by simp
  then obtain w ws where W: "W g = w # ws" by (cases "W g") auto
  let ?xs = "xs @ map ((@) ?p) (W g)"
  have "variant_key j out_key len (xs @ replicate (length (concat (map W (g # gs)))) [] @ ys, length xs) =
      Some (length xs, ((xs @ [?p]) @ replicate (length (W g) - 1) [] @ (replicate ?m [] @ ys), length (xs @ [?p])))"
    using Cons.prems(3-5)
    by (simp add: variant_key_def W nth_append replicate_add list_update_append Let_def)
  moreover have "body g (length xs) ((xs @ [?p]) @ replicate (length (W g) - 1) [] @ (replicate ?m [] @ ys), length (xs @ [?p])) =
      Some (?xs @ replicate ?m [] @ ys, length ?xs)"
    using fillsD [OF Cons.prems(1) [of g "length xs"]] ne
    by (subst fillsD [OF Cons.prems(1) [of g "length xs"]]) (simp_all add: W nth_append list_update_append)
  moreover have "for_loop (\<lambda>v s. do { r \<leftarrow> variant_key (fst v) out_key len s; body (snd v) (fst r) (snd r) })
      (enumerate (Suc j) gs) (?xs @ replicate ?m [] @ ys, length ?xs) =
    Some (?xs @ map ((@) (take len (?xs ! out_key))) (concat (map W gs)) @ ys, length ?xs + ?m)"
    by (rule Cons.IH) (use Cons.prems in \<open>auto simp: nth_append\<close>)
  ultimately show ?case using Cons.prems(3) by (simp add: nth_append add.assoc)
qed simp

lemma for_each_variants:
  assumes "\<And>g k s. g \<in> set gs \<Longrightarrow> fills k (W g) s (body g k s)"
    and "\<And>g. g \<in> set gs \<Longrightarrow> W g \<noteq> []" and "gs \<noteq> []"
  shows "fills out_key (concat (map W gs)) s
    (do { len \<leftarrow> word_length out_key s;
          for_loop (\<lambda>v s. do { r \<leftarrow> variant_key (fst v) out_key len s; body (snd v) (fst r) (snd r) }) (enumerate 0 gs) s })"
  unfolding fills_def
proof (intro allI impI, elim conjE)
  fix xs ys
  assume key: "out_key < length xs"
    and s: "s = (xs @ replicate (length (concat (map W gs)) - 1) [] @ ys, length xs)"
  obtain g hs where gs: "gs = g # hs" using assms(3) by (cases gs) auto
  have ne: "W g \<noteq> []" using assms(2) gs by simp
  then obtain w ws where W: "W g = w # ws" by (cases "W g") auto
  let ?m = "length (concat (map W hs))"
  let ?len = "length (xs ! out_key)"
  let ?xs = "xs[out_key := xs ! out_key @ w] @ map ((@) (xs ! out_key)) ws"
  have st: "s = (xs @ replicate (length (W g) - 1) [] @ (replicate ?m [] @ ys), length xs)"
    by (simp add: s gs W replicate_add)
  have first: "body g out_key s = Some (?xs @ replicate ?m [] @ ys, length ?xs)"
    unfolding st using key ne
    by (subst fillsD [OF assms(1) [of g out_key]]) (simp_all add: W gs)
  have take: "take ?len (?xs ! out_key) = xs ! out_key" using key by (simp add: nth_append)
  have rest: "for_loop (\<lambda>v s. do { r \<leftarrow> variant_key (fst v) out_key ?len s; body (snd v) (fst r) (snd r) })
      (enumerate 1 hs) (?xs @ replicate ?m [] @ ys, length ?xs) =
    Some (?xs @ map ((@) (take ?len (?xs ! out_key))) (concat (map W hs)) @ ys, length ?xs + ?m)"
    by (rule for_each_rest) (use assms gs key in \<open>auto simp: nth_append\<close>)
  have "word_length out_key s = Some ?len" using key by (simp add: s word_length_def nth_append)
  then show "(do { len \<leftarrow> word_length out_key s;
          for_loop (\<lambda>v s. do { r \<leftarrow> variant_key (fst v) out_key len s; body (snd v) (fst r) (snd r) }) (enumerate 0 gs) s }) =
      Some (xs[out_key := xs ! out_key @ hd (concat (map W gs))] @ map ((@) (xs ! out_key)) (tl (concat (map W gs))) @ ys,
        length xs + (length (concat (map W gs)) - 1))"
    using rest unfolding take by (simp add: gs W variant_key_def first add.assoc)
qed

lemma fills_prefix:
  assumes "\<And>out c. s = (out, c) \<Longrightarrow> k < length out \<Longrightarrow> fills k words (out[k := out ! k @ p], c) r"
  shows "fills k (map ((@) p) words) s r"
  unfolding fills_def
proof (intro allI impI, elim conjE)
  fix xs ys
  assume key: "k < length xs" and ne: "map ((@) p) words \<noteq> []"
    and s: "s = (xs @ replicate (length (map ((@) p) words) - 1) [] @ ys, length xs)"
  let ?xs = "xs[k := xs ! k @ p]"
  have "fills k words (?xs @ replicate (length words - 1) [] @ ys, length ?xs) r"
    using assms [OF s] key by (simp add: list_update_append nth_append)
  from fillsD [OF this] show "r = Some (xs[k := xs ! k @ hd (map ((@) p) words)] @
      map ((@) (xs ! k)) (tl (map ((@) p) words)) @ ys, length xs + (length (map ((@) p) words) - 1))"
    using key ne by (cases words) simp_all
qed

lemma fills_unit: "fills k [[]] s (Some s)"
  by (auto simp: fills_def)

lemma text_atoms_texts:
  "k < length out \<Longrightarrow> i + length ss \<le> u16_max \<Longrightarrow>
     text_atoms (map AText ss @ nodes) i k (out, c) = text_atoms nodes (i + length ss) k (out[k := out ! k @ concat ss], c)"
proof (induction ss arbitrary: i out)
  case (Cons t ss)
  have "text_atoms (map AText ss @ nodes) (i + 1) k (out[k := out ! k @ t], c) =
      text_atoms nodes (i + 1 + length ss) k ((out[k := out ! k @ t])[k := out[k := out ! k @ t] ! k @ concat ss], c)"
    by (rule Cons.IH) (use Cons.prems in simp_all)
  then show ?case using Cons.prems by (simp add: extend_word_def)
qed simp

lemma nodes_words_nonempty: "list_all proper_atom nodes \<Longrightarrow> nodes_words nodes \<noteq> []"
proof (induction nodes)
  case (Cons a nodes)
  then have "0 < length (cross (atom_words a) (nodes_words nodes))" using words_pos(1) [of a] by simp
  then show ?case by (simp del: length_cross)
qed simp

lemma proper_atoms_of: "proper_group g \<Longrightarrow> list_all proper_atom (atoms_of g)"
  by (cases g) simp_all

lemma proper_around:
  "list_all (wf_group \<circ> fst) frames \<Longrightarrow> list_all proper_atom (around frames)"
proof (induction frames rule: around.induct)
  case (2 g n outer)
  then have "list_all proper_atom (atoms_of g)" by (simp add: wf_group_def proper_atoms_of)
  then show ?case using 2 by (auto simp: list_all_iff dest: in_set_dropD)
qed simp

text \<open>The two ways on: to the group around, and into the variants of an expansion.\<close>

definition go_up :: "(group \<times> nat) list \<Rightarrow> nat \<Rightarrow> expand_state \<Rightarrow> expand_state option" where
  "go_up frames k s = (case frames of [] \<Rightarrow> Some s | b # outer \<Rightarrow> expand_nested (fst b) outer k (snd b) s)"

definition go_in :: "group \<Rightarrow> nat \<Rightarrow> (group \<times> nat) list \<Rightarrow> group list \<Rightarrow> nat \<Rightarrow> expand_state \<Rightarrow> expand_state option" where
  "go_in root i frames gs k s =
     do { len \<leftarrow> word_length k s;
          for_loop (\<lambda>v s. do { r \<leftarrow> variant_key (fst v) k len s;
                               expand_nested (snd v) ((root, i) # frames) (fst r) 0 (snd r) }) (enumerate 0 gs) s }"

lemma go_up_case: "(case frames of [] \<Rightarrow> Some s | b # outer \<Rightarrow> expand_nested (fst b) outer k (snd b) s) = go_up frames k s"
  by (simp add: go_up_def)

lemmas nested_steps = go_up_case go_in_def [symmetric]

lemma single_fills:
  assumes up: "\<And>s. fills k (nodes_words (around frames)) s (go_up frames k s)"
    and inner: "\<And>gs s. a = Expansion gs \<Longrightarrow> start = 0 \<Longrightarrow>
      fills k (nodes_words (Expansion gs # around frames)) s (go_in (Single a) 1 frames gs k s)"
  shows "fills k (nodes_words (drop start [a] @ around frames)) s (expand_nested (Single a) frames k start s)"
proof (cases "start > 0")
  case True
  then show ?thesis using up by (subst expand_nested.simps) (simp add: nested_steps)
next
  case False
  show ?thesis
  proof (cases a)
    case (AText t)
    have "fills k (map ((@) t) (nodes_words (around frames))) s (do { s \<leftarrow> extend_word k t s; go_up frames k s })"
      by (rule fills_prefix) (use up in \<open>simp add: extend_word_def\<close>)
    then show ?thesis using False by (subst expand_nested.simps) (simp add: AText nested_steps)
  next
    case (Expansion gs)
    then show ?thesis
      using False inner by (subst expand_nested.simps) (simp add: nested_steps del: nodes_words_simps)
  qed
qed

lemma many_fills:
  assumes up: "\<And>s. fills k (nodes_words (around frames)) s (go_up frames k s)"
    and inner: "\<And>ss gs rest s. drop start nodes = map AText ss @ Expansion gs # rest \<Longrightarrow>
      fills k (nodes_words (Expansion gs # rest @ around frames)) s
        (go_in (Many nodes) (start + length ss + 1) frames gs k s)"
    and small: "length nodes < u16_max"
  shows "fills k (nodes_words (drop start nodes @ around frames)) s (expand_nested (Many nodes) frames k start s)"
proof (cases "start \<ge> length nodes")
  case True
  then show ?thesis using up by (subst expand_nested.simps) (simp add: nested_steps)
next
  case False
  show ?thesis
  proof (cases "drop start nodes" rule: split_texts)
    case (1 ss)
    have len: "start + length ss \<le> u16_max" using arg_cong [OF 1, of length] small False by simp
    have "fills k (map ((@) (concat ss)) (nodes_words (around frames))) s (expand_nested (Many nodes) frames k start s)"
    proof (rule fills_prefix)
      fix out c assume s: "s = (out, c)" and key: "k < length out"
      have "expand_nested (Many nodes) frames k start s = go_up frames k (out[k := out ! k @ concat ss], c)"
        using False text_atoms_texts [OF key len, of "[]" c]
        by (subst expand_nested.simps) (simp add: 1 s nested_steps)
      then show "fills k (nodes_words (around frames)) (out[k := out ! k @ concat ss], c)
          (expand_nested (Many nodes) frames k start s)"
        using up by simp
    qed
    then show ?thesis by (simp add: 1 nodes_words_texts)
  next
    case (2 ss gs rest)
    let ?i = "start + length ss"
    have len: "?i + 1 \<le> u16_max" using arg_cong [OF 2, of length] small False by simp
    have "fills k (map ((@) (concat ss)) (nodes_words (Expansion gs # rest @ around frames))) s
        (expand_nested (Many nodes) frames k start s)"
    proof (rule fills_prefix)
      fix out c assume s: "s = (out, c)" and key: "k < length out"
      have "expand_nested (Many nodes) frames k start s =
          go_in (Many nodes) (?i + 1) frames gs k (out[k := out ! k @ concat ss], c)"
        using False len text_atoms_texts [OF key, of start ss "Expansion gs # rest" c]
        by (subst expand_nested.simps) (simp add: 2 s nested_steps)
      then show "fills k (nodes_words (Expansion gs # rest @ around frames)) (out[k := out ! k @ concat ss], c)
          (expand_nested (Many nodes) frames k start s)"
        using inner [OF 2] by simp
    qed
    then show ?thesis by (simp add: 2 nodes_words_texts del: nodes_words_simps)
  qed
qed

lemma go_in_fills:
  assumes "\<And>g k s. g \<in> set gs \<Longrightarrow>
      fills k (nodes_words (atoms_of g @ drop i (atoms_of root) @ around frames)) s (expand_nested g ((root, i) # frames) k 0 s)"
    and "wf_group root" "list_all (wf_group \<circ> fst) frames" "Expansion gs \<in> set (atoms_of root)"
  shows "fills k (nodes_words (Expansion gs # drop i (atoms_of root) @ around frames)) s (go_in root i frames gs k s)"
proof -
  let ?rest = "drop i (atoms_of root) @ around frames"
  have atoms: "list_all proper_atom (atoms_of root)" using assms(2) by (simp add: wf_group_def proper_atoms_of)
  then have "proper_atom (Expansion gs)" using assms(4) by (simp only: list_all_iff)
  then have gs: "gs \<noteq> []" by auto
  have "nodes_words (atoms_of g @ ?rest) \<noteq> []" if "g \<in> set gs" for g
  proof (rule nodes_words_nonempty)
    have "list_all proper_atom (drop i (atoms_of root))" using atoms by (auto simp: list_all_iff dest: in_set_dropD)
    then show "list_all proper_atom (atoms_of g @ ?rest)"
      using wf_variant [OF assms(2,4) that] proper_around [OF assms(3)] by (simp add: wf_group_def proper_atoms_of)
  qed
  then show ?thesis
    unfolding nodes_words_expansion go_in_def
    by (intro for_each_variants [where body = "\<lambda>g k s. expand_nested g ((root, i) # frames) k 0 s"] assms(1) gs)
qed

lemma expand_nested_fills:
  "wf_group root \<Longrightarrow> list_all (wf_group \<circ> fst) frames \<Longrightarrow>
     fills k (nodes_words (drop start (atoms_of root) @ around frames)) s (expand_nested root frames k start s)"
proof (induction "tree_weight (drop start (atoms_of root) @ around frames) + length frames"
    arbitrary: root frames k start s rule: less_induct)
  case less
  have up: "fills k (nodes_words (around frames)) s (go_up frames k s)" for s
  proof (cases frames)
    case (Cons b outer)
    then show ?thesis
      using less.hyps [of "snd b" "fst b" outer k s] less.prems by (cases b) (simp add: go_up_def)
  qed (simp add: fills_unit go_up_def)
  have inner: "fills k (nodes_words (Expansion gs # drop i (atoms_of root) @ around frames)) s (go_in root i frames gs k s)"
    if "Expansion gs \<in> set (atoms_of root)"
      and "tree_weight (Expansion gs # drop i (atoms_of root)) \<le> tree_weight (drop start (atoms_of root))" for gs i s
    using that less.hyps [of 0 _ "(root, i) # frames"] less.prems wf_variant [OF less.prems(1) that(1)] weight_variant [of _ gs]
    by (intro go_in_fills) force+
  show ?case
  proof (cases root)
    case (Single a)
    show ?thesis
      unfolding Single atoms_of.simps
      by (rule single_fills [OF up]) (use inner [of _ 1] Single in simp)
  next
    case (Many nodes)
    show ?thesis
      unfolding Many atoms_of.simps
    proof (rule many_fills [OF up])
      show "length nodes < u16_max" using less.prems(1) by (simp add: Many wf_group_def)
      fix ss gs rest s assume split: "drop start nodes = map AText ss @ Expansion gs # rest"
      have "drop (start + length ss + 1) nodes = rest"
        using drop_more [of start nodes "map AText ss @ [Expansion gs]" rest] split by simp
      moreover have "Expansion gs \<in> set nodes"
        using in_set_dropD [of "Expansion gs" start nodes] split by simp
      ultimately show "fills k (nodes_words (Expansion gs # rest @ around frames)) s
          (go_in (Many nodes) (start + length ss + 1) frames gs k s)"
        using inner [of gs "start + length ss + 1"] split by (simp add: Many)
    qed
  qed
qed

section \<open>Few groups make small lists of atoms\<close>

definition open_count :: "brace_token list \<Rightarrow> nat" where
  "open_count ts = length (filter is_open ts)"

lemma opens_simps [simp]:
  "open_count [] = 0" "open_count (ts @ us) = open_count ts + open_count us"
  "open_count (Open v # ts) = Suc (open_count ts)" "open_count (Close # ts) = open_count ts" "open_count (Comma # ts) = open_count ts"
  "open_count (Text txt # ts) = open_count ts" "open_count (Eof # ts) = open_count ts"
  by (simp_all add: open_count_def is_open_def)

lemma opens_separated: "us \<in> set tss \<Longrightarrow> open_count us \<le> open_count (separated tss)"
  by (induction tss rule: separated.induct) auto

lemma opens_nodes: "a \<in> set nodes \<Longrightarrow> open_count (atom_tokens a) \<le> open_count (nodes_tokens nodes)"
  by (induction nodes) auto

lemma apart_length:
  "apart nodes \<Longrightarrow> length nodes \<le> 2 * open_count (nodes_tokens nodes) + (if nodes \<noteq> [] \<and> is_atext (hd nodes) then 1 else 0)"
proof (induction nodes rule: apart.induct)
  case (2 a)
  then show ?case by (cases a) auto
next
  case (3 a b nodes)
  then show ?case by (cases a) (auto split: if_splits)
qed simp

lemma length_separated: "length tss \<le> length (separated tss) + 1"
  by (induction tss rule: separated.induct) auto

lemma few_groups_small:
  "proper_atom a \<Longrightarrow> open_count (atom_tokens a) \<le> max_brace_groups \<Longrightarrow> small_atom a"
  "proper_group g \<Longrightarrow> open_count (group_tokens g) \<le> max_brace_groups \<Longrightarrow> small_group g"
proof (induction a and g)
  case (Expansion gs)
  have "open_count (group_tokens g) \<le> max_brace_groups" if "g \<in> set gs" for g
    using that Expansion.prems(2) opens_separated [of "group_tokens g" "map group_tokens gs"] by simp
  then show ?case using Expansion by (simp add: list_all_iff)
next
  case (Many nodes)
  have few: "open_count (nodes_tokens nodes) \<le> max_brace_groups" using Many.prems(2) by (simp add: nodes_tokens_def)
  have "length nodes < u16_max"
    using apart_length [of nodes] Many.prems(1) few by (auto simp: u16_max_def max_brace_groups_def split: if_splits)
  moreover have "open_count (atom_tokens a) \<le> max_brace_groups" if "a \<in> set nodes" for a
    using opens_nodes [OF that] few by simp
  ultimately show ?case using Many by (simp add: list_all_iff)
qed simp_all

lemma too_many_opens: "too_many_groups ts \<longleftrightarrow> max_brace_groups < open_count ts"
  by (simp add: too_many_groups_def open_count_def)

section \<open>The table of variants\<close>

lemma bit_beyond_u16: "\<not> bit (s :: 16 word) (16 + n)"
  using bit_imp_le_length [of s "16 + n"] by auto

lemma variant_roundtrip [simp]:
  "variant_start (variant_new s e) = s" "variant_end (variant_new s e) = e"
  by (auto intro!: bit_eqI simp: variant_start_def variant_end_def variant_new_def bit_simps bit_beyond_u16)

fun variants_at :: "nat \<Rightarrow> group list \<Rightarrow> u32 list" where
  "variants_at p [] = []"
| "variants_at p (g # gs) =
     variant_new (of_nat p) (of_nat (p + length (group_tokens g))) # variants_at (p + length (group_tokens g) + 1) gs"

fun table_of :: "nat \<Rightarrow> atom list \<Rightarrow> u32 list" where
  "table_of p [] = []"
| "table_of p (AText txt # nodes) = table_of (p + 1) nodes"
| "table_of p (Expansion gs # nodes) =
     variants_at (p + 1) gs @ table_of (p + length (atom_tokens (Expansion gs))) nodes"

fun marked :: "nat \<Rightarrow> atom list \<Rightarrow> brace_token list" where
  "marked m [] = []"
| "marked m (AText txt # nodes) = Text txt # marked m nodes"
| "marked m (Expansion gs # nodes) =
     Open \<lparr>v_idx = m, v_end = m + length gs\<rparr> # separated (map group_tokens gs) @ Close # marked (m + length gs) nodes"

definition flat_group :: "group \<Rightarrow> bool" where
  "flat_group g \<longleftrightarrow> list_all is_atext (atoms_of g)"

fun flat_atom :: "atom \<Rightarrow> bool" where
  "flat_atom (AText txt) = True"
| "flat_atom (Expansion gs) = (gs \<noteq> [] \<and> list_all flat_group gs)"

lemma length_variants_at [simp]: "length (variants_at p gs) = length gs"
  by (induction p gs rule: variants_at.induct) simp_all

lemma length_marked [simp]: "length (marked m nodes) = length (nodes_tokens nodes)"
  by (induction m nodes rule: marked.induct) simp_all

lemma nth_middle: "n = length xs \<Longrightarrow> (xs @ y # ys) ! n = y"
  by simp

lemma table_text:
  assumes "i = length xs"
  shows "table_loop i (xs @ Text txt # ys) table stack = table_loop (Suc i) (xs @ Text txt # ys) table stack"
  using assms by (subst table_loop.simps) simp

lemma table_comma:
  assumes "i = length xs" "q = p + 1"
  shows "table_loop i (xs @ Comma # ys) table [\<lparr>open_idx = j, prev_tok_end = p\<rparr>] = table_loop (Suc i) (xs @ Comma # ys)
    (table @ [variant_new (of_nat q) (of_nat i)]) [\<lparr>open_idx = j, prev_tok_end = i\<rparr>]"
  using assms by (subst table_loop.simps) simp

lemma table_texts:
  assumes "list_all is_atext nodes" "i = length xs"
  shows "table_loop i (xs @ nodes_tokens nodes @ ys) table stack =
    table_loop (i + length (nodes_tokens nodes)) (xs @ nodes_tokens nodes @ ys) table stack"
  using assms
proof (induction nodes arbitrary: i xs)
  case (Cons a nodes)
  then obtain t where a: "a = AText t" by (cases a) auto
  have "table_loop (Suc i) ((xs @ [Text t]) @ nodes_tokens nodes @ ys) table stack =
      table_loop (Suc i + length (nodes_tokens nodes)) ((xs @ [Text t]) @ nodes_tokens nodes @ ys) table stack"
    by (rule Cons.IH) (use Cons.prems in simp_all)
  then show ?case using Cons.prems(2) by (simp add: a table_text)
qed simp

lemma table_close:
  assumes "i = length xs" "j < length xs" "xs ! j = Open v" "length table < u16_max" "q = p + 1"
  shows "table_loop i (xs @ Close # ys) table [\<lparr>open_idx = j, prev_tok_end = p\<rparr>] =
    table_loop (Suc i) (xs[j := Open (v\<lparr>v_end := length table + 1\<rparr>)] @ Close # ys)
      (table @ [variant_new (of_nat q) (of_nat i)]) []"
  using assms by (subst table_loop.simps) (simp add: nth_append list_update_append Let_def)

lemma table_group:
  assumes "gs \<noteq> []" "list_all flat_group gs" "i = length xs" "j < length xs" "xs ! j = Open v" "i = p + 1"
    "length table + length gs \<le> u16_max"
  shows "table_loop i (xs @ separated (map group_tokens gs) @ Close # ys) table [\<lparr>open_idx = j, prev_tok_end = p\<rparr>] =
    table_loop (i + length (separated (map group_tokens gs)) + 1)
      (xs[j := Open (v\<lparr>v_end := length table + length gs\<rparr>)] @ separated (map group_tokens gs) @ Close # ys)
      (table @ variants_at i gs) []"
  using assms
proof (induction gs arbitrary: i xs table p)
  case (Cons g gs)
  let ?n = "length (group_tokens g)"
  have texts: "table_loop (length xs) (xs @ group_tokens g @ zs) table stack = table_loop (length xs + ?n) ((xs @ group_tokens g) @ zs) table stack" for zs stack
    using table_texts [of "atoms_of g" i xs zs table stack] Cons.prems by (simp add: group_tokens_atoms flat_group_def)
  show ?case
  proof (cases "gs = []")
    case True
    then show ?thesis
      using table_close [of "i + ?n" "xs @ group_tokens g" j v table i p ys] Cons.prems
      by (simp add: texts nth_append list_update_append)
  next
    case False
    then have sep: "separated (group_tokens g # map group_tokens gs) = group_tokens g @ Comma # separated (map group_tokens gs)"
      by (cases gs) simp_all
    let ?table = "table @ [variant_new (of_nat i) (of_nat (i + ?n))]"
    have "table_loop (i + ?n + 1) ((xs @ group_tokens g @ [Comma]) @ separated (map group_tokens gs) @ Close # ys)
        ?table [\<lparr>open_idx = j, prev_tok_end = i + ?n\<rparr>] =
      table_loop (i + ?n + 1 + length (separated (map group_tokens gs)) + 1)
        ((xs @ group_tokens g @ [Comma])[j := Open (v\<lparr>v_end := length ?table + length gs\<rparr>)] @
          separated (map group_tokens gs) @ Close # ys)
        (?table @ variants_at (i + ?n + 1) gs) []"
      by (rule Cons.IH) (use Cons.prems False in \<open>simp_all add: nth_append\<close>)
    then show ?thesis
      using Cons.prems table_comma [of "i + ?n" "xs @ group_tokens g" i p "separated (map group_tokens gs) @ Close # ys" table j]
      by (simp add: sep texts list_update_append add.assoc)
  qed
qed simp

lemma table_nodes:
  assumes "list_all flat_atom nodes" "i = length xs" "length table \<le> i" "i + length (nodes_tokens nodes) \<le> u16_max"
  shows "table_loop i (xs @ nodes_tokens nodes @ ys) table [] =
    table_loop (i + length (nodes_tokens nodes)) (xs @ marked (length table) nodes @ ys) (table @ table_of i nodes) []"
  using assms
proof (induction nodes arbitrary: i xs table)
  case (Cons a nodes)
  show ?case
  proof (cases a)
    case (AText t)
    have "table_loop (Suc i) ((xs @ [Text t]) @ nodes_tokens nodes @ ys) table [] =
      table_loop (Suc i + length (nodes_tokens nodes)) ((xs @ [Text t]) @ marked (length table) nodes @ ys)
        (table @ table_of (Suc i) nodes) []"
      by (rule Cons.IH) (use Cons.prems in \<open>simp_all add: AText\<close>)
    then show ?thesis using Cons.prems(2) by (simp add: AText table_text)
  next
    case (Expansion gs)
    let ?sep = "separated (map group_tokens gs)"
    have gs: "gs \<noteq> []" "list_all flat_group gs" using Cons.prems(1) by (simp_all add: Expansion)
    have len: "length gs \<le> length ?sep + 1"
      using length_separated [of "map group_tokens gs"] by simp
    let ?open = "Open \<lparr>v_idx = length table, v_end = 0\<rparr>"
    let ?xs = "xs @ Open \<lparr>v_idx = length table, v_end = length table + length gs\<rparr> # ?sep @ [Close]"
    let ?table = "table @ variants_at (Suc i) gs"
    have "table_loop i (xs @ nodes_tokens (a # nodes) @ ys) table [] =
      table_loop (Suc i) ((xs @ [?open]) @ ?sep @ Close # nodes_tokens nodes @ ys) table [\<lparr>open_idx = i, prev_tok_end = i\<rparr>]"
      using Cons.prems by (subst table_loop.simps) (simp add: Expansion default_variants_def)
    also have "\<dots> = table_loop (Suc i + length ?sep + 1)
        ((xs @ [?open])[i := Open (\<lparr>v_idx = length table, v_end = 0\<rparr>\<lparr>v_end := length table + length gs\<rparr>)] @ ?sep @ Close # nodes_tokens nodes @ ys)
        ?table []"
      by (rule table_group [OF gs]) (use Cons.prems len in \<open>simp_all add: Expansion\<close>)
    also have "\<dots> = table_loop (Suc i + length ?sep + 1) (?xs @ nodes_tokens nodes @ ys) ?table []"
      using Cons.prems(2) by simp
    also have "\<dots> = table_loop (Suc i + length ?sep + 1 + length (nodes_tokens nodes))
        (?xs @ marked (length ?table) nodes @ ys) (?table @ table_of (Suc i + length ?sep + 1) nodes) []"
      by (rule Cons.IH) (use Cons.prems len in \<open>simp_all add: Expansion\<close>)
    finally show ?thesis by (simp add: Expansion add.assoc)
  qed
qed simp

lemma build_table:
  assumes "list_all flat_atom nodes" "length (nodes_tokens nodes) < u16_max"
  shows "build_expansion_table (nodes_tokens nodes @ [Eof]) = Some (Inr (marked 0 nodes @ [Eof], table_of 0 nodes))"
proof -
  have "table_loop (length (nodes_tokens nodes)) (marked 0 nodes @ [Eof]) table [] = Some (marked 0 nodes @ [Eof], table)" for table
    by (subst table_loop.simps) (simp add: nth_append, subst table_loop.simps, simp)
  then show ?thesis
    using table_nodes [of nodes 0 "[]" "[]" "[Eof]"] assms by (simp add: build_expansion_table_def)
qed

section \<open>The flat expansion\<close>

definition slice_tokens :: "brace_token list \<Rightarrow> u32 \<Rightarrow> brace_token list" where
  "slice_tokens ts w =
     take (unat (variant_end w) - unat (variant_start w)) (drop (unat (variant_start w)) ts)"

lemma text_tokens_texts:
  "k < length out \<Longrightarrow> text_tokens (map Text ss @ ts) d k (out, c) = text_tokens ts d k (out[k := out ! k @ concat ss], c)"
proof (induction ss arbitrary: out)
  case (Cons t ss)
  have "text_tokens (map Text ss @ ts) d k (out[k := out ! k @ t], c) =
      text_tokens ts d k ((out[k := out ! k @ t])[k := out[k := out ! k @ t] ! k @ concat ss], c)"
    by (rule Cons.IH) (use Cons.prems in simp)
  then show ?case using Cons.prems by (simp add: extend_word_def)
qed simp

lemma marked_texts [simp]: "marked m (map AText ss @ nodes) = map Text ss @ marked m nodes"
  by (induction ss) simp_all

lemma table_of_texts [simp]: "table_of p (map AText ss @ nodes) = table_of (p + length ss) nodes"
  by (induction ss arbitrary: p) simp_all

lemma flat_group_texts:
  assumes "flat_group g"
  obtains ss where "atoms_of g = map AText ss" "group_tokens g = map Text ss" "spell (group_tokens g) = concat ss"
proof -
  have "\<exists>ss. nodes = map AText ss" if "list_all is_atext nodes" for nodes
    using that by (induction nodes) (auto simp: is_atext_def split: atom.splits, metis list.simps(9))
  then obtain ss where ss: "atoms_of g = map AText ss" using assms by (auto simp: flat_group_def)
  have "nodes_tokens (map AText ss) = map Text ss" by (induction ss) simp_all
  moreover have "spell (map Text ss) = concat ss" by (induction ss) simp_all
  ultimately show ?thesis using that [of ss] by (simp add: ss group_tokens_atoms)
qed

lemma small_word: "n \<le> u16_max \<Longrightarrow> unat (of_nat n :: 16 word) = n"
  by (simp add: unat_of_nat u16_max_def)

lemma variants_slices:
  "drop p ts = separated (map group_tokens gs) @ Close # post \<Longrightarrow> length ts \<le> u16_max \<Longrightarrow>
     map (slice_tokens ts) (variants_at p gs) = map group_tokens gs \<and>
     list_all (\<lambda>w. unat (variant_start w) \<le> unat (variant_end w) \<and> unat (variant_end w) < length ts) (variants_at p gs)"
proof (induction gs arbitrary: p)
  case (Cons g gs)
  let ?q = "p + length (group_tokens g)"
  obtain rest where rest: "drop p ts = group_tokens g @ rest" "rest \<noteq> []"
      "gs \<noteq> [] \<longrightarrow> rest = Comma # separated (map group_tokens gs) @ Close # post"
    using Cons.prems(1) by (cases gs) auto
  have q: "?q < length ts" using drop_more [OF rest(1)] rest(2) by (metis drop_eq_Nil leI)
  have words: "unat (of_nat p :: 16 word) = p" "unat (of_nat ?q :: 16 word) = ?q"
    using q Cons.prems(2) by (intro small_word; linarith)+
  have "gs \<noteq> [] \<Longrightarrow> drop (?q + 1) ts = separated (map group_tokens gs) @ Close # post"
    using drop_more [of p ts "group_tokens g @ [Comma]"] rest(1,3) by simp
  then have "map (slice_tokens ts) (variants_at (?q + 1) gs) = map group_tokens gs \<and>
     list_all (\<lambda>w. unat (variant_start w) \<le> unat (variant_end w) \<and> unat (variant_end w) < length ts) (variants_at (?q + 1) gs)"
    using Cons.IH [of "?q + 1"] Cons.prems(2) by (cases "gs = []") auto
  moreover have "slice_tokens ts (variant_new (of_nat p) (of_nat ?q)) = group_tokens g"
    using words by (simp add: slice_tokens_def rest(1) del: of_nat_add)
  ultimately show ?case using q words by (simp del: of_nat_add)
qed simp

lemma last_variant:
  "gs \<noteq> [] \<Longrightarrow> variant_end (variants_at p gs ! (length gs - 1)) = of_nat (p + length (separated (map group_tokens gs)))"
proof (induction gs arbitrary: p)
  case (Cons g gs)
  show ?case
  proof (cases "gs = []")
    case False
    have "length (separated (map group_tokens (g # gs))) = length (group_tokens g) + 1 + length (separated (map group_tokens gs))"
      using False by (cases gs) simp_all
    then show ?thesis
      using False Cons.IH [OF False, of "p + length (group_tokens g) + 1"]
      by (simp add: nth_Cons' add.assoc del: of_nat_add)
  qed simp
qed simp

lemma expand_flat_range:
  assumes "flat_group g" "slice_tokens ts w = group_tokens g"
    "unat (variant_start w) \<le> unat (variant_end w)" "unat (variant_end w) < length ts" "k < length out"
  shows "expand_flat ts table k d (unat (variant_start w)) (unat (variant_end w)) (out, c) =
    Some (out[k := out ! k @ spell (group_tokens g)], c)"
proof -
  obtain ss where ss: "group_tokens g = map Text ss" "spell (group_tokens g) = concat ss"
    using flat_group_texts [OF assms(1)] by metis
  show ?thesis
    using assms text_tokens_texts [of k out ss "[]" d c] unfolding ss(2)
    by (subst expand_flat.simps) (simp add: ss(1) slice_tokens_def)
qed

lemma flat_group_words:
  assumes "flat_group g"
  shows "nodes_words (atoms_of g @ nodes) = map ((@) (spell (group_tokens g))) (nodes_words nodes)"
  using flat_group_texts [OF assms] by (metis nodes_words_texts)

lemma flat_words_nonempty: "list_all flat_atom nodes \<Longrightarrow> nodes_words nodes \<noteq> []"
proof (induction nodes)
  case (Cons a nodes)
  show ?case
  proof (cases a)
    case (Expansion gs)
    then obtain g hs where gs: "gs = g # hs" "flat_group g" using Cons.prems by (cases gs) auto
    show ?thesis
      using Cons flat_group_words [OF gs(2), of nodes]
      by (simp only: Expansion nodes_words_expansion) (simp add: gs)
  qed (use Cons in simp)
qed simp

lemma expand_flat_variants:
  assumes small: "length ts \<le> u16_max"
    and gs: "gs \<noteq> []" "list_all flat_group gs"
    and tokens: "drop p ts = separated (map group_tokens gs) @ Close # post"
    and table: "take (length gs) (drop m table) = variants_at p gs"
    and rest: "nodes_words rest \<noteq> []"
      "\<And>k s. fills k (nodes_words rest) s
        (expand_flat ts table k 1 (p + length (separated (map group_tokens gs))) (length ts) s)"
  shows "fills k (nodes_words (Expansion gs # rest)) s
    (do { len \<leftarrow> word_length k s;
          for_loop (\<lambda>w s. do {
              r \<leftarrow> variant_key (fst w) k len s;
              s \<leftarrow> expand_flat ts table (fst r) 1 (unat (variant_start (snd w))) (unat (variant_end (snd w))) (snd r);
              expand_flat ts table (fst r) 1 (unat (variant_end (table ! (m + length gs - 1)))) (length ts) s })
            (enumerate 0 (take (length gs) (drop m table))) s })"
proof -
  let ?e = "p + length (separated (map group_tokens gs))"
  let ?W = "\<lambda>w. map ((@) (spell (slice_tokens ts w))) (nodes_words rest)"
  have "length gs \<le> length (drop m table)"
    using arg_cong [OF table, of length] by simp
  then have "table ! (m + length gs - 1) = variants_at p gs ! (length gs - 1)"
    using gs(1) unfolding table [symmetric] by (cases gs) simp_all
  moreover have "?e \<le> u16_max" using arg_cong [OF tokens, of length] small by simp
  ultimately have finish: "unat (variant_end (table ! (m + length gs - 1))) = ?e"
    using last_variant [OF gs(1), of p] by (simp only: small_word)
  have slices: "map (slice_tokens ts) (variants_at p gs) = map group_tokens gs"
    and bounds: "list_all (\<lambda>w. unat (variant_start w) \<le> unat (variant_end w) \<and> unat (variant_end w) < length ts) (variants_at p gs)"
    using variants_slices [OF tokens small] by simp_all
  have "concat (map ?W (variants_at p gs)) =
      concat (map (\<lambda>us. map ((@) (spell us)) (nodes_words rest)) (map (slice_tokens ts) (variants_at p gs)))"
    by (simp add: comp_def)
  also have "\<dots> = nodes_words (Expansion gs # rest)"
    unfolding slices nodes_words_expansion using gs(2)
    by (simp add: comp_def list_all_iff flat_group_words cong: map_cong)
  finally have words: "concat (map ?W (variants_at p gs)) = nodes_words (Expansion gs # rest)" .
  have body: "fills k (?W w) s (do {
      s \<leftarrow> expand_flat ts table k 1 (unat (variant_start w)) (unat (variant_end w)) s;
      expand_flat ts table k 1 ?e (length ts) s })" if w: "w \<in> set (variants_at p gs)" for w k s
  proof (rule fills_prefix)
    fix out c assume s: "s = (out, c)" and key: "k < length out"
    have "slice_tokens ts w \<in> set (map group_tokens gs)" using w unfolding slices [symmetric] by simp
    then obtain g where g: "flat_group g" "slice_tokens ts w = group_tokens g" using gs(2) by (auto simp: list_all_iff)
    show "fills k (nodes_words rest) (out[k := out ! k @ spell (slice_tokens ts w)], c) (do {
        s \<leftarrow> expand_flat ts table k 1 (unat (variant_start w)) (unat (variant_end w)) s;
        expand_flat ts table k 1 ?e (length ts) s })"
      using expand_flat_range [OF g _ _ key, of table 1 c] bounds w rest(2) by (simp add: s g list_all_iff)
  qed
  show ?thesis
    unfolding words [symmetric] table finish
  proof (rule for_each_variants [where W = ?W and body = "\<lambda>w k s. do {
      s \<leftarrow> expand_flat ts table k 1 (unat (variant_start w)) (unat (variant_end w)) s;
      expand_flat ts table k 1 ?e (length ts) s }"])
    show "variants_at p gs \<noteq> []" using gs(1) by (cases gs) simp_all
  qed (use body rest(1) in simp_all)
qed

lemma expand_flat_fills:
  assumes "length ts \<le> u16_max"
  shows "list_all flat_atom nodes \<Longrightarrow>
    drop n ts = (if d = 0 then [] else [Close]) @ marked m nodes @ [Eof] \<Longrightarrow> d \<le> 1 \<Longrightarrow>
    drop m table = table_of (length ts - length (marked m nodes) - 1) nodes \<Longrightarrow>
    fills k (nodes_words nodes) s (expand_flat ts table k d n (length ts) s)"
proof (induction "length nodes" arbitrary: nodes n d m k s rule: less_induct)
  case less
  have n: "n < length ts" using less.prems(2) by (metis drop_eq_Nil leI append_is_Nil_conv list.distinct(1))
  have start: "text_tokens (take (length ts - n) (drop n ts)) d k s = text_tokens (marked m nodes @ [Eof]) 0 k s" for s
  proof -
    have "take (length ts - n) (drop n ts) = drop n ts" by simp
    then show ?thesis using less.prems(2,3) by (cases "d = 0") (simp_all only:, simp_all add: le_Suc_eq)
  qed
  show ?case
  proof (cases nodes rule: split_texts)
    case (1 ss)
    have "fills k (map ((@) (concat ss)) (nodes_words [])) s (expand_flat ts table k d n (length ts) s)"
    proof (rule fills_prefix)
      fix out c assume s: "s = (out, c)" and key: "k < length out"
      have "expand_flat ts table k d n (length ts) s = Some (out[k := out ! k @ concat ss], c)"
        using n start [of s] text_tokens_texts [OF key, of ss "[Eof]" 0 c] marked_texts [of m ss "[]"]
        by (subst expand_flat.simps) (simp add: 1 s)
      then show "fills k (nodes_words []) (out[k := out ! k @ concat ss], c) (expand_flat ts table k d n (length ts) s)"
        by (simp add: fills_unit)
    qed
    then show ?thesis using nodes_words_texts [of ss "[]"] by (simp add: 1)
  next
    case (2 ss gs rest)
    let ?q = "length ts - length (marked m nodes) - 1"
    let ?p = "?q + length ss + 1"
    let ?sep = "separated (map group_tokens gs)"
    have q: "?q = n + d"
      using less.prems(3) n arg_cong [OF less.prems(2), of length] by (cases "d = 0") (simp_all add: le_Suc_eq)
    have "drop ?q ts = marked m nodes @ [Eof]"
      unfolding q using less.prems(2,3) drop_more [of n ts "[Close]"] by (cases "d = 0") (simp_all add: le_Suc_eq)
    then have p: "drop ?p ts = ?sep @ Close # marked (m + length gs) rest @ [Eof]"
      using drop_more [of ?q ts "map Text ss @ [Open \<lparr>v_idx = m, v_end = m + length gs\<rparr>]"] by (simp add: 2)
    have gs: "gs \<noteq> []" "list_all flat_group gs" "list_all flat_atom rest" using less.prems(1) by (simp_all add: 2)
    have e: "length ts - length (marked (m + length gs) rest) - 1 = ?p + length ?sep + 1"
      using arg_cong [OF p, of length] by simp
    have table: "drop m table = variants_at ?p gs @ table_of (?p + length ?sep + 1) rest"
      using less.prems(4) by (simp add: 2)
    have IH: "fills k (nodes_words rest) s (expand_flat ts table k 1 (?p + length ?sep) (length ts) s)" for k s
    proof (rule less.hyps [of rest _ _ "m + length gs"])
      show "drop (?p + length ?sep) ts = (if (1::nat) = 0 then [] else [Close]) @ marked (m + length gs) rest @ [Eof]"
        using drop_more [OF p] by simp
      show "drop (m + length gs) table = table_of (length ts - length (marked (m + length gs) rest) - 1) rest"
        using drop_more [OF table] unfolding e by simp
    qed (use gs in \<open>simp_all add: 2\<close>)
    have "fills k (map ((@) (concat ss)) (nodes_words (Expansion gs # rest))) s (expand_flat ts table k d n (length ts) s)"
    proof (rule fills_prefix)
      fix out c assume s: "s = (out, c)" and key: "k < length out"
      let ?s = "(out[k := out ! k @ concat ss], c)"
      have "length table > m" using arg_cong [OF table, of length] gs(1) by (cases gs) simp_all
      then have "length table \<ge> m + length gs" using arg_cong [OF table, of length] by simp
      then show "fills k (nodes_words (Expansion gs # rest)) ?s (expand_flat ts table k d n (length ts) s)"
        using n start [of s] text_tokens_texts [OF key, of ss _ 0 c] gs
          expand_flat_variants [OF assms gs(1,2) p _ flat_words_nonempty [OF gs(3)] IH, of m k ?s] table
        by (subst expand_flat.simps) (simp add: 2 s del: nodes_words_simps)
    qed
    then show ?thesis by (simp add: 2 nodes_words_texts del: nodes_words_simps)
  qed
qed

section \<open>The expansion of the words of a tree\<close>

lemma not_nested_flat:
  assumes "list_all proper_atom nodes" "\<not> list_ex (nested_atom 0) nodes"
  shows "list_all flat_atom nodes"
proof -
  have group: "flat_group g" if "\<not> nested_group (Suc 0) g" for g
  proof -
    have "is_atext a" if "\<not> nested_atom (Suc 0) a" for a using that by (cases a) simp_all
    then show ?thesis using that by (cases g) (auto simp: flat_group_def list_all_iff list_ex_iff)
  qed
  have "flat_atom a" if "proper_atom a" "\<not> nested_atom 0 a" for a
    using that by (cases a) (auto simp: list_all_iff list_ex_iff intro: group)
  then show ?thesis using assms by (simp add: list_all_iff list_ex_iff)
qed

lemma fills_all:
  assumes "fills 0 words (replicate (length words) [], 1) r" "words \<noteq> []"
  shows "map_option fst r = Some words"
proof -
  obtain w ws where w: "words = w # ws" using assms(2) by (cases words) auto
  have "fills 0 words ([[]] @ replicate (length words - 1) [] @ [], length [[]]) r" using assms(1) by (simp add: w)
  from fillsD [OF this _ assms(2)] show ?thesis by (simp add: w)
qed

lemma expand_nodes:
  assumes nodes: "proper_nodes nodes" and nested: "nested \<longleftrightarrow> list_ex (nested_atom 0) nodes"
    and few: "\<not> too_many_groups (nodes_tokens nodes @ [Eof])"
    and len: "nested \<or> length (nodes_tokens nodes @ [Eof]) \<le> u16_max"
  shows "expand (nodes_tokens nodes @ [Eof]) (replicate (length (nodes_words nodes)) []) nested = Some (Inr (nodes_words nodes))"
proof -
  have atoms: "list_all proper_atom nodes" using nodes by (simp add: proper_nodes_def)
  let ?out = "(replicate (length (nodes_words nodes)) [], 1)"
  have words: "nodes_words nodes \<noteq> []" by (rule nodes_words_nonempty [OF atoms])
  show ?thesis
  proof (cases nested)
    case True
    let ?root = "make_group nodes"
    have "open_count (group_tokens ?root) \<le> max_brace_groups" using few by (simp add: too_many_opens)
    then have "wf_group ?root" using nodes by (simp add: wf_group_def few_groups_small(2))
    then have "fills 0 (nodes_words nodes) ?out (expand_nested ?root [] 0 0 ?out)"
      using expand_nested_fills [of ?root "[]" 0 0 ?out] by simp
    then have "map_option fst (expand_nested ?root [] 0 0 ?out) = Some (nodes_words nodes)"
      by (rule fills_all [OF _ words])
    moreover have "parse (nodes_tokens nodes @ [Eof]) = Some (Inr ?root)"
      using few parse_nodes_tree [of 0 "nodes_tokens nodes @ [Eof]" nodes "[]"] atoms by (simp add: parse_def)
    ultimately show ?thesis using True few by (auto simp: expand_def)
  next
    case False
    let ?ts = "marked 0 nodes @ [Eof]"
    have flat: "list_all flat_atom nodes" using not_nested_flat [OF atoms] nested False by simp
    have small: "length ?ts \<le> u16_max" using len False by simp
    have "fills 0 (nodes_words nodes) ?out (expand_flat ?ts (table_of 0 nodes) 0 0 0 (length ?ts) ?out)"
      by (rule expand_flat_fills [OF small flat, where m = 0]) simp_all
    then have "map_option fst (expand_flat ?ts (table_of 0 nodes) 0 0 0 (length ?ts) ?out) = Some (nodes_words nodes)"
      by (rule fills_all [OF _ words])
    moreover have "build_expansion_table (nodes_tokens nodes @ [Eof]) = Some (Inr (?ts, table_of 0 nodes))"
      by (rule build_table [OF flat]) (use small in simp)
    ultimately show ?thesis using False few by (auto simp: expand_def)
  qed
qed

lemma amount_tokenize:
  "proper_nodes nodes \<Longrightarrow> calculate_expanded_amount (nodes_tokens nodes @ [Eof]) =
     Some (if list_all is_atext nodes then 0 else min (length (nodes_words nodes)) (2 ^ 32 - 1))"
  by (simp add: expanded_amount_tree proper_nodes_def sat_def)

end
