(* ===== verification/Shell_Braces.thy ===== *)
theory Shell_Braces
  imports Brace_Expand Bun_Core
begin

text \<open>
  Where the shell expands braces: \<^verbatim>\<open>Expansion::do_brace_expand\<close> of
  \<^verbatim>\<open>src/runtime/shell/states/Expansion.rs\<close> and the part of \<^verbatim>\<open>Cmd::child_done\<close> that turns the words
  into arguments. The word is escaped except at the recorded offsets, tokenized, counted, expanded, and its words are
  pushed with their boundaries. The lemmas join the lexer, the count and both routes of the expansion, show that bytes
  that are data stay data, and that the boundaries give the words back.
\<close>

section \<open>The shell's step\<close>

datatype expansion_state = Idle | Walking | CmdSubst | Arith | Glob | BraceExpand | Done | Err bytes

text \<open>The fields of \<^verbatim>\<open>Expansion\<close> the step reads and writes; \<^verbatim>\<open>out\<close> is its buffer and its boundaries.\<close>

record expansion =
  current_out :: bytes
  meta_offsets :: "nat list"
  out_buf :: bytes
  out_bounds :: "u32 list"
  state :: expansion_state

definition is_all_ascii :: "bytes \<Rightarrow> bool" where
  "is_all_ascii s \<longleftrightarrow> list_all (\<lambda>c. of_char c < (128 :: nat)) s"

text \<open>\<open>metas\<close> are the entries of \<^verbatim>\<open>meta_offsets\<close> from \<^verbatim>\<open>next_meta\<close> on.\<close>

fun escape_data :: "nat \<Rightarrow> nat list \<Rightarrow> bytes \<Rightarrow> bytes" where
  "escape_data i metas [] = []"
| "escape_data i metas (b # bs) =
     (if metas \<noteq> [] \<and> hd metas = i then b # escape_data (i + 1) (tl metas) bs
      else if b = CHR ''{'' \<or> b = CHR ''}'' \<or> b = CHR '','' \<or> b = backslash
      then backslash # b # escape_data (i + 1) metas bs
      else b # escape_data (i + 1) metas bs)"

definition max_brace_expansions :: nat where
  "max_brace_expansions = 65536"

text \<open>Without memory the process ends, the result \<open>None\<close>.\<close>

definition parser_message :: "parser_error \<Rightarrow> bytes option" where
  "parser_message e =
     (case e of
        TooManyBraces \<Rightarrow> Some ''too many braces in brace expansion''
      | UnexpectedToken \<Rightarrow> Some ''unexpected token while expanding braces''
      | OutOfMemory \<Rightarrow> None)"

definition push_word :: "bytes \<Rightarrow> expansion \<Rightarrow> expansion" where
  "push_word s me =
     me\<lparr>out_bounds := (if out_buf me \<noteq> [] then out_bounds me @ [of_nat (length (out_buf me))] else out_bounds me),
        out_buf := out_buf me @ s\<rparr>"

definition push_words :: "bool \<Rightarrow> bytes list \<Rightarrow> expansion \<Rightarrow> expansion" where
  "push_words has_glob expanded me =
     (let me = fold push_word expanded me
      in if has_glob then me\<lparr>state := Glob\<rparr> else me\<lparr>current_out := [], state := Done\<rparr>)"

text \<open>\<open>wide_tokenize\<close> is the lexer over code points, used where a byte is not ASCII.\<close>

definition do_brace_expand :: "(bytes \<Rightarrow> brace_token list \<times> bool) \<Rightarrow> bool \<Rightarrow> expansion \<Rightarrow> expansion option" where
  "do_brace_expand wide_tokenize has_glob me =
     (let brace_str = escape_data 0 (meta_offsets me) (current_out me);
          lexer_output = (if is_all_ascii brace_str then tokenize brace_str else wide_tokenize brace_str)
      in do { count \<leftarrow> calculate_expanded_amount (fst lexer_output);
              if count > max_brace_expansions then
                Some (me\<lparr>state := Err (''too many brace expansions ('' @ show_nat count @ '' > 65536)'')\<rparr>)
              else
                do { expanded \<leftarrow> (if count = 0 then Some (Inr [current_out me])
                                  else expand (fst lexer_output) (replicate count []) (snd lexer_output));
                     case expanded of
                       Inl e \<Rightarrow> map_option (\<lambda>msg. me\<lparr>state := Err msg\<rparr>) (parser_message e)
                     | Inr expanded \<Rightarrow> Some (push_words has_glob expanded me) } })"

lemma escape_data_ascii: "is_all_ascii (escape_data i metas bs) = is_all_ascii bs"
  by (induction i metas bs rule: escape_data.induct) (auto simp: is_all_ascii_def backslash_def)

lemma too_long_flat:
  assumes "\<not> too_many_groups ts" "length ts > u16_max"
  shows "expand ts out False = Some (Inl UnexpectedToken)"
  using assms by (simp add: expand_def build_expansion_table_def)

lemma do_brace_expand_nodes:
  assumes tokens: "tokenize (escape_data 0 (meta_offsets me) (current_out me)) = (ts, list_ex (nested_atom 0) nodes)"
    and ts: "ts = nodes_tokens nodes @ [Eof]" and proper: "proper_nodes nodes"
    and ascii: "is_all_ascii (current_out me)"
  shows "do_brace_expand wide_tokenize has_glob me = Some (
    if list_all is_atext nodes then push_words has_glob [current_out me] me
    else if length (nodes_words nodes) > 65536 then
      me\<lparr>state := Err (''too many brace expansions (''
        @ show_nat (min (length (nodes_words nodes)) (2 ^ 32 - 1)) @ '' > 65536)'')\<rparr>
    else if too_many_groups ts then me\<lparr>state := Err ''too many braces in brace expansion''\<rparr>
    else if \<not> list_ex (nested_atom 0) nodes \<and> length ts > 65535 then
      me\<lparr>state := Err ''unexpected token while expanding braces''\<rparr>
    else push_words has_glob (nodes_words nodes) me)"
proof -
  let ?n = "length (nodes_words nodes)"
  have pos: "0 < ?n" using nodes_words_nonempty proper by (simp add: proper_nodes_def)
  have amount: "calculate_expanded_amount ts = Some (if list_all is_atext nodes then 0 else min ?n (2 ^ 32 - 1))"
    unfolding ts by (rule amount_tokenize [OF proper])
  note step = do_brace_expand_def Let_def tokens amount escape_data_ascii ascii max_brace_expansions_def
  have expanded: "do_brace_expand wide_tokenize has_glob me =
      do { expanded \<leftarrow> expand ts (replicate ?n []) (list_ex (nested_atom 0) nodes);
           case expanded of
             Inl e \<Rightarrow> map_option (\<lambda>msg. me\<lparr>state := Err msg\<rparr>) (parser_message e)
           | Inr expanded \<Rightarrow> Some (push_words has_glob expanded me) }"
    if "\<not> list_all is_atext nodes" "?n \<le> 65536"
    using that pos by (simp add: step)
  consider "list_all is_atext nodes" | "\<not> list_all is_atext nodes" "?n > 65536"
    | (many) "\<not> list_all is_atext nodes" "?n \<le> 65536" "too_many_groups ts"
    | (long) "\<not> list_all is_atext nodes" "?n \<le> 65536" "\<not> too_many_groups ts"
        "\<not> list_ex (nested_atom 0) nodes" "length ts > 65535"
    | (fine) "\<not> list_all is_atext nodes" "?n \<le> 65536" "\<not> too_many_groups ts"
        "list_ex (nested_atom 0) nodes \<or> length ts \<le> u16_max"
    unfolding u16_max_def by linarith
  then show ?thesis
  proof cases
    case many
    then show ?thesis by (simp add: expanded expand_def parser_message_def)
  next
    case long
    then have "expand ts (replicate ?n []) False = Some (Inl UnexpectedToken)"
      by (intro too_long_flat) (simp_all add: u16_max_def)
    then show ?thesis using long by (simp add: expanded parser_message_def)
  next
    case fine
    have "expand ts (replicate ?n []) (list_ex (nested_atom 0) nodes) = Some (Inr (nodes_words nodes))"
      unfolding ts using fine(3,4) unfolding ts by (intro expand_nodes proper refl)
    then show ?thesis using fine by (auto simp: expanded u16_max_def)
  qed (simp_all add: step)
qed

text \<open>C11: the whole step, on every branch. The escaped word is the text of a tree; where the tree has no group the word
  is pushed as it is, where it has more than 65536 words, more than 256 groups, or, with no group inside another, more
  than 65535 tokens, the state is the error with its message, and otherwise the words of the tree are pushed in their
  order, each variant of a group combined with everything around it. No index is out of range, nothing unwrapped is
  missing, and every loop ends.\<close>

theorem brace_expand_pushes_words:
  assumes "is_all_ascii (current_out me)"
  shows "\<exists>nodes ts. proper_nodes nodes \<and> ts = nodes_tokens nodes @ [Eof]
    \<and> ts = fst (tokenize (escape_data 0 (meta_offsets me) (current_out me)))
    \<and> do_brace_expand wide_tokenize has_glob me = Some (
        if list_all is_atext nodes then push_words has_glob [current_out me] me
        else if length (nodes_words nodes) > 65536 then
          me\<lparr>state := Err (''too many brace expansions (''
            @ show_nat (min (length (nodes_words nodes)) (2 ^ 32 - 1)) @ '' > 65536)'')\<rparr>
        else if too_many_groups ts then me\<lparr>state := Err ''too many braces in brace expansion''\<rparr>
        else if \<not> list_ex (nested_atom 0) nodes \<and> length ts > 65535 then
          me\<lparr>state := Err ''unexpected token while expanding braces''\<rparr>
        else push_words has_glob (nodes_words nodes) me)"
  using do_brace_expand_nodes [OF tokenize_tree refl proper_tree_of assms] proper_tree_of tokenize_tree
  by (metis fst_conv)

section \<open>Data does not expand\<close>

text \<open>What the lexer sees of each byte of the word: it is escaped unless its offset is recorded.\<close>

fun flagged :: "nat \<Rightarrow> nat list \<Rightarrow> bytes \<Rightarrow> (char \<times> bool) list" where
  "flagged i metas [] = []"
| "flagged i metas (b # bs) =
     (if metas \<noteq> [] \<and> hd metas = i then (b, False) # flagged (i + 1) (tl metas) bs
      else (b, b = CHR ''{'' \<or> b = CHR ''}'' \<or> b = CHR '','' \<or> b = backslash) # flagged (i + 1) metas bs)"

definition recorded :: "nat \<Rightarrow> nat list \<Rightarrow> bytes \<Rightarrow> bytes" where
  "recorded i metas bs = map snd (filter (\<lambda>p. fst p \<in> set metas) (enumerate i bs))"

lemma recorded_Cons:
  "recorded i metas (b # bs) = (if i \<in> set metas then b # recorded (Suc i) metas bs else recorded (Suc i) metas bs)"
  by (simp add: recorded_def)

lemma recorded_tl: "set (recorded i (tl metas) bs) \<subseteq> set (recorded i metas bs)"
  by (cases metas) (auto simp: recorded_def)

lemma inputs_plain: "b \<noteq> backslash \<Longrightarrow> inputs (b # bs) = (b, False) # inputs bs"
  by (subst inputs.simps) simp

lemma inputs_escaped: "inputs (backslash # b # bs) = (b, True) # inputs bs"
  by (subst inputs.simps) simp

lemma inputs_escape_data:
  "backslash \<notin> set (recorded i metas bs) \<Longrightarrow> inputs (escape_data i metas bs) = flagged i metas bs"
proof (induction i metas bs rule: escape_data.induct)
  case (1 i metas)
  then show ?case by (subst inputs.simps) simp
next
  case (2 i metas b bs)
  show ?case
  proof (cases "metas \<noteq> [] \<and> hd metas = i")
    case True
    then have "i \<in> set metas" by (cases metas) auto
    then have b: "b \<noteq> backslash" "backslash \<notin> set (recorded (i + 1) (tl metas) bs)"
      using 2(4) recorded_tl [of "i + 1" metas bs] by (auto simp: recorded_Cons)
    then show ?thesis using True 2(1) by (simp add: inputs_plain)
  next
    case False
    have "backslash \<notin> set (recorded (i + 1) metas bs)"
      using 2(4) by (auto simp: recorded_Cons split: if_splits)
    then show ?thesis using False 2(2,3) by (auto simp: inputs_plain inputs_escaped)
  qed
qed

lemma map_fst_flagged [simp]: "map fst (flagged i metas bs) = bs"
  by (induction i metas bs rule: flagged.induct) simp_all

lemma flagged_open: "(CHR ''{'', False) \<in> set (flagged i metas bs) \<Longrightarrow> CHR ''{'' \<in> set (recorded i metas bs)"
proof (induction i metas bs rule: flagged.induct)
  case (2 i metas b bs)
  show ?case
  proof (cases "metas \<noteq> [] \<and> hd metas = i")
    case True
    then have "i \<in> set metas" by (cases metas) auto
    then show ?thesis
      using True 2(1,3) recorded_tl [of "i + 1" metas bs] by (auto simp: recorded_Cons)
  next
    case False
    then show ?thesis using 2(2,3) by (auto simp: recorded_Cons)
  qed
qed simp

lemma add_atom_texts: "list_all is_atext nodes \<Longrightarrow> list_all is_atext (add_atom nodes (AText t))"
  by (induction nodes) (auto split: atom.splits)

lemma fold_tree_no_open:
  "(CHR ''{'', False) \<notin> set cs \<Longrightarrow> list_all is_atext cur \<Longrightarrow>
     \<exists>nodes. fold tree_char cs (cur, []) = (nodes, []) \<and> list_all is_atext nodes"
proof (induction cs arbitrary: cur)
  case (Cons c cs)
  obtain b escaped where c: "c = (b, escaped)" by (metis surj_pair)
  have "tree_char c (cur, []) = (add_atom cur (AText [b]), [])" using Cons.prems(1) by (auto simp: c)
  then show ?case using Cons add_atom_texts by simp
qed simp

lemma tree_of_no_open:
  assumes "(CHR ''{'', False) \<notin> set (inputs src)"
  shows "list_all is_atext (tree_of src)"
proof -
  obtain nodes where nodes: "read_tree src = (nodes, [])" "list_all is_atext nodes"
    using fold_tree_no_open [OF assms, of "[]"] by (auto simp: read_tree_def)
  have "list_all is_atext xs \<Longrightarrow> list_all is_atext acc \<Longrightarrow> list_all is_atext (foldl add_atom acc xs)" for acc xs
  proof (induction xs arbitrary: acc)
    case (Cons a xs)
    then show ?case using add_atom_texts by (cases a) simp_all
  qed simp
  moreover have "list_all is_atext (map merge_atom nodes)"
  proof -
    have "is_atext a \<Longrightarrow> is_atext (merge_atom a)" for a by (cases a) simp_all
    then show ?thesis using nodes(2) by (simp add: list_all_iff)
  qed
  ultimately show ?thesis by (simp add: tree_of_def nodes merge_nodes_def)
qed

text \<open>C14: bytes whose offset is not recorded are data. The tokens spell the word as it was before it was escaped,
  whatever it holds, and where none of the recorded bytes is an open brace the word is pushed as it is, one word.\<close>

theorem brace_data_inert:
  assumes "backslash \<notin> set (recorded 0 (meta_offsets me) (current_out me))"
  shows "concat (map to_text (fst (tokenize (escape_data 0 (meta_offsets me) (current_out me))))) = current_out me
    \<and> (is_all_ascii (current_out me) \<and> CHR ''{'' \<notin> set (recorded 0 (meta_offsets me) (current_out me)) \<longrightarrow>
       do_brace_expand wide_tokenize has_glob me = Some (push_words has_glob [current_out me] me))"
proof -
  let ?src = "escape_data 0 (meta_offsets me) (current_out me)"
  have inputs: "inputs ?src = flagged 0 (meta_offsets me) (current_out me)" by (rule inputs_escape_data [OF assms])
  have "concat (map to_text (fst (tokenize ?src))) = current_out me"
    using spell_tree_of [of ?src] by (simp add: tokenize_tree inputs spell_def)
  moreover have "do_brace_expand wide_tokenize has_glob me = Some (push_words has_glob [current_out me] me)"
    if ascii: "is_all_ascii (current_out me)" and none: "CHR ''{'' \<notin> set (recorded 0 (meta_offsets me) (current_out me))"
  proof -
    have "list_all is_atext (tree_of ?src)"
      by (rule tree_of_no_open) (use none flagged_open inputs in auto)
    then show ?thesis using do_brace_expand_nodes [OF tokenize_tree refl proper_tree_of ascii] by simp
  qed
  ultimately show ?thesis by blast
qed

section \<open>The text of a tree is read back\<close>

text \<open>The text of a tree, each byte with whether it is a brace or a comma of the tree.\<close>

fun marks_separated :: "(char \<times> bool) list list \<Rightarrow> (char \<times> bool) list" where
  "marks_separated [] = []"
| "marks_separated [ms] = ms"
| "marks_separated (ms # ns # rest) = ms @ (CHR '','', True) # marks_separated (ns # rest)"

primrec atom_marks :: "atom \<Rightarrow> (char \<times> bool) list" and group_marks :: "group \<Rightarrow> (char \<times> bool) list" where
  "atom_marks (AText txt) = map (\<lambda>c. (c, False)) txt"
| "atom_marks (Expansion gs) = (CHR ''{'', True) # marks_separated (map group_marks gs) @ [(CHR ''}'', True)]"
| "group_marks (Single a) = atom_marks a"
| "group_marks (Many nodes) = concat (map atom_marks nodes)"

fun offsets :: "nat \<Rightarrow> (char \<times> bool) list \<Rightarrow> nat list" where
  "offsets i [] = []"
| "offsets i ((c, mark) # ms) = (if mark then i # offsets (i + 1) ms else offsets (i + 1) ms)"

definition special :: "char \<Rightarrow> bool" where
  "special c \<longleftrightarrow> c = CHR ''{'' \<or> c = CHR ''}'' \<or> c = CHR '','' \<or> c = backslash"

text \<open>What the lexer sees of it: the bytes of texts are escaped where they are special.\<close>

definition seen :: "(char \<times> bool) list \<Rightarrow> (char \<times> bool) list" where
  "seen ms = map (\<lambda>p. (fst p, \<not> snd p \<and> special (fst p))) ms"

lemma seen_simps [simp]:
  "seen [] = []" "seen (p # ms) = (fst p, \<not> snd p \<and> special (fst p)) # seen ms" "seen (ms @ ns) = seen ms @ seen ns"
  by (simp_all add: seen_def)

lemma offsets_ge: "j \<in> set (offsets i ms) \<Longrightarrow> i \<le> j"
  by (induction i ms rule: offsets.induct) (auto split: if_splits)

lemma flagged_offsets: "flagged i (offsets i ms) (map fst ms) = seen ms"
proof (induction i ms rule: offsets.induct)
  case (2 i c mark ms)
  have "hd (offsets (i + 1) ms) \<noteq> i" if "offsets (i + 1) ms \<noteq> []"
    using offsets_ge [of "hd (offsets (i + 1) ms)" "i + 1" ms] that by auto
  then show ?case using 2 by (auto simp: special_def)
qed simp

lemma recorded_offsets: "set (recorded i (offsets i ms) (map fst ms)) \<subseteq> {c. (c, True) \<in> set ms}"
proof (induction i ms rule: offsets.induct)
  case (2 i c mark ms)
  have "i \<notin> set (offsets (i + 1) ms)" using offsets_ge [of i "i + 1" ms] by auto
  moreover have "recorded (Suc i) (i # offsets (Suc i) ms) bs = recorded (Suc i) (offsets (Suc i) ms) bs" for bs
    by (auto simp: recorded_def intro!: arg_cong [of _ _ "map snd"] filter_cong dest: in_set_enumerate_eq [THEN iffD1])
  ultimately show ?case using 2 by (auto simp: recorded_Cons)
qed (simp add: recorded_def)

lemma marked_bytes:
  "(c, True) \<in> set (atom_marks a) \<Longrightarrow> c \<noteq> backslash"
  "(c, True) \<in> set (group_marks g) \<Longrightarrow> c \<noteq> backslash"
proof (induction a and g)
  case (Expansion gs)
  have "(c, True) \<in> set (marks_separated mss) \<Longrightarrow> c = CHR '','' \<or> (\<exists>ms\<in>set mss. (c, True) \<in> set ms)" for mss
    by (induction mss rule: marks_separated.induct) auto
  from this [of "map group_marks gs"] show ?case
    using Expansion by (fastforce simp: backslash_def)
qed auto

lemma inputs_marks: "inputs (escape_data 0 (offsets 0 (group_marks g)) (map fst (group_marks g))) = seen (group_marks g)"
proof -
  have "backslash \<notin> set (recorded 0 (offsets 0 (group_marks g)) (map fst (group_marks g)))"
    using recorded_offsets [of 0 "group_marks g"] marked_bytes(2) by blast
  then show ?thesis by (simp add: inputs_escape_data flagged_offsets)
qed

definition ends_atext :: "atom list \<Rightarrow> bool" where
  "ends_atext nodes \<longleftrightarrow> nodes \<noteq> [] \<and> is_atext (last nodes)"

lemma tree_char_data: "tree_char (c, special c) (cur, opens) = (add_atom cur (AText [c]), opens)"
  by (cases opens) (auto simp: special_def)

lemma tree_text_more:
  "fold tree_char (seen (map (\<lambda>c. (c, False)) t)) (cur @ [AText s], opens) = (cur @ [AText (s @ t)], opens)"
  by (induction t arbitrary: s) (simp_all add: tree_char_data add_atom_snoc del: tree_char.simps)

lemma add_atom_fresh: "\<not> ends_atext cur \<Longrightarrow> add_atom cur (AText t) = cur @ [AText t]"
  by (cases cur rule: rev_cases) (auto simp: ends_atext_def add_atom_snoc split: atom.splits)

lemma tree_text:
  "t \<noteq> [] \<Longrightarrow> \<not> ends_atext cur \<Longrightarrow>
     fold tree_char (seen (map (\<lambda>c. (c, False)) t)) (cur, opens) = (cur @ [AText t], opens)"
  using tree_text_more [of _ cur] by (cases t) (simp_all add: tree_char_data add_atom_fresh del: tree_char.simps)

lemma tree_group_rest:
  assumes "\<And>g o'. g \<in> set gs \<Longrightarrow> fold tree_char (seen (group_marks g)) ([], o' # opens) = (atoms_of g, o' # opens)"
    and "gs \<noteq> []"
  shows "fold tree_char (seen (marks_separated (map group_marks gs))) ([], (before, variants) # opens) =
    (atoms_of (last gs), (before, variants @ map atoms_of (butlast gs)) # opens)"
  using assms
proof (induction gs arbitrary: variants)
  case (Cons g gs)
  show ?case
  proof (cases gs)
    case (Cons h hs)
    have "fold tree_char (seen (marks_separated (map group_marks gs))) ([], (before, variants @ [atoms_of g]) # opens) =
        (atoms_of (last gs), (before, (variants @ [atoms_of g]) @ map atoms_of (butlast gs)) # opens)"
      by (rule Cons.IH) (use Cons.prems Cons in auto)
    then show ?thesis using Cons.prems(1) [of g] by (simp add: Cons)
  qed (use Cons.prems in simp)
qed simp

lemma tree_reads:
  "proper_atom a \<Longrightarrow> \<not> (is_atext a \<and> ends_atext cur) \<Longrightarrow> fold tree_char (seen (atom_marks a)) (cur, opens) = (cur @ [a], opens)"
  "proper_group g \<Longrightarrow> fold tree_char (seen (group_marks g)) ([], opens) = (atoms_of g, opens)"
proof (induction a and g arbitrary: cur opens and opens)
  case (AText t)
  then show ?case by (simp add: tree_text)
next
  case (Expansion gs)
  have gs: "2 \<le> length gs" "\<And>g. g \<in> set gs \<Longrightarrow> proper_group g"
    using Expansion.prems(1) by (auto simp: list_all_iff)
  then have ne: "gs \<noteq> []" "butlast gs \<noteq> []" by (auto simp: butlast_conv_take)
  have "fold tree_char (seen (marks_separated (map group_marks gs))) ([], (cur, []) # opens) =
      (atoms_of (last gs), (cur, [] @ map atoms_of (butlast gs)) # opens)"
    by (rule tree_group_rest) (use Expansion.IH gs(2) ne in auto)
  moreover have "map make_group (map atoms_of (butlast gs) @ [atoms_of (last gs)]) = gs"
  proof -
    have "map make_group (map atoms_of (butlast gs) @ [atoms_of (last gs)]) =
        map (make_group \<circ> atoms_of) (butlast gs @ [last gs])" by simp
    also have "\<dots> = map (make_group \<circ> atoms_of) gs" by (simp only: append_butlast_last_id [OF ne(1)])
    also have "\<dots> = gs" using gs(2) by (simp add: map_idI make_group_atoms)
    finally show ?thesis .
  qed
  ultimately show ?case using ne(2) by (simp add: special_def)
next
  case (Many nodes)
  have atoms: "list_all proper_atom nodes" using Many.prems by simp
  have "fold tree_char (seen (concat (map atom_marks nodes))) (cur, opens) = (cur @ nodes, opens)"
    if "apart nodes" "nodes \<noteq> [] \<longrightarrow> \<not> (is_atext (hd nodes) \<and> ends_atext cur)" for cur
    using that Many.IH atoms
  proof (induction nodes arbitrary: cur)
    case (Cons a nodes)
    have "fold tree_char (seen (concat (map atom_marks nodes))) (cur @ [a], opens) = ((cur @ [a]) @ nodes, opens)"
      by (rule Cons.IH) (use Cons.prems in \<open>cases nodes; auto simp: ends_atext_def\<close>)+
    moreover have "fold tree_char (seen (atom_marks a)) (cur, opens) = (cur @ [a], opens)"
      by (rule Cons.prems(3)) (use Cons.prems(2,4) in auto)
    ultimately show ?case by simp
  qed simp
  from this [of "[]"] show ?case using Many.prems by (simp add: ends_atext_def)
qed (simp_all add: ends_atext_def)

lemma merge_proper_id:
  "proper_atom a \<Longrightarrow> merge_atom a = a"
  "proper_group g \<Longrightarrow> merge_group g = g"
proof (induction a and g)
  case (Expansion gs)
  then show ?case by (simp add: map_idI list_all_iff)
next
  case (Many nodes)
  have "foldl add_atom acc nodes = acc @ nodes"
    if "apart nodes" "nodes \<noteq> [] \<longrightarrow> \<not> (is_atext (hd nodes) \<and> ends_atext acc)" for acc
    using that
  proof (induction nodes arbitrary: acc)
    case (Cons a nodes)
    have "foldl add_atom (acc @ [a]) nodes = (acc @ [a]) @ nodes"
      by (rule Cons.IH) (use Cons.prems in \<open>cases nodes; auto simp: ends_atext_def\<close>)+
    moreover have "add_atom acc a = acc @ [a]"
      using Cons.prems(2) by (cases a) (simp_all add: add_atom_fresh)
    ultimately show ?case by simp
  qed simp
  moreover have "map merge_atom nodes = nodes" using Many by (simp add: map_idI list_all_iff)
  ultimately show ?case
    using Many.prems make_group_atoms [of "Many nodes"] by (simp add: ends_atext_def)
qed simp_all

lemma tokenize_marks:
  assumes "proper_group g"
  shows "tree_of (escape_data 0 (offsets 0 (group_marks g)) (map fst (group_marks g))) = atoms_of g"
proof -
  have "read_tree (escape_data 0 (offsets 0 (group_marks g)) (map fst (group_marks g))) = (atoms_of g, [])"
    by (simp add: read_tree_def inputs_marks tree_reads(2) [OF assms])
  moreover have "merge_nodes (atoms_of g) = atoms_of g"
  proof -
    have "atoms_of (merge_group g) = merge_nodes (atoms_of g)"
      by (cases g) (simp_all add: merge_nodes_def)
    then show ?thesis using merge_proper_id(2) [OF assms] by simp
  qed
  ultimately show ?thesis by (simp add: tree_of_def)
qed

text \<open>C12: a word written as a tree expands to the words of that tree. Its braces and commas are the recorded bytes, its
  texts are any ASCII data, braces, commas and backslashes included; as long as the limits hold, the words pushed are
  every choice of one variant in each group, the last group varying fastest, with the texts as they were.\<close>

theorem brace_expand_tree:
  assumes "proper_group g" "\<not> list_all is_atext (atoms_of g)"
    and "current_out me = map fst (group_marks g)" "meta_offsets me = offsets 0 (group_marks g)"
    and "is_all_ascii (current_out me)" "length (group_words g) \<le> 65536"
    and "\<not> too_many_groups (group_tokens g)" "nested_group 0 g \<or> length (group_tokens g) < 65535"
  shows "do_brace_expand wide_tokenize has_glob me = Some (push_words has_glob (group_words g) me)"
proof -
  let ?src = "escape_data 0 (meta_offsets me) (current_out me)"
  have tree: "tree_of ?src = atoms_of g" by (simp add: assms(3,4) tokenize_marks [OF assms(1)])
  have nested: "nested_group 0 g = list_ex (nested_atom 0) (atoms_of g)" by (cases g) simp_all
  show ?thesis
    using do_brace_expand_nodes [OF tokenize_tree refl proper_tree_of assms(5), of wide_tokenize has_glob] assms(2,6-8) nested
    by (auto simp: tree group_words_atoms group_tokens_atoms too_many_opens)
qed

section \<open>The words become arguments\<close>

text \<open>What \<^verbatim>\<open>Cmd::child_done\<close> pushes to the arguments.\<close>

fun split_at :: "bytes \<Rightarrow> nat \<Rightarrow> u32 list \<Rightarrow> bytes list option" where
  "split_at buf prev [] = (if prev \<le> length buf then Some [drop prev buf] else None)"
| "split_at buf prev (b # bounds) =
     (if prev \<le> unat b \<and> unat b \<le> length buf
      then map_option ((#) (take (unat b - prev) (drop prev buf))) (split_at buf (unat b) bounds) else None)"

definition args_of :: "bool \<Rightarrow> expansion \<Rightarrow> bytes list option" where
  "args_of has_quoted_empty out =
     (if out_bounds out = [] then
        Some (if out_buf out \<noteq> [] \<or> has_quoted_empty then [out_buf out] else [])
      else split_at (out_buf out) 0 (out_bounds out))"

fun word_bounds :: "nat \<Rightarrow> bytes list \<Rightarrow> u32 list" where
  "word_bounds n [] = []"
| "word_bounds n (w # ws) = of_nat n # word_bounds (n + length w) ws"

lemma push_words_later:
  "out_buf me \<noteq> [] \<Longrightarrow> fold push_word ws me =
     me\<lparr>out_buf := out_buf me @ concat ws, out_bounds := out_bounds me @ word_bounds (length (out_buf me)) ws\<rparr>"
  by (induction ws arbitrary: me) (simp_all add: push_word_def)

lemma push_words_empty:
  "out_buf me = [] \<Longrightarrow> fold push_word ws me = fold push_word (dropWhile (\<lambda>w. w = []) ws) me"
proof (induction ws)
  case (Cons w ws)
  then have "w = [] \<Longrightarrow> push_word w me = me" by (simp add: push_word_def)
  then show ?case using Cons by simp
qed simp

lemma split_at_bounds:
  "prev \<le> length pre \<Longrightarrow> length (pre @ concat ws) < 2 ^ 32 \<Longrightarrow>
     split_at (pre @ concat ws) prev (word_bounds (length pre) ws) = Some (drop prev pre # ws)"
proof (induction ws arbitrary: pre prev)
  case (Cons w ws)
  have n: "unat (of_nat (length pre) :: u32) = length pre"
    using Cons.prems(2) by (simp add: unat_of_nat)
  have "split_at ((pre @ w) @ concat ws) (length pre) (word_bounds (length (pre @ w)) ws) = Some (drop (length pre) (pre @ w) # ws)"
    by (rule Cons.IH) (use Cons.prems in simp_all)
  then show ?case using Cons.prems(1) by (simp add: n)
qed simp

text \<open>C15: the arguments a command gets of the pushed words are those words in their order, without the empty ones in
  front: no boundary is recorded while the buffer is empty.\<close>

theorem args_of_pushed_words:
  assumes "out_buf me = []" "out_bounds me = []" "length (concat ws) < 2 ^ 32"
  shows "args_of has_quoted_empty (push_words has_glob ws me) =
    Some (case dropWhile (\<lambda>w. w = []) ws of
            [] \<Rightarrow> if has_quoted_empty then [[]] else []
          | w # rest \<Rightarrow> w # rest)"
proof -
  have same: "args_of has_quoted_empty (push_words has_glob ws me) = args_of has_quoted_empty (fold push_word ws me)"
    by (simp add: push_words_def args_of_def Let_def)
  show ?thesis
  proof (cases "dropWhile (\<lambda>w. w = []) ws")
    case Nil
    then show ?thesis using assms(1,2) unfolding same push_words_empty [OF assms(1), of ws] Nil by (simp add: args_of_def)
  next
    case (Cons w rest)
    have w: "w \<noteq> []" using hd_dropWhile [of "\<lambda>w. w = []" ws] by (simp add: Cons)
    have "concat ws = concat (takeWhile (\<lambda>w. w = []) ws) @ concat (dropWhile (\<lambda>w. w = []) ws)"
      by (simp flip: concat_append)
    moreover have "concat (takeWhile (\<lambda>w. w = []) ws) = []" by (auto dest: set_takeWhileD)
    ultimately have joined: "concat ws = w @ concat rest" by (simp add: Cons)
    have push: "push_word w me = me\<lparr>out_buf := w\<rparr>" using assms(1,2) by (simp add: push_word_def)
    have "fold push_word ws me = me\<lparr>out_buf := w @ concat rest, out_bounds := word_bounds (length w) rest\<rparr>"
      unfolding push_words_empty [OF assms(1), of ws] Cons
      using push_words_later [of "me\<lparr>out_buf := w\<rparr>" rest] w assms(1,2) by (simp add: push)
    then show ?thesis
      using split_at_bounds [of 0 w rest] assms(3) w unfolding same Cons
      by (cases rest) (simp_all add: args_of_def joined)
  qed
qed

section \<open>Instances\<close>

definition sample_word :: expansion where
  "sample_word = \<lparr>current_out = ''x{a,}{'', meta_offsets = [1, 3, 4], out_buf = [], out_bounds = [], state = Walking\<rparr>"

definition data_word :: expansion where
  "data_word = \<lparr>current_out = ''{a,b}'', meta_offsets = [], out_buf = [], out_bounds = [], state = Walking\<rparr>"

lemma brace_expand_pushes_words_witness:
  "do_brace_expand (\<lambda>s. ([], False)) False sample_word = Some (push_words False [''xa{'', ''x{''] sample_word)"
proof -
  let ?tree = "[AText ''x'', Expansion [Single (AText ''a''), Many []], AText ''{'']"
  have "is_all_ascii (current_out sample_word)" by (simp add: sample_word_def is_all_ascii_def)
  from brace_expand_pushes_words [OF this, of "\<lambda>s. ([], False)" False]
  obtain nodes ts where nodes: "proper_nodes nodes" "ts = nodes_tokens nodes @ [Eof]"
      "ts = fst (tokenize (escape_data 0 (meta_offsets sample_word) (current_out sample_word)))"
    and run: "do_brace_expand (\<lambda>s. ([], False)) False sample_word = Some (
        if list_all is_atext nodes then push_words False [current_out sample_word] sample_word
        else if length (nodes_words nodes) > 65536 then
          sample_word\<lparr>state := Err (''too many brace expansions (''
            @ show_nat (min (length (nodes_words nodes)) (2 ^ 32 - 1)) @ '' > 65536)'')\<rparr>
        else if too_many_groups ts then sample_word\<lparr>state := Err ''too many braces in brace expansion''\<rparr>
        else if \<not> list_ex (nested_atom 0) nodes \<and> length ts > 65535 then
          sample_word\<lparr>state := Err ''unexpected token while expanding braces''\<rparr>
        else push_words False (nodes_words nodes) sample_word)"
    by blast
  have ts: "ts = nodes_tokens ?tree @ [Eof]" unfolding nodes(3) by code_simp
  have "parse_nodes ts [] 0 = Some (Inr ([] @ nodes))"
    by (rule parse_nodes_tree) (use nodes in \<open>simp_all add: proper_nodes_def\<close>)
  moreover have "parse_nodes ts [] 0 = Some (Inr ([] @ ?tree))"
    by (rule parse_nodes_tree) (simp_all add: ts)
  ultimately have "nodes = ?tree" by simp
  then show ?thesis
    using run by (simp add: ts too_many_opens max_brace_groups_def)
qed

lemma brace_data_inert_witness:
  "do_brace_expand (\<lambda>s. ([], False)) False data_word = Some (push_words False [''{a,b}''] data_word)"
proof -
  have "backslash \<notin> set (recorded 0 (meta_offsets data_word) (current_out data_word))"
    by (simp add: data_word_def recorded_def)
  from brace_data_inert [OF this, of "\<lambda>s. ([], False)" False] show ?thesis
    by (simp add: data_word_def recorded_def is_all_ascii_def)
qed

lemma args_of_pushed_words_witness:
  "args_of False (push_words False ['''', ''a'', ''''] data_word) = Some [''a'', '''']"
  using args_of_pushed_words [of data_word "['''', ''a'', '''']" False False] by (simp add: data_word_def)

definition brace_sample :: group where
  "brace_sample = Many [Expansion [Single (AText ''a''), Single (AText ''{,}'')], AText ''x'',
     Expansion [Many [], Single (AText ''y'')]]"

definition tree_word :: expansion where
  "tree_word = \<lparr>current_out = ''{a,{,}}x{,y}'', meta_offsets = [0, 2, 6, 8, 9, 11], out_buf = [], out_bounds = [],
     state = Walking\<rparr>"

lemma brace_expand_tree_witness:
  "do_brace_expand (\<lambda>s. ([], False)) False tree_word =
     Some (push_words False [''ax'', ''axy'', ''{,}x'', ''{,}xy''] tree_word)"
proof -
  have "proper_group brace_sample" "\<not> list_all is_atext (atoms_of brace_sample)"
    "\<not> too_many_groups (group_tokens brace_sample)" "length (group_tokens brace_sample) < 65535"
    "group_words brace_sample = [''ax'', ''axy'', ''{,}x'', ''{,}xy'']"
    by (simp_all add: brace_sample_def too_many_opens max_brace_groups_def)
  moreover have "current_out tree_word = map fst (group_marks brace_sample)"
    "meta_offsets tree_word = offsets 0 (group_marks brace_sample)" "is_all_ascii (current_out tree_word)"
    by (simp_all add: brace_sample_def tree_word_def is_all_ascii_def)
  ultimately show ?thesis
    using brace_expand_tree [of brace_sample tree_word "\<lambda>s. ([], False)" False] by simp
qed

end
