(* ===== verification/Spec2Isabelle.thy ===== *)
theory Spec2Isabelle
  imports Semver_Query Semver_Inc Semver_Intersects Shell_Arith_Eval Timer_Drain Timer_States Linear_Fifo Shell_Braces
begin

text \<open>
  A verification library for self-contained parts of the Rust code of this repository, a fork of the Bun
  runtime: semantic versions, the arithmetic and the brace expansion of the shell, the timers of the event loop,
  the ring buffer, and the hash of package names. Paths below are under \<^verbatim>\<open>src/\<close>.

  \<^bold>\<open>Parts of the program and how they interact.\<close> The package manager stores the strings of versions as eight-byte
  handles into one buffer (\<^verbatim>\<open>semver/lib.rs\<close>), deduplicated by hash (\<^verbatim>\<open>wyhash/lib.rs\<close>). Versions and
  their tags (\<^verbatim>\<open>semver/Version.rs\<close>) are parsed from text with the helpers of \<^verbatim>\<open>bun_core\<close>, compared through
  the handles, and put into comparators and ranges (\<^verbatim>\<open>SemverRange.rs\<close>), which the range parser chains into AND and
  OR lists (\<^verbatim>\<open>SemverQuery.rs\<close>); \<^verbatim>\<open>inc.rs\<close> and \<^verbatim>\<open>intersects.rs\<close> compute with versions and groups.
  The shell evaluates \<^verbatim>\<open>$(( ))\<close> while it reads it (\<^verbatim>\<open>shell_parser/arith.rs\<close>), with variables in the maps of
  the interpreter, and turns one word with braces into several (\<^verbatim>\<open>shell_parser/braces.rs\<close>, called from
  \<^verbatim>\<open>runtime/shell/states/Expansion.rs\<close>, the words read by \<^verbatim>\<open>Cmd.rs\<close>). The event loop keeps its timers
  (\<^verbatim>\<open>event_loop/EventLoopTimer.rs\<close>, \<^verbatim>\<open>runtime/timer/mod.rs\<close>) in intrusive pairing heaps
  (\<^verbatim>\<open>io/heap.rs\<close>), ordered by \<^verbatim>\<open>Timespec\<close> of \<^verbatim>\<open>bun_core/util.rs\<close>. \<^verbatim>\<open>collections/linear_fifo.rs\<close>
  stands alone.

  \<^bold>\<open>Theories.\<close>
  \<^item> \<open>Prelude\<close>: machine types, three-way comparison, scans over bytes, checked arithmetic; the locale \<open>comparison\<close> of
    the laws every comparator keeps. \<open>Bun_Core\<close>: number parsing and printing, splitting, trimming of
    \<^verbatim>\<open>bun_core\<close>.
  \<^item> \<open>Wyhash\<close>: \<^verbatim>\<open>Wyhash11\<close>; locale \<open>streaming_hash\<close>. Its lemmas show that the pieces of a message do not matter.
  \<^item> \<open>Semver_String\<close>: handles, pooled buffers and the builder; locale \<open>string_store\<close>, interpreted on both ways of
    storing. Every handle reads back, older ones keep their bytes, and the branch-free measuring of an inline string is
    right.
  \<^item> \<open>Semver_Version\<close>: parser, order, printing and copying of versions. The order is precedence of an explicit key
    (\<open>version_key\<close>), printing and parsing invert each other, and the parser stays in bounds.
  \<^item> \<open>Semver_Range\<close>, \<open>Semver_Query\<close>: comparators, ranges, groups and the range parser. The lemmas give \<open>^\<close>, \<open>~\<close> and
    \<open>x\<close> ranges their documented meaning at overflow too, the invariant of parsed groups (\<open>group_ok\<close>), and
    the meaning of a group as a formula over its alternatives.
  \<^item> \<open>Semver_Inc\<close>, \<open>Semver_Intersects\<close>: the increments, and intervals (\<open>inside\<close>) as the abstract meaning under
    \<^verbatim>\<open>intersects\<close> and \<^verbatim>\<open>is_subset_of\<close>.
  \<^item> \<open>Shell_Arith\<close>: tokens, one definition per rule of the grammar, numbers and variables. \<open>Shell_Arith_Run\<close>: every rule
    keeps the evaluator (\<open>lands\<close>) and evaluation returns. \<open>Shell_Arith_Eval\<close>: a reference evaluator on syntax trees
    (\<open>exp_value\<close>) and the proof that the token-driven one computes it.
  \<^item> \<open>Braces\<close>: lexer, parser and count of words. The lexer refines a tree under construction (\<open>tree_char\<close>), and the
    parser inverts printing. \<open>Brace_Expand\<close>: the two routes of expansion, over the tree and over the tokens with a table of
    variants, both against the words of the tree (\<open>group_words\<close>). \<open>Shell_Braces\<close>: the step of the shell, data that stays
    data, trees read back from their text, and the arguments a command gets.
  \<^item> \<open>Pairing_Heap\<close>: the intrusive heap over an explicit store of links, against trees of nodes (\<open>rep\<close>, \<open>heap_is\<close>);
    locale \<open>priority_queue\<close>. \<open>Timespec\<close>: times as instants in nanoseconds. \<open>Timer\<close>: one timer, its packed flags
    and the order. \<open>Timers\<close>: all timers of a thread and the invariant \<open>timers_ok\<close>. \<open>Timer_States\<close>: the same as a state
    machine, a step relation with its reachable states. \<open>Timer_Drain\<close>: draining, the time to wait, the teardown.
  \<^item> \<open>Linear_Fifo\<close>: the ring buffer against the list of its items (\<open>items\<close>); locale \<open>stream_queue\<close>.

  \<^bold>\<open>Conventions.\<close> A byte is a \<^typ>\<open>char\<close>, a byte slice a list, a \<^verbatim>\<open>usize\<close> a \<^typ>\<open>nat\<close>, other integers
  words of their width, or naturals with saturation and limits written out where the code saturates and checks. A struct is a record, an enum a datatype,
  \<^verbatim>\<open>Result\<close> a sum, and a panic (an index out of range, an unwrapped \<^verbatim>\<open>None\<close>, an overflow in a build that
  checks) the value \<open>None\<close> of an option; theorems that a result exists therefore say that nothing panics and that the
  loops end. Loops whose end is not plain are \<open>partial_function\<close>s, proved to return.

  \<^bold>\<open>Parameters.\<close> What is not Rust code of the modelled files is an argument: \<open>bstr\<close>, the lossy printing of bytes, with
  the hypothesis that it leaves ASCII alone; \<open>safe\<close>, the check of the native stack; \<open>ops\<close>, the operands that expansions put into an arithmetic expression;
  \<open>lt\<close>, the order a heap is used with; \<open>fire\<close>, the handler of a timer, with the hypothesis \<open>handler_ok\<close>;
  \<open>clock\<close>, the reading of the clock; \<open>uninit\<close>, the bytes of fresh memory; \<open>wide_tokenize\<close>, the brace lexer over code
  points, which no theorem relies on.

  \<^bold>\<open>Bounds and fuel.\<close> Strings of the semver buffers have no NUL and offsets fit 31 bits, as the handles assume;
  shell words pushed as arguments are below 4 GiB, the width of a boundary. The arithmetic evaluator has fuel
  two for each byte of the expression plus two: each recursion to an outer rule and each round of a loop reads a token,
  and a token is at least a byte, which \<open>evaluate_total\<close> turns into a proof that the fuel never runs out. The search for
  the next power of two of the ring has fuel 64, one for each bit of a \<^verbatim>\<open>usize\<close>; rings have fewer than 2 to the 63
  items. The expansion of braces needs no fuel: \<open>expand_nested_fills\<close> and \<open>expand_flat_fills\<close> go by
  induction on the atoms left; its limits of 256 groups, 65535 tokens and 65536 words are the code's.

  \<^bold>\<open>What the properties show.\<close> Functional meaning: ranges, precedence, increments, the arithmetic of expressions, the
  words of braces, the order in which timers fire. Invariants: parsed groups, pooled strings, the evaluator,
  the reachable states of the timers. Refinement: the heap, the ring and the expansion of braces against sets, lists and
  trees. Round trips: printing and parsing of versions, comparators and variables, texts and trees of braces. Termination
  and liveness: the parsers, the evaluator and the drain. A few properties evaluate the code where it
  does something its own comments or tests exclude; each belongs to a finding: a prerelease without hyphen at the end of
  the input, the printed form of alternatives, prereleases of 0.0.0, timers of one deadline, and the empty words in front
  of a brace expansion.

  \<^bold>\<open>Not modelled.\<close> In the modelled files: debug, JSON and colour output, \<^verbatim>\<open>Drop\<close> and reference counts,
  poisoning in debug builds, the iterator over code points, JavaScript timer objects, locks, Windows handles, the advancing of fake timers and
  \<^verbatim>\<open>add_ms_float\<close>, which computes in floating point. The rest of the repository: the parser of the shell, the
  package manager above versions, the JavaScript and TypeScript front end, the type checker, bundler, linter, formatter
  and CSS are tens of thousands of lines each over arena-allocated trees; the runtime, bindings and system layer are
  calls into JavaScriptCore and the operating system.
\<close>

end
